(* ===== verification/Prelude.thy ===== *)
theory Prelude
  imports Main "HOL-Library.Word" "HOL-Library.Char_ord" "HOL-Library.List_Lexorder"
    "HOL-Library.Multiset" "HOL-Library.Sublist"
begin

text \<open>
  Shared vocabulary of the development: bytes and byte strings, Go's error values with
  \<open>errors.Is\<close>, the little-endian integers of \<open>encoding/binary\<close>, the contract of
  \<open>slices.SortFunc\<close> as a locale, and generic lemmas on lists, options and words.

  A Go \<open>string\<close> is a sequence of bytes, which is what HOL's \<open>string\<close> is: a list of
  8-bit characters. File contents are lists of \<open>8 word\<close>.
\<close>

section \<open>Collections\<close>

named_theorems result_splits \<open>case distinctions on results\<close>
named_theorems go_eval \<open>evaluation of the model on closed arguments by the simplifier\<close>
named_theorems le_simps \<open>little-endian encodings and their lengths\<close>

lemmas [go_eval] = Let_def char_of_def bit_0

lemmas [result_splits] = sum.splits option.splits prod.splits if_splits

section \<open>Bytes\<close>

type_synonym byte = "8 word"
type_synonym bytes = "byte list"

definition byte_of_char :: "char \<Rightarrow> byte" where
  "byte_of_char c = word_of_nat (of_char c)"

definition char_of_byte :: "byte \<Rightarrow> char" where
  "char_of_byte b = char_of (unat b)"

lemma unat_byte_of_char [simp]: "unat (byte_of_char c) = of_char c"
  by (simp add: byte_of_char_def unat_of_nat take_bit_eq_mod)

lemma char_of_byte_of_char [simp]: "char_of_byte (byte_of_char c) = c"
  by (simp add: char_of_byte_def)

lemma byte_of_char_eq_iff [simp]: "byte_of_char c = byte_of_char d \<longleftrightarrow> c = d"
  by (metis char_of_byte_of_char)

definition bytes_of_string :: "string \<Rightarrow> bytes" where
  "bytes_of_string s = map byte_of_char s"

definition string_of_bytes :: "bytes \<Rightarrow> string" where
  "string_of_bytes bs = map char_of_byte bs"

lemma length_bytes_of_string [simp]: "length (bytes_of_string s) = length s"
  by (simp add: bytes_of_string_def)

lemma string_of_bytes_of_string [simp]: "string_of_bytes (bytes_of_string s) = s"
  by (induction s) (simp_all add: string_of_bytes_def bytes_of_string_def)

lemma bytes_of_string_eq_iff [simp]: "bytes_of_string s = bytes_of_string t \<longleftrightarrow> s = t"
  by (metis string_of_bytes_of_string)

section \<open>Little-endian integers (encoding/binary)\<close>

text \<open>
  \<open>binary.LittleEndian.PutUint16\<close> and \<open>PutUint32\<close> on the word types Go's conversions
  produce, and the reading side (\<open>Uint16\<close>, \<open>Uint32\<close>).
\<close>

definition put_uint16 :: "16 word \<Rightarrow> bytes" where
  "put_uint16 w = [ucast w, ucast (drop_bit 8 w)]"

definition put_uint32 :: "32 word \<Rightarrow> bytes" where
  "put_uint32 w = [ucast w, ucast (drop_bit 8 w), ucast (drop_bit 16 w), ucast (drop_bit 24 w)]"

definition get_uint16 :: "bytes \<Rightarrow> nat \<Rightarrow> nat" where
  "get_uint16 bs i = unat (bs ! i) + 256 * unat (bs ! (i + 1))"

definition get_uint32 :: "bytes \<Rightarrow> nat \<Rightarrow> nat" where
  "get_uint32 bs i = unat (bs ! i) + 256 * unat (bs ! (i + 1))
     + 65536 * unat (bs ! (i + 2)) + 16777216 * unat (bs ! (i + 3))"

lemma length_put_uint16 [simp, le_simps]: "length (put_uint16 w) = 2"
  by (simp add: put_uint16_def)

lemma length_put_uint32 [simp, le_simps]: "length (put_uint32 w) = 4"
  by (simp add: put_uint32_def)

lemma unat_ucast_byte: "unat (ucast (w :: 'a::len word) :: byte) = unat w mod 256"
  by (simp add: unsigned_ucast_eq take_bit_eq_mod)

lemma nat_bytes2:
  assumes "n < 65536"
  shows "n mod 256 + 256 * (n div 256 mod 256) = (n :: nat)"
proof -
  from assms have "n div 256 < 256" by (simp add: less_mult_imp_div_less)
  then show ?thesis by simp
qed

lemma nat_bytes4:
  shows "n mod 256 + 256 * (n div 256 mod 256) + 65536 * (n div 65536 mod 256)
    + 16777216 * (n div 16777216) = (n :: nat)"
proof -
  define a where "a = n div 256"
  define b where "b = a div 256"
  define c where "c = b div 256"
  have "n div 65536 = b" and "n div 16777216 = c"
    by (simp_all add: a_def b_def c_def div_mult2_eq [symmetric])
  moreover have "n = 256 * a + n mod 256" "a = 256 * b + a mod 256" "b = 256 * c + b mod 256"
    by (simp_all add: a_def b_def c_def)
  ultimately show ?thesis
    unfolding a_def [symmetric] by simp
qed

lemma get_put_uint16 [le_simps]: "get_uint16 (put_uint16 w) 0 = unat w"
proof -
  have "unat w < 65536" using unsigned_less [of w] by simp
  from nat_bytes2 [OF this] show ?thesis
    by (simp add: get_uint16_def put_uint16_def unat_ucast_byte unat_drop_bit_eq)
      (simp add: drop_bit_eq_div)
qed

lemma get_put_uint32 [le_simps]: "get_uint32 (put_uint32 w) 0 = unat w"
proof -
  have "unat w < 4294967296" using unsigned_less [of w] by simp
  then have "unat w div 16777216 < 256" by (simp add: less_mult_imp_div_less)
  with nat_bytes4 [of "unat w"] show ?thesis
    by (simp add: get_uint32_def put_uint32_def unat_ucast_byte unat_drop_bit_eq)
      (simp add: drop_bit_eq_div)
qed

text \<open>Reading at an offset of a concatenation skips the part before it.\<close>

lemma get_uint16_append [simp]:
  "get_uint16 (xs @ ys) (length xs + i) = get_uint16 ys i"
  by (simp add: get_uint16_def nth_append add.assoc)

lemma get_uint32_append [simp]:
  "get_uint32 (xs @ ys) (length xs + i) = get_uint32 ys i"
  by (simp add: get_uint32_def nth_append add.assoc)

lemma get_uint16_prefix: "i + 1 < length xs \<Longrightarrow> get_uint16 (xs @ ys) i = get_uint16 xs i"
  by (simp add: get_uint16_def nth_append)

lemma get_uint32_prefix: "i + 3 < length xs \<Longrightarrow> get_uint32 (xs @ ys) i = get_uint32 xs i"
  by (simp add: get_uint32_def nth_append)

section \<open>Errors\<close>

text \<open>
  Go's error values: the sentinels the packages export, an error of the environment
  (a system call, the network, a third-party package), and \<open>fmt.Errorf("...: %w", err)\<close>,
  which wraps an error under a message. The dynamic parts of messages (names, statuses)
  are left out; no code branches on them.
\<close>

datatype goerr =
    ResolverNotFound        \<comment> \<open>\<open>resolver.ErrNotFound\<close>\<close>
  | StorageNotFound         \<comment> \<open>\<open>storage.ErrNotFound\<close>\<close>
  | ObjectsNotFound         \<comment> \<open>\<open>objects.ErrNotFound\<close>\<close>
  | CabTooLarge             \<comment> \<open>\<open>cab.ErrFileTooLarge\<close>\<close>
  | CabSizeMismatch         \<comment> \<open>\<open>cab.ErrSizeMismatch\<close>\<close>
  | NewError string         \<comment> \<open>\<open>errors.New\<close> inside a function\<close>
  | EnvError string         \<comment> \<open>an error value made outside the repository\<close>
  | GoPanic string          \<comment> \<open>not an error value: the goroutine panics here\<close>
  | Wrap string goerr       \<comment> \<open>\<open>fmt.Errorf("msg: %w", err)\<close>\<close>

text \<open>
  A panic (a slice out of range, a nil dereference) unwinds like an early return but is
  no \<open>error\<close>: it is the value \<open>GoPanic\<close>, which no code path of the source may wrap or
  test, and which the theorems exclude or exhibit.
\<close>

text \<open>\<open>errors.Is(err, target)\<close>: the target is reached by unwrapping.\<close>

fun errors_is :: "goerr \<Rightarrow> goerr \<Rightarrow> bool" where
  "errors_is (Wrap m e) t = (Wrap m e = t \<or> errors_is e t)"
| "errors_is e t = (e = t)"

type_synonym 'a result = "goerr + 'a"

definition is_ok :: "'a result \<Rightarrow> bool" where
  "is_ok r = (case r of Inl _ \<Rightarrow> False | Inr _ \<Rightarrow> True)"

lemma is_ok_simps [simp]: "is_ok (Inr x)" "\<not> is_ok (Inl e)"
  by (simp_all add: is_ok_def)

text \<open>A slice expression \<open>s[lo:hi]\<close>: \<open>None\<close> where Go panics.\<close>

definition go_slice :: "'a list \<Rightarrow> nat \<Rightarrow> nat \<Rightarrow> 'a list option" where
  "go_slice s lo hi = (if lo \<le> hi \<and> hi \<le> length s then Some (take (hi - lo) (drop lo s)) else None)"

section \<open>slices.SortFunc\<close>

text \<open>
  \<open>slices.SortFunc\<close> sorts in place by a comparison that returns a negative, zero or
  positive number. It is not stable, so the code may rely only on the result being a
  sorted permutation of its input. The model computes one such permutation (insertion
  sort, which is what the library runs below 13 elements); what clients prove is stated
  of \<open>any\<close> sorted permutation by the lemmas of the locale \<open>sort_cmp\<close>.
\<close>

fun insert_cmp :: "('a \<Rightarrow> 'a \<Rightarrow> int) \<Rightarrow> 'a \<Rightarrow> 'a list \<Rightarrow> 'a list" where
  "insert_cmp cmp x [] = [x]"
| "insert_cmp cmp x (y # ys) = (if cmp x y \<le> 0 then x # y # ys else y # insert_cmp cmp x ys)"

fun sort_func :: "('a \<Rightarrow> 'a \<Rightarrow> int) \<Rightarrow> 'a list \<Rightarrow> 'a list" where
  "sort_func cmp [] = []"
| "sort_func cmp (x # xs) = insert_cmp cmp x (sort_func cmp xs)"

lemma mset_insert_cmp [simp]: "mset (insert_cmp cmp x xs) = add_mset x (mset xs)"
  by (induction xs) auto

lemma mset_sort_func [simp]: "mset (sort_func cmp xs) = mset xs"
  by (induction xs) auto

lemma set_sort_func [simp]: "set (sort_func cmp xs) = set xs"
  by (metis mset_sort_func set_mset_mset)

lemma length_sort_func [simp]: "length (sort_func cmp xs) = length xs"
  by (metis mset_sort_func size_mset)

text \<open>
  What \<open>SortFunc\<close> asks of the comparison (a strict weak ordering), and what it then gives.
\<close>

locale sort_cmp =
  fixes cmp :: "'a \<Rightarrow> 'a \<Rightarrow> int"
  assumes cmp_swap: "cmp a b < 0 \<longleftrightarrow> cmp b a > 0"
    and cmp_trans: "cmp a b \<le> 0 \<Longrightarrow> cmp b c \<le> 0 \<Longrightarrow> cmp a c \<le> 0"
begin

lemma cmp_total: "cmp a b \<le> 0 \<or> cmp b a \<le> 0"
  using cmp_swap [of a b] cmp_swap [of b a] by linarith

lemma cmp_refl: "cmp a a \<le> 0"
  using cmp_total by blast

lemma sorted_insert_cmp:
  "sorted_wrt (\<lambda>a b. cmp a b \<le> 0) xs \<Longrightarrow> sorted_wrt (\<lambda>a b. cmp a b \<le> 0) (insert_cmp cmp x xs)"
proof (induction xs)
  case Nil
  then show ?case by simp
next
  case (Cons y ys)
  have set_eq: "set (insert_cmp cmp x ys) = insert x (set ys)"
    by (metis mset_insert_cmp set_mset_add_mset_insert set_mset_mset)
  show ?case
  proof (cases "cmp x y \<le> 0")
    case True
    with Cons.prems show ?thesis by (auto intro: cmp_trans)
  next
    case False
    with cmp_total have "cmp y x \<le> 0" by blast
    with False Cons show ?thesis by (auto simp: set_eq)
  qed
qed

lemma sorted_sort_func: "sorted_wrt (\<lambda>a b. cmp a b \<le> 0) (sort_func cmp xs)"
  by (induction xs) (auto intro: sorted_insert_cmp)

text \<open>The head of any sorted permutation is a least element.\<close>

lemma sorted_perm_hd_least:
  assumes "mset ys = mset xs" and "sorted_wrt (\<lambda>a b. cmp a b \<le> 0) ys" and "xs \<noteq> []"
  shows "hd ys \<in> set xs \<and> (\<forall>x \<in> set xs. cmp (hd ys) x \<le> 0)"
proof -
  from assms obtain z zs where ys: "ys = z # zs"
    by (cases ys) auto
  from assms(1) have "set ys = set xs" by (metis set_mset_mset)
  then have "set xs = insert z (set zs)" by (simp add: ys)
  with ys assms(2) show ?thesis by (simp add: cmp_refl)
qed

text \<open>Hence two sorted permutations of the same list agree at the head up to the comparison.\<close>

lemma sorted_perm_hd_unique:
  assumes "mset ys = mset xs" and "sorted_wrt (\<lambda>a b. cmp a b \<le> 0) ys"
    and "mset zs = mset xs" and "sorted_wrt (\<lambda>a b. cmp a b \<le> 0) zs" and "xs \<noteq> []"
  shows "cmp (hd ys) (hd zs) = 0"
proof -
  from sorted_perm_hd_least [OF assms(1,2,5)] sorted_perm_hd_least [OF assms(3,4,5)]
  have "cmp (hd ys) (hd zs) \<le> 0" and "cmp (hd zs) (hd ys) \<le> 0" by auto
  with cmp_swap [of "hd ys" "hd zs"] cmp_swap [of "hd zs" "hd ys"] show ?thesis by linarith
qed

end

section \<open>Lists\<close>

lemma takeWhile_all_iff: "takeWhile P xs = xs \<longleftrightarrow> (\<forall>x \<in> set xs. P x)"
  by (metis takeWhile_eq_all_conv)

lemma list_all_take: "list_all P xs \<Longrightarrow> list_all P (take n xs)"
  by (auto simp: list_all_iff dest: in_set_takeD)

lemma list_all_drop: "list_all P xs \<Longrightarrow> list_all P (drop n xs)"
  by (auto simp: list_all_iff dest: in_set_dropD)

lemma map_idem: "(\<And>x. x \<in> set xs \<Longrightarrow> f x = x) \<Longrightarrow> map f xs = xs"
  by (induction xs) auto

end
