(* ===== verification/GoIO.thy ===== *)
theory GoIO
  imports Prelude
begin

text \<open>
  The \<open>io\<close> interfaces the CAB writer and the object service work on: a seekable file
  (\<open>io.WriteSeeker\<close>) and a stream of input bytes (\<open>io.Reader\<close> under \<open>io.ReadFull\<close>).

  Every operation on a file may fail: the file carries the count of operations done on it
  and a function that says which of them fail, and how many bytes a failing write has
  still written. Theorems quantify over that function, so they hold whatever fails.
\<close>

section \<open>Files\<close>

record wfile =
  wf_buf :: bytes
  wf_pos :: nat
  wf_ops :: nat
  wf_fault :: "nat \<Rightarrow> nat option"     \<comment> \<open>\<open>Some k\<close>: the operation fails; a write has written \<open>k\<close> bytes\<close>

text \<open>Bytes written at an offset; a gap beyond the end is filled with zeros.\<close>

definition overwrite_at :: "bytes \<Rightarrow> nat \<Rightarrow> bytes \<Rightarrow> bytes" where
  "overwrite_at buf pos p =
     take pos buf @ replicate (pos - length buf) 0 @ p @ drop (pos + length p) buf"

definition wf_write_raw :: "wfile \<Rightarrow> bytes \<Rightarrow> wfile" where
  "wf_write_raw f p = f\<lparr>wf_buf := overwrite_at (wf_buf f) (wf_pos f) p, wf_pos := wf_pos f + length p\<rparr>"

definition wf_Write :: "wfile \<Rightarrow> bytes \<Rightarrow> goerr option \<times> wfile" where
  "wf_Write f p =
     (let f' = f\<lparr>wf_ops := Suc (wf_ops f)\<rparr> in
      case wf_fault f (wf_ops f) of
        Some k \<Rightarrow> (Some (EnvError ''write''), wf_write_raw f' (take k p))
      | None \<Rightarrow> (None, wf_write_raw f' p))"

definition wf_SeekStart :: "wfile \<Rightarrow> nat \<Rightarrow> goerr option \<times> wfile" where
  "wf_SeekStart f off =
     (let f' = f\<lparr>wf_ops := Suc (wf_ops f)\<rparr> in
      case wf_fault f (wf_ops f) of
        Some k \<Rightarrow> (Some (EnvError ''seek''), f')
      | None \<Rightarrow> (None, f'\<lparr>wf_pos := off\<rparr>))"

definition wf_SeekEnd :: "wfile \<Rightarrow> goerr option \<times> wfile" where
  "wf_SeekEnd f =
     (let f' = f\<lparr>wf_ops := Suc (wf_ops f)\<rparr> in
      case wf_fault f (wf_ops f) of
        Some k \<Rightarrow> (Some (EnvError ''seek''), f')
      | None \<Rightarrow> (None, f'\<lparr>wf_pos := length (wf_buf f)\<rparr>))"

lemma overwrite_at_end [simp]: "overwrite_at buf (length buf) p = buf @ p"
  by (simp add: overwrite_at_def)

lemma overwrite_at_mid:
  "length b = length p \<Longrightarrow> overwrite_at (a @ b @ c) (length a) p = a @ p @ c"
  by (simp add: overwrite_at_def)

text \<open>A file at its end, as a sequential writer leaves it.\<close>

definition at_end :: "wfile \<Rightarrow> bool" where
  "at_end f \<longleftrightarrow> wf_pos f = length (wf_buf f)"

lemma wf_Write_ok:
  assumes "wf_Write f p = (None, f')" and "at_end f"
  shows "wf_buf f' = wf_buf f @ p" and "at_end f'" and "wf_fault f' = wf_fault f"
    and "wf_ops f' = Suc (wf_ops f)" and "wf_fault f (wf_ops f) = None"
  using assms
  by (auto simp: wf_Write_def wf_write_raw_def at_end_def Let_def split: option.splits)

lemma wf_Write_no_fault:
  "wf_fault f (wf_ops f) = None \<Longrightarrow> fst (wf_Write f p) = None"
  by (simp add: wf_Write_def)

lemma wf_Write_fault [simp]: "wf_fault (snd (wf_Write f p)) = wf_fault f"
  by (auto simp: wf_Write_def wf_write_raw_def Let_def split: option.splits)

text \<open>What no writer changes: which operations fail; and operations are only added to the count.\<close>

definition wf_env :: "wfile \<Rightarrow> wfile \<Rightarrow> bool" where
  "wf_env f f' \<longleftrightarrow> wf_fault f' = wf_fault f \<and> wf_ops f \<le> wf_ops f'"

definition keeps_env :: "(wfile \<Rightarrow> 'a \<times> wfile) \<Rightarrow> bool" where
  "keeps_env body \<longleftrightarrow> (\<forall>f. wf_env f (snd (body f)))"

lemma wf_env_refl [simp]: "wf_env f f"
  by (simp add: wf_env_def)

lemma wf_env_trans [trans]: "wf_env a b \<Longrightarrow> wf_env b c \<Longrightarrow> wf_env a c"
  by (auto simp: wf_env_def)

lemma wf_calls_env:
  "wf_Write f p = (r, f') \<Longrightarrow> wf_env f f'"
  "wf_SeekStart f n = (r, f') \<Longrightarrow> wf_env f f'"
  "wf_SeekEnd f = (r, f') \<Longrightarrow> wf_env f f'"
  by (auto simp: wf_env_def wf_Write_def wf_SeekStart_def wf_SeekEnd_def wf_write_raw_def Let_def split: option.splits)

section \<open>errWriter (cab/writer.go)\<close>

text \<open>The first write error sticks; later writes do nothing.\<close>

record errWriter =
  ew_w :: wfile
  ew_err :: "goerr option"

definition ew_write :: "errWriter \<Rightarrow> bytes \<Rightarrow> errWriter" where
  "ew_write e p =
     (case ew_err e of
        Some _ \<Rightarrow> e
      | None \<Rightarrow> (case wf_Write (ew_w e) p of (err, w') \<Rightarrow> \<lparr>ew_w = w', ew_err = err\<rparr>))"

lemma ew_write_ok:
  assumes "ew_err (ew_write e p) = None" and "at_end (ew_w e)"
  shows "ew_err e = None" and "wf_buf (ew_w (ew_write e p)) = wf_buf (ew_w e) @ p"
    and "at_end (ew_w (ew_write e p))"
  using assms wf_Write_ok [of "ew_w e" p "snd (wf_Write (ew_w e) p)"]
  by (auto simp: ew_write_def split: option.splits prod.splits)

lemma ew_write_no_fault:
  "(\<forall>i. wf_fault (ew_w e) i = None) \<Longrightarrow> ew_err e = None \<Longrightarrow>
     ew_err (ew_write e p) = None \<and> (\<forall>i. wf_fault (ew_w (ew_write e p)) i = None)"
  using wf_Write_no_fault [of "ew_w e" p] wf_Write_fault [of "ew_w e" p]
  by (cases "wf_Write (ew_w e) p") (auto simp: ew_write_def)

section \<open>Readers\<close>

text \<open>
  A reader delivers its remaining bytes and then ends, with \<open>io.EOF\<close> or with another
  error. \<open>io.ReadFull\<close> depends on nothing else of it.
\<close>

datatype read_end = AtEOF | AtError

record reader =
  rd_rest :: bytes
  rd_end :: read_end

datatype readfull_err = RfNil | RfEOF | RfUnexpectedEOF | RfOther

definition io_ReadFull :: "reader \<Rightarrow> nat \<Rightarrow> bytes \<times> readfull_err \<times> reader" where
  "io_ReadFull r n =
     (let r' = r\<lparr>rd_rest := drop n (rd_rest r)\<rparr> in
      if n \<le> length (rd_rest r) then (take n (rd_rest r), RfNil, r')
      else (case rd_end r of
              AtError \<Rightarrow> (rd_rest r, RfOther, r')
            | AtEOF \<Rightarrow> (rd_rest r, if rd_rest r = [] then RfEOF else RfUnexpectedEOF, r')))"

end
