(* ===== verification/Storage.thy ===== *)
theory Storage
  imports GoIO
begin

text \<open>
  Package \<open>storage\<close>: the \<open>Fetcher\<close> interface, as a locale that states what the object
  service relies on, and the S3 implementation of \<open>s3.go\<close>. The AWS SDK is a parameter: the
  configuration loader and what \<open>GetObject\<close> answers.
\<close>

section \<open>io.Copy\<close>

text \<open>
  The bytes of the reader are written in order until either side fails. How they are cut
  into writes cannot be seen: a failing write may have written any number of bytes.
\<close>

definition io_Copy :: "wfile \<Rightarrow> reader \<Rightarrow> (int \<times> goerr option) \<times> wfile" where
  "io_Copy w r =
     (let n = int (length (rd_rest r));
          rd_err = (case rd_end r of AtEOF \<Rightarrow> None | AtError \<Rightarrow> Some (EnvError ''read''))
      in if rd_rest r = [] then ((0, rd_err), w)
         else case wf_Write w (rd_rest r) of
             (Some e, w') \<Rightarrow> ((int (wf_pos w') - int (wf_pos w), Some e), w')
           | (None, w') \<Rightarrow> ((n, rd_err), w'))"

section \<open>The interface (storage.go)\<close>

text \<open>
  \<open>Fetch\<close> streams the object at a bucket and key into a writer. A successful call has
  appended the object's bytes and returns their number; no call disturbs the environment.
\<close>

locale fetcher =
  fixes fetch :: "string \<Rightarrow> string \<Rightarrow> wfile \<Rightarrow> (int \<times> goerr option) \<times> wfile"
    and stored :: "string \<Rightarrow> string \<Rightarrow> bytes option"
  assumes fetch_env: "keeps_env (fetch b k)"
    and fetch_ok: "fetch b k w = ((n, None), w') \<Longrightarrow> at_end w \<Longrightarrow>
      \<exists>d. stored b k = Some d \<and> wf_buf w' = wf_buf w @ d \<and> n = int (length d) \<and> at_end w'"
    and fetch_missing: "stored b k = None \<Longrightarrow> snd (fst (fetch b k w)) \<noteq> None"
    and fetch_succeeds: "stored b k = Some d \<Longrightarrow> (\<And>i. wf_fault w i = None) \<Longrightarrow> snd (fst (fetch b k w)) = None"
begin

text \<open>Into a fresh file, a successful fetch leaves exactly the stored object.\<close>

lemma fetch_into_empty:
  assumes "fetch b k w = ((n, None), w')" and "wf_buf w = []" and "wf_pos w = 0"
  shows "stored b k = Some (wf_buf w') \<and> n = int (length (wf_buf w'))"
  using fetch_ok [OF assms(1)] assms(2,3) by (auto simp: at_end_def)

end

section \<open>S3 (s3.go)\<close>

record s3_options =
  Region :: string
  EndpointURL :: string

record s3_client =
  s3_region :: "string option"
  s3_BaseEndpoint :: "string option"
  s3_UsePathStyle :: bool

definition NewS3 :: "(string option \<Rightarrow> unit result) \<Rightarrow> s3_options \<Rightarrow> s3_client result" where
  "NewS3 LoadDefaultConfig opts =
     (let loader = (if Region opts \<noteq> '''' then Some (Region opts) else None) in
      case LoadDefaultConfig loader of
        Inl e \<Rightarrow> Inl (Wrap ''loading aws config'' e)
      | Inr _ \<Rightarrow>
          (if EndpointURL opts \<noteq> ''''
           then Inr \<lparr>s3_region = loader, s3_BaseEndpoint = Some (EndpointURL opts), s3_UsePathStyle = True\<rparr>
           else Inr \<lparr>s3_region = loader, s3_BaseEndpoint = None, s3_UsePathStyle = False\<rparr>))"

text \<open>What \<open>GetObject\<close> answers: an error that is or is not \<open>types.NoSuchKey\<close>, or a body.\<close>

datatype get_object = NoSuchKey | GetFailed goerr | GetBody reader

definition S3_Fetch :: "(string \<Rightarrow> string \<Rightarrow> get_object) \<Rightarrow> string \<Rightarrow> string \<Rightarrow> wfile
    \<Rightarrow> (int \<times> goerr option) \<times> wfile" where
  "S3_Fetch GetObject bucket key w =
     (case GetObject bucket key of
        NoSuchKey \<Rightarrow> ((0, Some StorageNotFound), w)
      | GetFailed e \<Rightarrow> ((0, Some (Wrap ''s3 GetObject'' e)), w)
      | GetBody body \<Rightarrow>
          (case io_Copy w body of
             ((n, Some e), w') \<Rightarrow> ((n, Some (Wrap ''streaming s3 object'' e)), w')
           | ((n, None), w') \<Rightarrow> ((n, None), w')))"

text \<open>The object a backend holds: a body that can be read to its end.\<close>

definition s3_stored :: "(string \<Rightarrow> string \<Rightarrow> get_object) \<Rightarrow> string \<Rightarrow> string \<Rightarrow> bytes option" where
  "s3_stored GetObject bucket key =
     (case GetObject bucket key of
        GetBody body \<Rightarrow> if rd_end body = AtEOF then Some (rd_rest body) else None
      | _ \<Rightarrow> None)"

lemma io_Copy_env: "keeps_env (\<lambda>w. io_Copy w r)"
  by (auto simp: keeps_env_def io_Copy_def Let_def dest: wf_calls_env split: prod.splits option.splits)

lemma io_Copy_ok:
  assumes "io_Copy w r = ((n, None), w')" and "at_end w"
  shows "wf_buf w' = wf_buf w @ rd_rest r" and "n = int (length (rd_rest r))" and "rd_end r = AtEOF" and "at_end w'"
  using assms wf_Write_ok [of w "rd_rest r" w']
  by (auto simp: io_Copy_def Let_def split: if_splits prod.splits option.splits read_end.splits)

lemma io_Copy_read_error: "rd_end r = AtError \<Longrightarrow> snd (fst (io_Copy w r)) \<noteq> None"
  by (auto simp: io_Copy_def Let_def split: prod.splits option.splits)

lemma io_Copy_succeeds:
  "wf_fault w (wf_ops w) = None \<Longrightarrow> rd_end r = AtEOF \<Longrightarrow> snd (fst (io_Copy w r)) = None"
  by (auto simp: io_Copy_def wf_Write_def Let_def)

interpretation s3: fetcher "S3_Fetch GetObject" "s3_stored GetObject" for GetObject
proof
  fix b k w r w' n
  show "keeps_env (S3_Fetch GetObject b k)"
    unfolding keeps_env_def
  proof
    fix v
    have c: "wf_env v (snd (io_Copy v body))" for body using io_Copy_env by (simp add: keeps_env_def)
    show "wf_env v (snd (S3_Fetch GetObject b k v))"
    proof (cases "GetObject b k")
      case (GetBody body)
      with c [of body] show ?thesis
        by (cases "io_Copy v body"; cases "snd (fst (io_Copy v body))") (auto simp: S3_Fetch_def)
    qed (simp_all add: S3_Fetch_def)
  qed
  show "snd (fst (S3_Fetch GetObject b k w)) = None"
    if "s3_stored GetObject b k = Some d" and nf: "\<And>i. wf_fault w i = None" for d
  proof -
    from that(1) obtain body where g: "GetObject b k = GetBody body" and "rd_end body = AtEOF"
      by (auto simp: s3_stored_def split: get_object.splits if_splits)
    from io_Copy_succeeds [OF nf this(2)] g show ?thesis
      by (cases "io_Copy w body"; cases "fst (io_Copy w body)") (auto simp: S3_Fetch_def)
  qed
  show "\<exists>d. s3_stored GetObject b k = Some d \<and> wf_buf w' = wf_buf w @ d \<and> n = int (length d) \<and> at_end w'"
    if f: "S3_Fetch GetObject b k w = ((n, None), w')" and e: "at_end w"
  proof -
    from f obtain body where g: "GetObject b k = GetBody body" and c: "io_Copy w body = ((n, None), w')"
      by (auto simp: S3_Fetch_def split: get_object.splits prod.splits option.splits)
    from io_Copy_ok [OF c e] g show ?thesis by (simp add: s3_stored_def)
  qed
  show "snd (fst (S3_Fetch GetObject b k w)) \<noteq> None" if n: "s3_stored GetObject b k = None"
  proof (cases "GetObject b k")
    case (GetBody body)
    then have "rd_end body = AtError" using n by (cases "rd_end body") (simp_all add: s3_stored_def)
    then have "snd (fst (io_Copy w body)) \<noteq> None" by (rule io_Copy_read_error)
    then show ?thesis using GetBody
      by (cases "io_Copy w body" rule: prod.exhaust; cases "fst (io_Copy w body)") (auto simp: S3_Fetch_def)
  qed (simp_all add: S3_Fetch_def)
qed

end
