(* ===== verification/GoPath.thy ===== *)
theory GoPath
  imports Prelude
begin

text \<open>
  Slash-separated paths: \<open>path.Clean\<close>, \<open>filepath.Join\<close> and \<open>filepath.Dir\<close> on Unix, and
  the name resolution of the kernel (\<open>segs\<close>: empty components do not count). Paths are
  strings, as in the code; the lemmas are about absolute paths written from their
  components (\<open>abspath\<close>), for which the three functions are list operations.
\<close>

section \<open>Functions\<close>

fun split_slash :: "string \<Rightarrow> string list" where
  "split_slash [] = [[]]"
| "split_slash (c # cs) =
     (if c = CHR ''/'' then [] # split_slash cs
      else case split_slash cs of [] \<Rightarrow> [[c]] | s # ss \<Rightarrow> (c # s) # ss)"

definition segs :: "string \<Rightarrow> string list" where
  "segs p = filter (\<lambda>s. s \<noteq> []) (split_slash p)"

fun join_slash :: "string list \<Rightarrow> string" where
  "join_slash [] = []"
| "join_slash [s] = s"
| "join_slash (s # ss) = s @ CHR ''/'' # join_slash ss"

text \<open>The components of a cleaned path; the second argument holds those done, last first.\<close>

fun clean_segs :: "bool \<Rightarrow> string list \<Rightarrow> string list \<Rightarrow> string list" where
  "clean_segs rooted acc [] = rev acc"
| "clean_segs rooted acc (s # ss) =
     (if s = '''' \<or> s = ''.'' then clean_segs rooted acc ss
      else if s = ''..'' then
        (case acc of
           [] \<Rightarrow> clean_segs rooted (if rooted then [] else [''..'']) ss
         | a # as \<Rightarrow> if a = ''..'' then clean_segs rooted (''..'' # acc) ss else clean_segs rooted as ss)
      else clean_segs rooted (s # acc) ss)"

definition path_Clean :: "string \<Rightarrow> string" where
  "path_Clean p =
     (if p = '''' then ''.''
      else let rooted = (hd p = CHR ''/'');
          out = (if rooted then ''/'' else '''') @ join_slash (clean_segs rooted [] (split_slash p))
        in if out = '''' then ''.'' else out)"

definition filepath_Join :: "string \<Rightarrow> string \<Rightarrow> string" where
  "filepath_Join a b =
     (if a \<noteq> '''' then path_Clean (a @ CHR ''/'' # b) else if b \<noteq> '''' then path_Clean b else '''')"

definition filepath_Dir :: "string \<Rightarrow> string" where
  "filepath_Dir p = path_Clean (rev (dropWhile (\<lambda>c. c \<noteq> CHR ''/'') (rev p)))"

section \<open>Absolute paths\<close>

definition seg_ok :: "string \<Rightarrow> bool" where
  "seg_ok s \<longleftrightarrow> s \<noteq> '''' \<and> CHR ''/'' \<notin> set s \<and> s \<noteq> ''.'' \<and> s \<noteq> ''..''"

definition abspath :: "string list \<Rightarrow> string" where
  "abspath ss = (if ss = [] then ''/'' else concat (map (\<lambda>s. CHR ''/'' # s) ss))"

lemma split_slash_nonempty [simp]: "split_slash s \<noteq> []"
  by (induction s) (auto split: list.splits)

lemma split_slash_append: "split_slash (a @ CHR ''/'' # b) = split_slash a @ split_slash b"
proof (induction a)
  case (Cons c a)
  obtain s ss where "split_slash a = s # ss"
    using split_slash_nonempty [of a] by (cases "split_slash a") blast+
  with Cons show ?case by simp
qed simp

lemma split_slash_single: "CHR ''/'' \<notin> set s \<Longrightarrow> split_slash s = [s]"
  by (induction s) auto

lemma split_slash_no_slash: "s \<in> set (split_slash p) \<Longrightarrow> CHR ''/'' \<notin> set s"
proof (induction p arbitrary: s)
  case (Cons c p)
  obtain x xs where "split_slash p = x # xs"
    using split_slash_nonempty [of p] by (cases "split_slash p") blast+
  with Cons show ?case by (auto split: if_splits)
qed simp

lemma segs_append [simp]: "segs (a @ CHR ''/'' # b) = segs a @ segs b"
  by (simp add: segs_def split_slash_append)

lemma segs_Nil [simp]: "segs [] = []"
  by (simp add: segs_def)

lemma segs_Cons_slash [simp]: "segs (CHR ''/'' # b) = segs b"
  using segs_append [of "[]" b] by simp

lemma segs_single: "seg_ok s \<Longrightarrow> segs s = [s]"
  by (simp add: segs_def seg_ok_def split_slash_single)

lemma split_abspath:
  "list_all seg_ok ss \<Longrightarrow> ss \<noteq> [] \<Longrightarrow> split_slash (concat (map (\<lambda>s. CHR ''/'' # s) ss)) = [] # ss"
proof (induction ss)
  case (Cons s ss)
  show ?case
  proof (cases ss)
    case Nil
    with Cons.prems show ?thesis by (simp add: seg_ok_def split_slash_single)
  next
    case (Cons t ts)
    with Cons.IH Cons.prems have "split_slash (concat (map (\<lambda>s. CHR ''/'' # s) ss)) = [] # ss" by simp
    then have "split_slash (t @ concat (map (\<lambda>s. CHR ''/'' # s) ts)) = ss"
      using Cons by simp
    moreover have "split_slash (s @ CHR ''/'' # t @ concat (map (\<lambda>s. CHR ''/'' # s) ts))
        = split_slash s @ split_slash (t @ concat (map (\<lambda>s. CHR ''/'' # s) ts))"
      by (rule split_slash_append)
    ultimately show ?thesis
      using Cons.prems Cons by (simp add: seg_ok_def split_slash_single)
  qed
qed simp

lemma segs_abspath [simp]: "list_all seg_ok ss \<Longrightarrow> segs (abspath ss) = ss"
proof (cases "ss = []")
  case False
  assume ok: "list_all seg_ok ss"
  then have "filter (\<lambda>s. s \<noteq> []) ss = ss"
    by (auto simp: list_all_iff seg_ok_def intro: filter_True)
  with split_abspath [OF ok False] False show ?thesis
    by (simp add: segs_def abspath_def)
qed (simp add: abspath_def segs_def)

lemma abspath_snoc: "ss \<noteq> [] \<Longrightarrow> abspath (ss @ [s]) = abspath ss @ CHR ''/'' # s"
  by (simp add: abspath_def)

lemma abspath_append: "ss \<noteq> [] \<Longrightarrow> ts \<noteq> [] \<Longrightarrow> abspath (ss @ ts) = abspath ss @ abspath ts"
  by (simp add: abspath_def)

lemma abspath_inject:
  "list_all seg_ok ss \<Longrightarrow> list_all seg_ok ts \<Longrightarrow> abspath ss = abspath ts \<longleftrightarrow> ss = ts"
  by (metis segs_abspath)

lemma abspath_join: "abspath ss = CHR ''/'' # join_slash ss"
proof (cases "ss = []")
  case False
  then have "concat (map (\<lambda>s. CHR ''/'' # s) ss) = CHR ''/'' # join_slash ss"
    by (induction ss rule: join_slash.induct) auto
  with False show ?thesis by (simp add: abspath_def)
qed (simp add: abspath_def)

subsection \<open>Cleaning\<close>

lemma clean_segs_ok:
  assumes "list_all seg_ok ss"
  shows "clean_segs r acc (ss @ ts) = clean_segs r (rev ss @ acc) ts"
  using assms by (induction ss arbitrary: acc) (auto simp: seg_ok_def)

lemma clean_segs_rooted_ok:
  assumes "list_all seg_ok acc" and "\<And>s. s \<in> set ss \<Longrightarrow> CHR ''/'' \<notin> set s"
  shows "list_all seg_ok (clean_segs True acc ss)"
  using assms
proof (induction "True" acc ss rule: clean_segs.induct)
  case (2 acc s ss)
  then show ?case by (cases acc) (auto simp: seg_ok_def)
qed (simp add: list_all_iff)

text \<open>A cleaned absolute path has only proper components.\<close>

lemma path_Clean_rooted:
  "path_Clean (CHR ''/'' # p) = abspath (clean_segs True [] (split_slash p))"
  by (simp add: path_Clean_def Let_def abspath_join)

lemma clean_rooted_ok: "list_all seg_ok (clean_segs True [] (split_slash p))"
  by (rule clean_segs_rooted_ok) (simp_all add: split_slash_no_slash)

lemma path_Clean_abspath:
  assumes "list_all seg_ok ss" and "ss \<noteq> []"
  shows "path_Clean (abspath ss) = abspath ss"
proof -
  have e: "abspath ss = CHR ''/'' # tl (abspath ss)" by (simp add: abspath_join)
  have "[] # split_slash (tl (abspath ss)) = split_slash (abspath ss)"
    by (subst (2) e) simp
  also have "\<dots> = [] # ss" using split_abspath [OF assms] assms(2) by (simp add: abspath_def)
  finally have "split_slash (tl (abspath ss)) = ss" by simp
  with clean_segs_ok [OF assms(1), of True "[]" "[]"] show ?thesis
    by (subst e) (simp add: path_Clean_rooted)
qed

lemma filepath_Join_abspath:
  assumes "list_all seg_ok ss" and "seg_ok s" and "ss \<noteq> []"
  shows "filepath_Join (abspath ss) s = abspath (ss @ [s])"
  using path_Clean_abspath [of "ss @ [s]"] assms
  by (simp add: filepath_Join_def abspath_snoc) (simp add: abspath_join)

lemma filepath_Dir_abspath:
  assumes "list_all seg_ok ss" and "seg_ok s" and "ss \<noteq> []"
  shows "filepath_Dir (abspath (ss @ [s])) = abspath ss"
proof -
  have "dropWhile (\<lambda>c. c \<noteq> CHR ''/'') (rev s @ CHR ''/'' # rev (abspath ss)) = CHR ''/'' # rev (abspath ss)"
    using assms(2) by (subst dropWhile_append2) (auto simp: seg_ok_def)
  then have e: "filepath_Dir (abspath (ss @ [s])) = path_Clean (abspath ss @ ''/'')"
    using assms(3) by (simp add: filepath_Dir_def abspath_snoc)
  have a: "abspath ss = CHR ''/'' # tl (abspath ss)" by (simp add: abspath_join)
  have "split_slash (tl (abspath ss) @ ''/'') = split_slash (tl (abspath ss)) @ [[]]"
    using split_slash_append [of "tl (abspath ss)" "[]"] by simp
  moreover have "split_slash (tl (abspath ss)) = ss"
  proof -
    have "[] # split_slash (tl (abspath ss)) = split_slash (abspath ss)" by (subst (2) a) simp
    then show ?thesis using split_abspath [OF assms(1,3)] assms(3) by (simp add: abspath_def)
  qed
  moreover have "path_Clean (abspath ss @ ''/'') = path_Clean (CHR ''/'' # (tl (abspath ss) @ ''/''))"
    by (subst a) simp
  ultimately show ?thesis
    using clean_segs_ok [OF assms(1), of True "[]" "[[]]"] by (simp add: e path_Clean_rooted)
qed

lemmas [go_eval] = segs_def path_Clean_def filepath_Join_def filepath_Dir_def abspath_def

end
