(* ===== verification/OsFs.thy ===== *)
theory OsFs
  imports GoPath GoIO "HOL-Library.AList"
begin

text \<open>
  The part of package \<open>os\<close> the program uses: a file system as a table from paths (lists of
  components) to directories and files, with the content and modification time of files
  in inodes, so that an open handle survives a rename or a removal of its path.

  Every call may fail. The state counts calls (\<open>fs_ops\<close>); \<open>fs_fault n = Some k\<close> makes call
  \<open>n\<close> fail, a write or a directory creation after \<open>k\<close> bytes or directories. \<open>fs_time\<close> is the
  clock, \<open>fs_rand\<close> the names \<open>os.CreateTemp\<close> tries. All three are free in the theorems.
  A missing path is \<open>fs.ErrNotExist\<close>; \<open>.\<close> and \<open>..\<close> are not resolved, and there are no
  links: the cache root is the operator's and holds only what the program writes.
\<close>

section \<open>State\<close>

record inode =
  ino_data :: bytes
  ino_mtime :: int

datatype node = DirNode | FileNode nat

type_synonym path = "string list"
type_synonym nodes = "(path \<times> node) list"

record osfs =
  fs_nodes :: nodes
  fs_inodes :: "nat \<Rightarrow> inode"
  fs_next :: nat
  fs_ops :: nat
  fs_fault :: "nat \<Rightarrow> nat option"
  fs_time :: "nat \<Rightarrow> int"
  fs_rand :: "nat \<Rightarrow> string list"

abbreviation node_at :: "osfs \<Rightarrow> path \<Rightarrow> node option" where
  "node_at fs \<equiv> map_of (fs_nodes fs)"

record osfile =
  f_Name :: string
  f_ino :: nat
  f_pos :: nat

record fileinfo =
  fi_Size :: int
  fi_ModTime :: int
  fi_IsDir :: bool

definition ErrNotExist :: goerr where
  "ErrNotExist = EnvError ''file does not exist''"

definition time_Now :: "osfs \<Rightarrow> int" where
  "time_Now fs = fs_time fs (fs_ops fs)"

definition os_tick :: "osfs \<Rightarrow> osfs" where
  "os_tick fs = fs\<lparr>fs_ops := Suc (fs_ops fs)\<rparr>"

text \<open>A call that has no effect when it fails.\<close>

definition syscall :: "osfs \<Rightarrow> (osfs \<Rightarrow> 'a result \<times> osfs) \<Rightarrow> 'a result \<times> osfs" where
  "syscall fs body =
     (case fs_fault fs (fs_ops fs) of
        Some _ \<Rightarrow> (Inl (EnvError ''os''), os_tick fs)
      | None \<Rightarrow> body (os_tick fs))"

section \<open>Calls on paths\<close>

definition node_info :: "osfs \<Rightarrow> node \<Rightarrow> fileinfo" where
  "node_info fs n =
     (case n of
        DirNode \<Rightarrow> \<lparr>fi_Size = 0, fi_ModTime = 0, fi_IsDir = True\<rparr>
      | FileNode i \<Rightarrow> \<lparr>fi_Size = int (length (ino_data (fs_inodes fs i))),
          fi_ModTime = ino_mtime (fs_inodes fs i), fi_IsDir = False\<rparr>)"

definition os_Stat :: "osfs \<Rightarrow> string \<Rightarrow> fileinfo result \<times> osfs" where
  "os_Stat fs p = syscall fs (\<lambda>fs.
     case node_at fs (segs p) of
       None \<Rightarrow> (Inl ErrNotExist, fs)
     | Some n \<Rightarrow> (Inr (node_info fs n), fs))"

definition os_Open :: "osfs \<Rightarrow> string \<Rightarrow> osfile result \<times> osfs" where
  "os_Open fs p = syscall fs (\<lambda>fs.
     case node_at fs (segs p) of
       None \<Rightarrow> (Inl ErrNotExist, fs)
     | Some DirNode \<Rightarrow> (Inl (EnvError ''is a directory''), fs)
     | Some (FileNode i) \<Rightarrow> (Inr \<lparr>f_Name = p, f_ino = i, f_pos = 0\<rparr>, fs))"

definition set_mtime :: "osfs \<Rightarrow> nat \<Rightarrow> int \<Rightarrow> osfs" where
  "set_mtime fs i t = fs\<lparr>fs_inodes := (fs_inodes fs)(i := (fs_inodes fs i)\<lparr>ino_mtime := t\<rparr>)\<rparr>"

definition os_Chtimes :: "osfs \<Rightarrow> string \<Rightarrow> int \<Rightarrow> unit result \<times> osfs" where
  "os_Chtimes fs p t = syscall fs (\<lambda>fs.
     case node_at fs (segs p) of
       None \<Rightarrow> (Inl ErrNotExist, fs)
     | Some DirNode \<Rightarrow> (Inr (), fs)
     | Some (FileNode i) \<Rightarrow> (Inr (), set_mtime fs i t))"

text \<open>\<open>os.MkdirAll\<close>: the missing ancestors are made outermost first.\<close>

fun mkdirs :: "nodes \<Rightarrow> path list \<Rightarrow> unit result \<times> nodes" where
  "mkdirs ns [] = (Inr (), ns)"
| "mkdirs ns (p # ps) =
     (case map_of ns p of
        None \<Rightarrow> mkdirs (AList.update p DirNode ns) ps
      | Some DirNode \<Rightarrow> mkdirs ns ps
      | Some (FileNode _) \<Rightarrow> (Inl (EnvError ''not a directory''), ns))"

definition ancestors :: "path \<Rightarrow> path list" where
  "ancestors p = map (\<lambda>n. take (Suc n) p) [0..<length p]"

definition os_MkdirAll :: "osfs \<Rightarrow> string \<Rightarrow> unit result \<times> osfs" where
  "os_MkdirAll fs p =
     (let fs' = os_tick fs in
      case fs_fault fs (fs_ops fs) of
        Some k \<Rightarrow> (Inl (EnvError ''os''), fs'\<lparr>fs_nodes := snd (mkdirs (fs_nodes fs) (take k (ancestors (segs p))))\<rparr>)
      | None \<Rightarrow> (case mkdirs (fs_nodes fs) (ancestors (segs p)) of (r, ns) \<Rightarrow> (r, fs'\<lparr>fs_nodes := ns\<rparr>)))"

definition has_child :: "nodes \<Rightarrow> path \<Rightarrow> bool" where
  "has_child ns p = list_ex (\<lambda>(q, _). strict_prefix p q) ns"

definition os_Remove :: "osfs \<Rightarrow> string \<Rightarrow> unit result \<times> osfs" where
  "os_Remove fs p = syscall fs (\<lambda>fs.
     case node_at fs (segs p) of
       None \<Rightarrow> (Inl ErrNotExist, fs)
     | Some DirNode \<Rightarrow>
         (if has_child (fs_nodes fs) (segs p) then (Inl (EnvError ''directory not empty''), fs)
          else (Inr (), fs\<lparr>fs_nodes := AList.delete (segs p) (fs_nodes fs)\<rparr>))
     | Some (FileNode _) \<Rightarrow> (Inr (), fs\<lparr>fs_nodes := AList.delete (segs p) (fs_nodes fs)\<rparr>))"

text \<open>\<open>os.Rename\<close> of a file over nothing or over a file; it replaces the target in one step.\<close>

definition os_Rename :: "osfs \<Rightarrow> string \<Rightarrow> string \<Rightarrow> unit result \<times> osfs" where
  "os_Rename fs a b = syscall fs (\<lambda>fs.
     case node_at fs (segs a) of
       Some (FileNode i) \<Rightarrow>
         (if node_at fs (segs b) = Some DirNode then (Inl (EnvError ''file exists''), fs)
          else if node_at fs (butlast (segs b)) \<noteq> Some DirNode then (Inl ErrNotExist, fs)
          else (Inr (), fs\<lparr>fs_nodes :=
             AList.update (segs b) (FileNode i) (AList.delete (segs a) (fs_nodes fs))\<rparr>))
     | _ \<Rightarrow> (Inl ErrNotExist, fs))"

text \<open>\<open>os.CreateTemp\<close> with a pattern without \<open>*\<close>: the first tried name that does not exist.\<close>

definition os_CreateTemp :: "osfs \<Rightarrow> string \<Rightarrow> string \<Rightarrow> osfile result \<times> osfs" where
  "os_CreateTemp fs dir pattern = syscall fs (\<lambda>fs1.
     let names = map (\<lambda>r. filepath_Join dir (pattern @ r)) (fs_rand fs (fs_ops fs)) in
     if node_at fs1 (segs dir) \<noteq> Some DirNode then (Inl ErrNotExist, fs1)
     else case find (\<lambda>p. node_at fs1 (segs p) = None) names of
       None \<Rightarrow> (Inl (EnvError ''file exists''), fs1)
     | Some p \<Rightarrow> (Inr \<lparr>f_Name = p, f_ino = fs_next fs1, f_pos = 0\<rparr>,
         fs1\<lparr>fs_nodes := AList.update (segs p) (FileNode (fs_next fs1)) (fs_nodes fs1),
             fs_inodes := (fs_inodes fs1)(fs_next fs1 := \<lparr>ino_data = [], ino_mtime = time_Now fs\<rparr>),
             fs_next := Suc (fs_next fs1)\<rparr>))"

section \<open>Calls on handles\<close>

definition f_Stat :: "osfs \<Rightarrow> osfile \<Rightarrow> fileinfo result \<times> osfs" where
  "f_Stat fs f = syscall fs (\<lambda>fs. (Inr (node_info fs (FileNode (f_ino f))), fs))"

definition f_Sync :: "osfs \<Rightarrow> osfile \<Rightarrow> unit result \<times> osfs" where
  "f_Sync fs f = syscall fs (\<lambda>fs. (Inr (), fs))"

definition f_Close :: "osfs \<Rightarrow> osfile \<Rightarrow> unit result \<times> osfs" where
  "f_Close fs f = syscall fs (\<lambda>fs. (Inr (), fs))"

definition f_SeekStart :: "osfs \<Rightarrow> osfile \<Rightarrow> unit result \<times> osfile \<times> osfs" where
  "f_SeekStart fs f =
     (case fs_fault fs (fs_ops fs) of
        Some _ \<Rightarrow> (Inl (EnvError ''os''), f, os_tick fs)
      | None \<Rightarrow> (Inr (), f\<lparr>f_pos := 0\<rparr>, os_tick fs))"

text \<open>
  Code that writes to a handle through \<open>io.WriteSeeker\<close> runs on the file of the handle as a
  \<open>wfile\<close>, sharing the count of calls and the faults; the content and time are stored back.
\<close>

definition wfile_of :: "osfs \<Rightarrow> osfile \<Rightarrow> wfile" where
  "wfile_of fs f = \<lparr>wf_buf = ino_data (fs_inodes fs (f_ino f)), wf_pos = f_pos f, wf_ops = fs_ops fs,
     wf_fault = fs_fault fs\<rparr>"

definition store_wfile :: "osfs \<Rightarrow> osfile \<Rightarrow> wfile \<Rightarrow> osfile \<times> osfs" where
  "store_wfile fs f w =
     (f\<lparr>f_pos := wf_pos w\<rparr>,
      fs\<lparr>fs_ops := wf_ops w,
        fs_inodes := (fs_inodes fs)(f_ino f := \<lparr>ino_data = wf_buf w, ino_mtime = fs_time fs (wf_ops w)\<rparr>)\<rparr>)"

definition with_writer :: "osfs \<Rightarrow> osfile \<Rightarrow> (wfile \<Rightarrow> 'a \<times> wfile) \<Rightarrow> 'a \<times> osfile \<times> osfs" where
  "with_writer fs f body = (case body (wfile_of fs f) of (r, w) \<Rightarrow> (r, store_wfile fs f w))"

text \<open>Reading a handle from its position: what is left, ended by \<open>EOF\<close> or by a failing read.\<close>

definition reader_of :: "osfs \<Rightarrow> osfile \<Rightarrow> reader \<times> osfs" where
  "reader_of fs f =
     (let rest = drop (f_pos f) (ino_data (fs_inodes fs (f_ino f))) in
      case fs_fault fs (fs_ops fs) of
        Some k \<Rightarrow> (\<lparr>rd_rest = take k rest, rd_end = AtError\<rparr>, os_tick fs)
      | None \<Rightarrow> (\<lparr>rd_rest = rest, rd_end = AtEOF\<rparr>, os_tick fs))"

section \<open>Invariant\<close>

text \<open>
  Paths are listed once; the parent of a node is a directory; a file's inode is allocated
  and belongs to one path only.
\<close>

definition parents_ok :: "nodes \<Rightarrow> bool" where
  "parents_ok ns \<longleftrightarrow> (\<forall>p n. map_of ns p = Some n \<longrightarrow> p \<noteq> [] \<longrightarrow> map_of ns (butlast p) = Some DirNode)"

definition inodes_ok :: "osfs \<Rightarrow> bool" where
  "inodes_ok fs \<longleftrightarrow>
     (\<forall>p i. node_at fs p = Some (FileNode i) \<longrightarrow> i < fs_next fs)
     \<and> (\<forall>p q i. node_at fs p = Some (FileNode i) \<longrightarrow> node_at fs q = Some (FileNode i) \<longrightarrow> p = q)"

definition fs_ok :: "osfs \<Rightarrow> bool" where
  "fs_ok fs \<longleftrightarrow> distinct (map fst (fs_nodes fs)) \<and> parents_ok (fs_nodes fs)
     \<and> node_at fs [] = Some DirNode \<and> inodes_ok fs"

definition content_at :: "osfs \<Rightarrow> path \<Rightarrow> bytes option" where
  "content_at fs p =
     (case node_at fs p of Some (FileNode i) \<Rightarrow> Some (ino_data (fs_inodes fs i)) | _ \<Rightarrow> None)"

definition mtime_at :: "osfs \<Rightarrow> path \<Rightarrow> int option" where
  "mtime_at fs p =
     (case node_at fs p of Some (FileNode i) \<Rightarrow> Some (ino_mtime (fs_inodes fs i)) | _ \<Rightarrow> None)"

section \<open>Effects of the calls\<close>

named_theorems os_defs \<open>definitions of the calls\<close>

lemmas [os_defs] = os_Stat_def os_Open_def os_Chtimes_def os_Remove_def os_Rename_def os_CreateTemp_def
  f_Stat_def f_Sync_def f_Close_def f_SeekStart_def

lemma os_tick_simps [simp]:
  "fs_nodes (os_tick fs) = fs_nodes fs" "fs_inodes (os_tick fs) = fs_inodes fs"
  "fs_next (os_tick fs) = fs_next fs" "fs_fault (os_tick fs) = fs_fault fs"
  "fs_time (os_tick fs) = fs_time fs" "fs_rand (os_tick fs) = fs_rand fs"
  "fs_ops (os_tick fs) = Suc (fs_ops fs)"
  by (simp_all add: os_tick_def)

lemma syscall_cases:
  assumes "syscall fs body = (r, fs')"
  obtains (fault) "r = Inl (EnvError ''os'')" and "fs' = os_tick fs" and "fs_fault fs (fs_ops fs) \<noteq> None"
    | (run) "body (os_tick fs) = (r, fs')" and "fs_fault fs (fs_ops fs) = None"
proof (cases "fs_fault fs (fs_ops fs)")
  case None
  with assms run show ?thesis by (simp add: syscall_def)
next
  case (Some k)
  with assms fault show ?thesis by (simp add: syscall_def)
qed

lemma syscall_no_fault: "fs_fault fs (fs_ops fs) = None \<Longrightarrow> syscall fs body = body (os_tick fs)"
  by (simp add: syscall_def)

text \<open>The environment of a run (faults, clock, names) never changes; calls and inodes are counted.\<close>

definition same_env :: "osfs \<Rightarrow> osfs \<Rightarrow> bool" where
  "same_env fs fs' \<longleftrightarrow> fs_fault fs' = fs_fault fs \<and> fs_time fs' = fs_time fs \<and> fs_rand fs' = fs_rand fs
     \<and> fs_ops fs \<le> fs_ops fs' \<and> fs_next fs \<le> fs_next fs'"

text \<open>A call that changes nothing but the count.\<close>

definition same_store :: "osfs \<Rightarrow> osfs \<Rightarrow> bool" where
  "same_store fs fs' \<longleftrightarrow> same_env fs fs' \<and> fs_nodes fs' = fs_nodes fs \<and> fs_inodes fs' = fs_inodes fs
     \<and> fs_next fs' = fs_next fs"

lemma same_env_refl [simp]: "same_env fs fs"
  by (simp add: same_env_def)

lemma same_env_trans [trans]: "same_env a b \<Longrightarrow> same_env b c \<Longrightarrow> same_env a c"
  by (auto simp: same_env_def)

lemma same_store_trans [trans]: "same_store a b \<Longrightarrow> same_store b c \<Longrightarrow> same_store a c"
  by (auto simp: same_store_def same_env_def)

lemma same_store_refl [simp]: "same_store fs fs"
  by (simp add: same_store_def)

lemma same_store_tick [simp]: "same_store fs (os_tick fs)"
  by (simp add: same_store_def same_env_def)

lemma same_storeD:
  assumes "same_store fs fs'"
  shows "fs_nodes fs' = fs_nodes fs" "fs_inodes fs' = fs_inodes fs" "fs_next fs' = fs_next fs"
    and "fs_ok fs' = fs_ok fs" "content_at fs' = content_at fs" "mtime_at fs' = mtime_at fs" "same_env fs fs'"
    and "node_info fs' = node_info fs"
proof -
  show e: "fs_nodes fs' = fs_nodes fs" "fs_inodes fs' = fs_inodes fs" "fs_next fs' = fs_next fs" "same_env fs fs'"
    using assms by (simp_all add: same_store_def)
  then show "fs_ok fs' = fs_ok fs" by (simp add: fs_ok_def inodes_ok_def)
  show "content_at fs' = content_at fs" "mtime_at fs' = mtime_at fs" "node_info fs' = node_info fs"
    by (simp_all add: fun_eq_iff content_at_def mtime_at_def node_info_def e cong: option.case_cong node.case_cong)
qed

lemma read_only_calls:
  "os_Stat fs p = (ri, fs') \<Longrightarrow> same_store fs fs'"
  "os_Open fs p = (rf, fs') \<Longrightarrow> same_store fs fs'"
  "f_Stat fs f = (ri, fs') \<Longrightarrow> same_store fs fs'"
  "f_Sync fs f = (ru, fs') \<Longrightarrow> same_store fs fs'"
  "f_Close fs f = (ru, fs') \<Longrightarrow> same_store fs fs'"
  by (auto simp: os_defs elim!: syscall_cases split: option.splits node.splits)

lemma f_SeekStart_store: "f_SeekStart fs f = (r, f', fs') \<Longrightarrow> same_store fs fs' \<and> f_ino f' = f_ino f"
  by (auto simp: f_SeekStart_def split: option.splits)

lemma reader_of_store: "reader_of fs f = (r, fs') \<Longrightarrow> same_store fs fs'"
  by (auto simp: reader_of_def Let_def split: option.splits)

subsection \<open>Tables\<close>

lemma map_of_AList_delete: "map_of (AList.delete k ns) = (map_of ns)(k := None)"
  by (rule delete_conv')

lemma map_of_AList_update: "map_of (AList.update k v ns) = (map_of ns)(k := Some v)"
  by (rule update_conv')

lemmas map_of_AList [simp] = map_of_AList_delete map_of_AList_update

lemma distinct_AList_delete: "distinct (map fst ns) \<Longrightarrow> distinct (map fst (AList.delete k ns))"
  by (rule distinct_delete)

lemma distinct_AList_update: "distinct (map fst ns) \<Longrightarrow> distinct (map fst (AList.update k v ns))"
  by (rule distinct_update)

lemma has_child_iff:
  "distinct (map fst ns) \<Longrightarrow> has_child ns p \<longleftrightarrow> (\<exists>q n. map_of ns q = Some n \<and> strict_prefix p q)"
  by (force simp: has_child_def list_ex_iff map_of_eq_Some_iff)

section \<open>Preservation of the invariant\<close>

declare map_of_eq_Some_iff [simp del]

definition file_at :: "osfs \<Rightarrow> path \<Rightarrow> nat option" where
  "file_at fs p = (case node_at fs p of Some (FileNode i) \<Rightarrow> Some i | _ \<Rightarrow> None)"

lemma file_at_Some [simp]: "file_at fs p = Some i \<longleftrightarrow> node_at fs p = Some (FileNode i)"
  by (auto simp: file_at_def split: option.splits node.splits)

lemma content_at_file: "content_at fs p = map_option (\<lambda>i. ino_data (fs_inodes fs i)) (file_at fs p)"
  by (auto simp: content_at_def file_at_def split: option.splits node.splits)

lemma mtime_at_file: "mtime_at fs p = map_option (\<lambda>i. ino_mtime (fs_inodes fs i)) (file_at fs p)"
  by (auto simp: mtime_at_def file_at_def split: option.splits node.splits)

lemma fs_okD:
  assumes "fs_ok fs"
  shows "distinct (map fst (fs_nodes fs))" and "node_at fs [] = Some DirNode"
    and "node_at fs p = Some n \<Longrightarrow> p \<noteq> [] \<Longrightarrow> node_at fs (butlast p) = Some DirNode"
    and "node_at fs p = Some (FileNode i) \<Longrightarrow> i < fs_next fs"
    and "node_at fs p = Some (FileNode i) \<Longrightarrow> node_at fs q = Some (FileNode i) \<Longrightarrow> p = q"
  using assms by (auto simp: fs_ok_def parents_ok_def inodes_ok_def)

lemma fs_ok_cong: "fs_nodes a = fs_nodes b \<Longrightarrow> fs_next a = fs_next b \<Longrightarrow> fs_ok a = fs_ok b"
  by (simp add: fs_ok_def inodes_ok_def)

text \<open>Every proper prefix of a node is a directory.\<close>

lemma ancestor_is_dir:
  assumes "fs_ok fs" and "node_at fs q = Some n" and "strict_prefix p q"
  shows "node_at fs p = Some DirNode"
  using assms(2,3)
proof (induction q arbitrary: n rule: rev_induct)
  case (snoc x q)
  from fs_okD(3) [OF assms(1) snoc.prems(1)] have q: "node_at fs q = Some DirNode" by simp
  from snoc.prems(2) consider "p = q" | "strict_prefix p q"
    by (metis append_butlast_last_id butlast_snoc prefix_order.less_le prefix_snoc strict_prefixE' snoc_eq_iff_butlast)
  then show ?case using q snoc.IH by cases auto
qed simp

lemma file_no_child: "fs_ok fs \<Longrightarrow> node_at fs p = Some (FileNode i) \<Longrightarrow> \<not> has_child (fs_nodes fs) p"
  using ancestor_is_dir by (fastforce simp: has_child_iff fs_okD(1))

lemma fs_ok_delete:
  assumes "fs_ok fs" and "p \<noteq> []" and "\<not> has_child (fs_nodes fs) p"
  shows "fs_ok (fs\<lparr>fs_nodes := AList.delete p (fs_nodes fs)\<rparr>)"
proof -
  have "map_of (fs_nodes fs) (butlast q) = Some DirNode \<and> butlast q \<noteq> p"
    if "node_at fs q = Some n" "q \<noteq> []" for q n
  proof
    show "node_at fs (butlast q) = Some DirNode" by (rule fs_okD(3) [OF assms(1) that])
    have "strict_prefix (butlast q) q"
      using that(2) by (metis append_butlast_last_id strict_prefixI' )
    with assms(3) that(1) show "butlast q \<noteq> p"
      unfolding has_child_iff [OF fs_okD(1) [OF assms(1)]] by blast
  qed
  then show ?thesis
    using assms(1,2) by (auto simp: fs_ok_def parents_ok_def inodes_ok_def distinct_AList_delete)
qed

lemma fs_ok_add_dir:
  assumes "fs_ok fs" and "node_at fs p = None" and "node_at fs (butlast p) = Some DirNode"
  shows "fs_ok (fs\<lparr>fs_nodes := AList.update p DirNode (fs_nodes fs)\<rparr>)"
  using assms
  by (auto simp: fs_ok_def parents_ok_def inodes_ok_def distinct_AList_update)

lemma fs_ok_put_file:
  assumes "fs_ok fs" and "node_at fs p \<noteq> Some DirNode" and "node_at fs (butlast p) = Some DirNode"
    and "i < fs_next fs" and "\<And>q. node_at fs q = Some (FileNode i) \<Longrightarrow> q = p"
  shows "fs_ok (fs\<lparr>fs_nodes := AList.update p (FileNode i) (fs_nodes fs)\<rparr>)"
proof -
  have "p \<noteq> []" using assms(2) fs_okD(2) [OF assms(1)] by auto
  moreover have "butlast q \<noteq> p" if "node_at fs q = Some n" "q \<noteq> []" for q n
    using fs_okD(3) [OF assms(1) that] assms(2) by auto
  moreover have "butlast p \<noteq> p" using \<open>p \<noteq> []\<close> by (metis length_butlast diff_less length_greater_0_conv less_irrefl zero_less_one)
  ultimately show ?thesis
    using assms by (auto simp: fs_ok_def parents_ok_def inodes_ok_def distinct_AList_update)
qed

subsection \<open>Directories\<close>

fun parent_first :: "path set \<Rightarrow> path list \<Rightarrow> bool" where
  "parent_first S [] = True"
| "parent_first S (p # ps) = (butlast p \<in> S \<and> parent_first (insert p S) ps)"

lemma parent_first_snoc:
  "parent_first S (ps @ [p]) \<longleftrightarrow> parent_first S ps \<and> butlast p \<in> S \<union> set ps"
  by (induction ps arbitrary: S) auto

lemma parent_first_take: "parent_first S ps \<Longrightarrow> parent_first S (take k ps)"
  by (induction ps arbitrary: S k) (auto simp: take_Cons')

lemma ancestors_Nil [simp]: "ancestors [] = []"
  by (simp add: ancestors_def)

lemma ancestors_snoc [simp]: "ancestors (p @ [x]) = ancestors p @ [p @ [x]]"
  by (simp add: ancestors_def)

lemma set_ancestors: "q \<in> set (ancestors p) \<longleftrightarrow> q \<noteq> [] \<and> prefix q p"
  by (induction p rule: rev_induct) auto

lemma parent_first_ancestors: "parent_first {[]} (ancestors p)"
proof (induction p rule: rev_induct)
  case (snoc x p)
  then show ?case
    using ancestors_snoc [of "[]" x] by (cases "p = []") (auto simp: parent_first_snoc set_ancestors)
qed simp

lemma mkdirs_effect:
  assumes "mkdirs (fs_nodes fs) ps = (r, ns)" and "fs_ok fs" and "parent_first S ps"
    and "\<And>q. q \<in> S \<Longrightarrow> node_at fs q = Some DirNode"
  shows "fs_ok (fs\<lparr>fs_nodes := ns\<rparr>)
    \<and> (\<forall>p. map_of ns p = node_at fs p \<or> (p \<in> set ps \<and> node_at fs p = None \<and> map_of ns p = Some DirNode))
    \<and> (r = Inr () \<longrightarrow> (\<forall>p \<in> set ps. map_of ns p = Some DirNode))"
  using assms
proof (induction ps arbitrary: fs S)
  case Nil
  have "fs\<lparr>fs_nodes := fs_nodes fs\<rparr> = fs" by simp
  with Nil show ?case by auto
next
  case (Cons p ps)
  show ?case
  proof (cases "node_at fs p")
    case None
    let ?fs = "fs\<lparr>fs_nodes := AList.update p DirNode (fs_nodes fs)\<rparr>"
    have "fs_ok ?fs" using Cons.prems None by (intro fs_ok_add_dir) auto
    moreover have "mkdirs (fs_nodes ?fs) ps = (r, ns)" using Cons.prems(1) None by simp
    ultimately show ?thesis
      using Cons.IH [of ?fs "insert p S"] Cons.prems(3,4) None by (auto split: if_splits) metis+
  next
    case (Some n)
    show ?thesis
    proof (cases n)
      case DirNode
      with Cons.prems Some Cons.IH [of fs "insert p S"] show ?thesis by auto metis+
    next
      case (FileNode i)
      with Cons.prems Some show ?thesis by auto
    qed
  qed
qed

lemma os_MkdirAll_effect:
  assumes "os_MkdirAll fs p = (r, fs')" and "fs_ok fs"
  shows "fs_ok fs'" and "same_env fs fs'" and "fs_inodes fs' = fs_inodes fs" and "fs_next fs' = fs_next fs"
    and "node_at fs' q = node_at fs q \<or>
      (q \<noteq> [] \<and> prefix q (segs p) \<and> node_at fs q = None \<and> node_at fs' q = Some DirNode)"
    and "r = Inr () \<Longrightarrow> node_at fs' (segs p) = Some DirNode"
proof -
  obtain ps ns rr where ps: "ps = ancestors (segs p) \<or> (\<exists>k. ps = take k (ancestors (segs p)))"
    and m: "mkdirs (fs_nodes fs) ps = (rr, ns)" and fs': "fs' = (os_tick fs)\<lparr>fs_nodes := ns\<rparr>"
    and r: "r = Inr () \<Longrightarrow> ps = ancestors (segs p) \<and> rr = Inr ()"
  proof (cases "fs_fault fs (fs_ops fs)")
    case None
    with assms(1) that [of "ancestors (segs p)"] show ?thesis
      by (auto simp: os_MkdirAll_def Let_def split: prod.splits)
  next
    case (Some k)
    obtain rr ns where "mkdirs (fs_nodes fs) (take k (ancestors (segs p))) = (rr, ns)" by fastforce
    with Some assms(1) that [of "take k (ancestors (segs p))" rr ns] show ?thesis
      by (auto simp: os_MkdirAll_def Let_def)
  qed
  have "parent_first {[]} ps" using ps parent_first_ancestors parent_first_take by blast
  from mkdirs_effect [OF m assms(2) this] fs_okD(2) [OF assms(2)]
  have e: "fs_ok (fs\<lparr>fs_nodes := ns\<rparr>)"
    "\<forall>p. map_of ns p = node_at fs p \<or> (p \<in> set ps \<and> node_at fs p = None \<and> map_of ns p = Some DirNode)"
    "rr = Inr () \<longrightarrow> (\<forall>p \<in> set ps. map_of ns p = Some DirNode)"
    by auto
  have sub: "set ps \<subseteq> {q. q \<noteq> [] \<and> prefix q (segs p)}"
    using ps by (auto simp: set_ancestors dest!: in_set_takeD)
  show "fs_ok fs'" using e(1) by (simp add: fs' fs_ok_def inodes_ok_def)
  show "same_env fs fs'" "fs_inodes fs' = fs_inodes fs" "fs_next fs' = fs_next fs"
    by (simp_all add: fs' same_env_def)
  show "node_at fs' q = node_at fs q \<or>
      (q \<noteq> [] \<and> prefix q (segs p) \<and> node_at fs q = None \<and> node_at fs' q = Some DirNode)"
    using e(2) sub by (auto simp: fs')
  assume "r = Inr ()"
  with r e(3) have "\<forall>q \<in> set (ancestors (segs p)). map_of ns q = Some DirNode" by auto
  then show "node_at fs' (segs p) = Some DirNode"
    using fs_okD(2) [OF assms(2)] spec [OF e(2), of "[]"] by (cases "segs p = []") (auto simp: fs' set_ancestors)
qed

text \<open>It succeeds when nothing fails and no ancestor is a file.\<close>

lemma mkdirs_ok:
  "(\<And>p i. p \<in> set ps \<Longrightarrow> map_of ns p \<noteq> Some (FileNode i)) \<Longrightarrow> fst (mkdirs ns ps) = Inr ()"
proof (induction ps arbitrary: ns)
  case (Cons p ps)
  show ?case
  proof (cases "map_of ns p")
    case None
    have "fst (mkdirs (AList.update p DirNode ns) ps) = Inr ()"
      using Cons.prems by (intro Cons.IH) auto
    with None show ?thesis by simp
  next
    case (Some n)
    with Cons show ?thesis by (cases n) auto
  qed
qed simp

lemma os_MkdirAll_ok:
  assumes "fs_fault fs (fs_ops fs) = None"
    and "\<And>q i. prefix q (segs p) \<Longrightarrow> node_at fs q \<noteq> Some (FileNode i)"
  shows "fst (os_MkdirAll fs p) = Inr ()"
  using mkdirs_ok [of "ancestors (segs p)" "fs_nodes fs"] assms
  by (auto simp: os_MkdirAll_def Let_def set_ancestors split: prod.splits)

subsection \<open>Files\<close>

lemma os_Remove_effect:
  assumes "os_Remove fs p = (r, fs')" and "fs_ok fs"
  shows "(r = Inr () \<and> segs p \<noteq> [] \<longrightarrow> node_at fs (segs p) \<noteq> None \<and> \<not> has_child (fs_nodes fs) (segs p)
        \<and> fs_nodes fs' = AList.delete (segs p) (fs_nodes fs) \<and> fs_ok fs')"
    and "r \<noteq> Inr () \<Longrightarrow> same_store fs fs'"
    and "same_env fs fs'" and "fs_inodes fs' = fs_inodes fs" and "fs_next fs' = fs_next fs"
proof -
  have tick: "fs_ok (os_tick fs)" using assms(2) by (simp add: fs_ok_def inodes_ok_def)
  from assms(1) have c: "(r \<noteq> Inr () \<and> fs' = os_tick fs) \<or>
      (r = Inr () \<and> node_at fs (segs p) \<noteq> None \<and> \<not> has_child (fs_nodes fs) (segs p)
        \<and> fs' = (os_tick fs)\<lparr>fs_nodes := AList.delete (segs p) (fs_nodes (os_tick fs))\<rparr>)"
    using file_no_child [OF assms(2)]
    by (auto simp: os_Remove_def elim!: syscall_cases split: option.splits node.splits if_splits)
  then show "(r = Inr () \<and> segs p \<noteq> [] \<longrightarrow> node_at fs (segs p) \<noteq> None \<and> \<not> has_child (fs_nodes fs) (segs p)
        \<and> fs_nodes fs' = AList.delete (segs p) (fs_nodes fs) \<and> fs_ok fs')"
    using fs_ok_delete [OF tick] by auto
  from c show "r \<noteq> Inr () \<Longrightarrow> same_store fs fs'" "same_env fs fs'" "fs_inodes fs' = fs_inodes fs"
    "fs_next fs' = fs_next fs"
    by (auto simp: same_env_def)
qed

lemma os_Rename_effect:
  assumes "os_Rename fs a b = (r, fs')" and "fs_ok fs"
  shows "r \<noteq> Inr () \<Longrightarrow> same_store fs fs'"
    and "same_env fs fs'" and "fs_inodes fs' = fs_inodes fs" and "fs_next fs' = fs_next fs" and "fs_ok fs'"
    and "r = Inr () \<Longrightarrow> \<exists>i. node_at fs (segs a) = Some (FileNode i) \<and> node_at fs (segs b) \<noteq> Some DirNode
        \<and> node_at fs' = (node_at fs)(segs a := None, segs b := Some (FileNode i))"
proof -
  have tick: "fs_ok (os_tick fs)" using assms(2) by (simp add: fs_ok_def inodes_ok_def)
  from assms(1) consider (same) "r \<noteq> Inr ()" "fs' = os_tick fs"
    | (moved) i where "r = Inr ()" "node_at fs (segs a) = Some (FileNode i)" "node_at fs (segs b) \<noteq> Some DirNode"
        "node_at fs (butlast (segs b)) = Some DirNode"
        "fs' = (os_tick fs)\<lparr>fs_nodes := AList.update (segs b) (FileNode i) (AList.delete (segs a) (fs_nodes fs))\<rparr>"
    by (auto simp: os_Rename_def elim!: syscall_cases split: option.splits node.splits if_splits)
  note cases = this
  from cases show "r \<noteq> Inr () \<Longrightarrow> same_store fs fs'" by cases auto
  from cases show "same_env fs fs'" "fs_inodes fs' = fs_inodes fs" "fs_next fs' = fs_next fs"
    by (cases; simp add: same_env_def)+
  from cases show "r = Inr () \<Longrightarrow> \<exists>i. node_at fs (segs a) = Some (FileNode i) \<and> node_at fs (segs b) \<noteq> Some DirNode
        \<and> node_at fs' = (node_at fs)(segs a := None, segs b := Some (FileNode i))"
    by cases auto
  from cases show "fs_ok fs'"
  proof cases
    case same
    with tick show ?thesis by simp
  next
    case moved
    let ?del = "(os_tick fs)\<lparr>fs_nodes := AList.delete (segs a) (fs_nodes (os_tick fs))\<rparr>"
    have "segs a \<noteq> []" using moved(2) fs_okD(2) [OF assms(2)] by auto
    then have "fs_ok ?del" using file_no_child [OF assms(2) moved(2)] by (intro fs_ok_delete tick) auto
    moreover have "segs a \<noteq> butlast (segs b)" using moved(2,4) by auto
    ultimately have "fs_ok (?del\<lparr>fs_nodes := AList.update (segs b) (FileNode i) (fs_nodes ?del)\<rparr>)"
      using moved fs_okD(4,5) [OF assms(2)]
      by (intro fs_ok_put_file) (auto split: if_splits)
    then show ?thesis by (simp add: moved(5))
  qed
qed

lemma os_CreateTemp_effect:
  assumes "os_CreateTemp fs dir pat = (r, fs')" and "fs_ok fs"
  shows "is_ok r \<or> same_store fs fs'" and "same_env fs fs'"
    and "r = Inr f \<Longrightarrow> \<exists>x \<in> set (fs_rand fs (fs_ops fs)). f_Name f = filepath_Join dir (pat @ x)
        \<and> node_at fs (segs (f_Name f)) = None \<and> f_ino f = fs_next fs \<and> f_pos f = 0
        \<and> node_at fs (segs dir) = Some DirNode
        \<and> node_at fs' = (node_at fs)(segs (f_Name f) := Some (FileNode (f_ino f)))
        \<and> fs_inodes fs' = (fs_inodes fs)(f_ino f := \<lparr>ino_data = [], ino_mtime = time_Now fs\<rparr>)
        \<and> fs_next fs' = Suc (fs_next fs)
        \<and> (node_at fs (butlast (segs (f_Name f))) = Some DirNode \<longrightarrow> fs_ok fs')"
proof -
  from assms(1) consider (same) "\<not> is_ok r" "fs' = os_tick fs"
    | (new) p x where "r = Inr \<lparr>f_Name = p, f_ino = fs_next fs, f_pos = 0\<rparr>"
        "node_at fs (segs dir) = Some DirNode" "x \<in> set (fs_rand fs (fs_ops fs))" "p = filepath_Join dir (pat @ x)"
        "node_at fs (segs p) = None"
        "fs' = (os_tick fs)\<lparr>fs_nodes := AList.update (segs p) (FileNode (fs_next fs)) (fs_nodes fs),
          fs_inodes := (fs_inodes fs)(fs_next fs := \<lparr>ino_data = [], ino_mtime = time_Now fs\<rparr>),
          fs_next := Suc (fs_next fs)\<rparr>"
    by (auto simp: os_CreateTemp_def find_Some_iff in_set_conv_nth Let_def elim!: syscall_cases
        split: option.splits if_splits) (use nth_mem in blast)
  note cases = this
  from cases show "is_ok r \<or> same_store fs fs'" by cases auto
  from cases show "same_env fs fs'" by (cases; simp add: same_env_def)
  assume f: "r = Inr f"
  from cases show "\<exists>x \<in> set (fs_rand fs (fs_ops fs)). f_Name f = filepath_Join dir (pat @ x)
        \<and> node_at fs (segs (f_Name f)) = None \<and> f_ino f = fs_next fs \<and> f_pos f = 0
        \<and> node_at fs (segs dir) = Some DirNode
        \<and> node_at fs' = (node_at fs)(segs (f_Name f) := Some (FileNode (f_ino f)))
        \<and> fs_inodes fs' = (fs_inodes fs)(f_ino f := \<lparr>ino_data = [], ino_mtime = time_Now fs\<rparr>)
        \<and> fs_next fs' = Suc (fs_next fs)
        \<and> (node_at fs (butlast (segs (f_Name f))) = Some DirNode \<longrightarrow> fs_ok fs')"
  proof cases
    case same
    with f show ?thesis by simp
  next
    case new
    have "fs_ok fs'" if "node_at fs (butlast (segs p)) = Some DirNode"
    proof -
      have "fs_ok ((os_tick fs)\<lparr>fs_inodes := (fs_inodes fs)(fs_next fs := \<lparr>ino_data = [], ino_mtime = time_Now fs\<rparr>),
          fs_next := Suc (fs_next fs)\<rparr>)" (is "fs_ok ?g")
        using assms(2) by (auto simp: fs_ok_def inodes_ok_def less_SucI)
      moreover have "node_at fs q = Some (FileNode (fs_next fs)) \<Longrightarrow> q = segs p" for q
        using fs_okD(4) [OF assms(2), of q "fs_next fs"] by simp
      ultimately have "fs_ok (?g\<lparr>fs_nodes := AList.update (segs p) (FileNode (fs_next fs)) (fs_nodes ?g)\<rparr>)"
        using that new(5) by (intro fs_ok_put_file) auto
      then show ?thesis by (rule fs_ok_cong [THEN iffD1, rotated 2]) (simp_all add: new(6))
    qed
    with new f show ?thesis by (auto intro!: bexI [of _ x])
  qed
qed

lemma os_Chtimes_effect:
  assumes "os_Chtimes fs p t = (r, fs')"
  shows "fs_nodes fs' = fs_nodes fs" and "fs_next fs' = fs_next fs" and "same_env fs fs'"
    and "ino_data (fs_inodes fs' i) = ino_data (fs_inodes fs i)" and "fs_ok fs' = fs_ok fs"
    and "content_at fs' = content_at fs"
proof -
  show n: "fs_nodes fs' = fs_nodes fs" "fs_next fs' = fs_next fs" "same_env fs fs'"
    and d: "\<And>i. ino_data (fs_inodes fs' i) = ino_data (fs_inodes fs i)"
    using assms
    by (auto simp: os_Chtimes_def set_mtime_def same_env_def elim!: syscall_cases split: option.splits node.splits)
  show "fs_ok fs' = fs_ok fs" by (simp add: fs_ok_def inodes_ok_def n)
  show "content_at fs' = content_at fs"
    by (auto simp: fun_eq_iff content_at_def n d split: option.splits node.splits)
qed

text \<open>Writing through a handle changes the content of its inode only.\<close>

lemma with_writer_effect:
  assumes "with_writer fs f body = (r, f', fs')"
    and "wf_fault (snd (body (wfile_of fs f))) = fs_fault fs"
    and "fs_ops fs \<le> wf_ops (snd (body (wfile_of fs f)))"
  shows "fs_nodes fs' = fs_nodes fs" and "fs_next fs' = fs_next fs" and "same_env fs fs'"
    and "f_ino f' = f_ino f" and "f_Name f' = f_Name f" and "fs_ok fs' = fs_ok fs"
    and "i \<noteq> f_ino f \<Longrightarrow> fs_inodes fs' i = fs_inodes fs i"
    and "r = fst (body (wfile_of fs f))"
    and "ino_data (fs_inodes fs' (f_ino f)) = wf_buf (snd (body (wfile_of fs f)))"
  using assms
  by (auto simp: with_writer_def store_wfile_def wfile_of_def same_env_def fs_ok_def inodes_ok_def split: prod.splits)

end
