(* ===== verification/GoStrings.thy ===== *)
theory GoStrings
  imports Prelude
begin

text \<open>
  What the program uses of Go's \<open>strings\<close>, \<open>unicode/utf8\<close>, \<open>encoding/hex\<close>, \<open>cmp\<close>
  and \<open>path\<close>. Strings are byte sequences; the case operations decode UTF-8 as Go does
  (an invalid byte is the rune U+FFFD of width 1). The case tables of package
  \<open>unicode\<close> above U+007F are a parameter, the record \<open>unicode_tables\<close>; on ASCII
  strings it plays no role (\<open>ToLower_ascii\<close>, \<open>EqualFold_ascii\<close>).
\<close>

section \<open>Prefixes, suffixes, searching, trimming\<close>

definition HasPrefix :: "string \<Rightarrow> string \<Rightarrow> bool" where
  "HasPrefix s p \<longleftrightarrow> length p \<le> length s \<and> take (length p) s = p"

definition HasSuffix :: "string \<Rightarrow> string \<Rightarrow> bool" where
  "HasSuffix s x \<longleftrightarrow> length x \<le> length s \<and> drop (length s - length x) s = x"

text \<open>\<open>strings.LastIndexByte\<close>: the index of the last occurrence, or -1.\<close>

definition LastIndexByte :: "string \<Rightarrow> char \<Rightarrow> int" where
  "LastIndexByte s c =
     (if c \<in> set s
      then int (length s) - 1 - int (length (takeWhile (\<lambda>x. x \<noteq> c) (rev s)))
      else -1)"

definition TrimLeft :: "string \<Rightarrow> string \<Rightarrow> string" where
  "TrimLeft s cutset = dropWhile (\<lambda>x. x \<in> set cutset) s"

definition TrimRight :: "string \<Rightarrow> string \<Rightarrow> string" where
  "TrimRight s cutset = rev (dropWhile (\<lambda>x. x \<in> set cutset) (rev s))"

text \<open>\<open>strings.ReplaceAll\<close> for a one-byte pattern, the only use in the program.\<close>

definition ReplaceAll :: "string \<Rightarrow> char \<Rightarrow> string \<Rightarrow> string" where
  "ReplaceAll s old new = concat (map (\<lambda>x. if x = old then new else [x]) s)"

text \<open>\<open>strings.Compare\<close>: bytewise lexicographic, as -1, 0 or 1.\<close>

fun Compare :: "string \<Rightarrow> string \<Rightarrow> int" where
  "Compare [] [] = 0"
| "Compare [] (b # bs) = -1"
| "Compare (a # as) [] = 1"
| "Compare (a # as) (b # bs) = (if a < b then -1 else if b < a then 1 else Compare as bs)"

text \<open>\<open>cmp.Or\<close> on two strings: the first that is not the zero value.\<close>

definition cmp_Or :: "string \<Rightarrow> string \<Rightarrow> string" where
  "cmp_Or a b = (if a \<noteq> '''' then a else b)"

lemma HasPrefix_append [simp]: "HasPrefix (p @ s) p"
  by (simp add: HasPrefix_def)

lemma HasPrefix_iff: "HasPrefix s p \<longleftrightarrow> (\<exists>t. s = p @ t)"
  by (metis HasPrefix_append HasPrefix_def append_take_drop_id)

lemma HasSuffix_append [simp]: "HasSuffix (s @ x) x"
  by (simp add: HasSuffix_def)

lemma HasSuffix_iff: "HasSuffix s x \<longleftrightarrow> (\<exists>t. s = t @ x)"
  by (metis HasSuffix_append HasSuffix_def append_take_drop_id)

lemma LastIndexByte_append:
  assumes "c \<notin> set b"
  shows "LastIndexByte (a @ c # b) c = int (length a)"
proof -
  have "takeWhile (\<lambda>x. x \<noteq> c) (rev b @ c # rev a) = rev b"
    using assms by (subst takeWhile_append2) auto
  then show ?thesis by (simp add: LastIndexByte_def)
qed

lemma LastIndexByte_neg_iff: "LastIndexByte s c < 0 \<longleftrightarrow> c \<notin> set s"
proof (cases "c \<in> set s")
  case True
  then obtain a b where "s = a @ c # b" and "c \<notin> set b"
    using split_list_last by metis
  with LastIndexByte_append [of c b a] True show ?thesis by simp
qed (simp add: LastIndexByte_def)

lemma LastIndexByte_split:
  assumes "0 \<le> LastIndexByte s c"
  obtains a b where "s = a @ c # b" and "c \<notin> set b" and "LastIndexByte s c = int (length a)"
proof -
  from assms LastIndexByte_neg_iff [of s c] have "c \<in> set s" by auto
  then obtain a b where "s = a @ c # b" and "c \<notin> set b"
    using split_list_last by metis
  with LastIndexByte_append [of c b a] that show ?thesis by blast
qed

lemma Compare_swap: "Compare a b = - Compare b a"
  by (induction a b rule: Compare.induct) auto

lemma Compare_eq_0_iff [simp]: "Compare a b = 0 \<longleftrightarrow> a = b"
  by (induction a b rule: Compare.induct) auto

lemma Compare_le_0_iff: "Compare a b \<le> 0 \<longleftrightarrow> a \<le> b"
  by (induction a b rule: Compare.induct) auto

lemma Compare_less_0_iff: "Compare a b < 0 \<longleftrightarrow> a < b"
  by (induction a b rule: Compare.induct) auto

section \<open>UTF-8 and the case operations\<close>

type_synonym rune = nat

record unicode_tables =
  u_lower :: "rune \<Rightarrow> rune"          \<comment> \<open>\<open>unicode.ToLower\<close> above U+007F\<close>
  u_fold :: "rune \<Rightarrow> rune \<Rightarrow> bool"   \<comment> \<open>same \<open>unicode.SimpleFold\<close> orbit, smaller rune first\<close>

definition RuneError :: rune where
  "RuneError = 0xFFFD"

definition cont_byte :: "nat \<Rightarrow> bool" where
  "cont_byte b \<longleftrightarrow> 0x80 \<le> b \<and> b \<le> 0xBF"

text \<open>\<open>utf8.DecodeRuneInString\<close> on byte values: the rune and its width.\<close>

definition second_byte_range :: "nat \<Rightarrow> nat \<times> nat" where
  "second_byte_range a =
     (if a = 0xE0 then (0xA0, 0xBF) else if a = 0xED then (0x80, 0x9F)
      else if a = 0xF0 then (0x90, 0xBF) else if a = 0xF4 then (0x80, 0x8F)
      else (0x80, 0xBF))"

fun DecodeRune :: "nat list \<Rightarrow> rune \<times> nat" where
  "DecodeRune [] = (RuneError, 0)"
| "DecodeRune (a # s) =
     (let (lo, hi) = second_byte_range a in
      if a < 0x80 then (a, 1)
      else if 0xC2 \<le> a \<and> a \<le> 0xDF then
        (case s of b # _ \<Rightarrow>
           if cont_byte b then ((a - 0xC0) * 64 + (b - 0x80), 2) else (RuneError, 1)
         | [] \<Rightarrow> (RuneError, 1))
      else if 0xE0 \<le> a \<and> a \<le> 0xEF then
        (case s of b # c # _ \<Rightarrow>
           if lo \<le> b \<and> b \<le> hi \<and> cont_byte c
           then ((a - 0xE0) * 4096 + (b - 0x80) * 64 + (c - 0x80), 3) else (RuneError, 1)
         | _ \<Rightarrow> (RuneError, 1))
      else if 0xF0 \<le> a \<and> a \<le> 0xF4 then
        (case s of b # c # d # _ \<Rightarrow>
           if lo \<le> b \<and> b \<le> hi \<and> cont_byte c \<and> cont_byte d
           then ((a - 0xF0) * 262144 + (b - 0x80) * 4096 + (c - 0x80) * 64 + (d - 0x80), 4)
           else (RuneError, 1)
         | _ \<Rightarrow> (RuneError, 1))
      else (RuneError, 1))"

text \<open>\<open>utf8.AppendRune\<close>: surrogates and out-of-range values are written as U+FFFD.\<close>

definition EncodeRune :: "rune \<Rightarrow> nat list" where
  "EncodeRune r0 =
     (let r = (if (0xD800 \<le> r0 \<and> r0 \<le> 0xDFFF) \<or> 0x10FFFF < r0 then RuneError else r0) in
      if r < 0x80 then [r]
      else if r < 0x800 then [0xC0 + r div 64, 0x80 + r mod 64]
      else if r < 0x10000 then [0xE0 + r div 4096, 0x80 + r div 64 mod 64, 0x80 + r mod 64]
      else [0xF0 + r div 262144, 0x80 + r div 4096 mod 64, 0x80 + r div 64 mod 64, 0x80 + r mod 64])"

lemma DecodeRune_width: "s \<noteq> [] \<Longrightarrow> 1 \<le> snd (DecodeRune s)"
  by (cases s) (auto simp: Let_def split: prod.splits list.splits if_splits)

function runes_of :: "nat list \<Rightarrow> rune list" where
  "runes_of s = (if s = [] then [] else fst (DecodeRune s) # runes_of (drop (snd (DecodeRune s)) s))"
  by pat_completeness auto
termination
proof (relation "measure length", goal_cases)
  case (2 s)
  then show ?case
    using DecodeRune_width [of s] by (cases s) auto
qed simp

declare runes_of.simps [simp del]

definition runes :: "string \<Rightarrow> rune list" where
  "runes s = runes_of (map of_char s)"

definition rune_lower :: "unicode_tables \<Rightarrow> rune \<Rightarrow> rune" where
  "rune_lower uc r =
     (if r < 0x80 then (if 65 \<le> r \<and> r \<le> 90 then r + 32 else r) else u_lower uc r)"

text \<open>
  \<open>strings.ToLower\<close> is \<open>strings.Map(unicode.ToLower, s)\<close>; its ASCII fast path gives
  the same string.
\<close>

definition ToLower :: "unicode_tables \<Rightarrow> string \<Rightarrow> string" where
  "ToLower uc s = map char_of (concat (map (EncodeRune \<circ> rune_lower uc) (runes s)))"

text \<open>The comparison of two runes in the loop of \<open>strings.EqualFold\<close>.\<close>

definition rune_fold_eq :: "unicode_tables \<Rightarrow> rune \<Rightarrow> rune \<Rightarrow> bool" where
  "rune_fold_eq uc r1 r2 =
     (let sr = min r1 r2; tr = max r1 r2 in
      if tr = sr then True
      else if tr < 0x80 then 65 \<le> sr \<and> sr \<le> 90 \<and> tr = sr + 32
      else u_fold uc sr tr)"

definition EqualFold :: "unicode_tables \<Rightarrow> string \<Rightarrow> string \<Rightarrow> bool" where
  "EqualFold uc s t = list_all2 (rune_fold_eq uc) (runes s) (runes t)"

subsection \<open>ASCII strings\<close>

definition is_ascii :: "char \<Rightarrow> bool" where
  "is_ascii c \<longleftrightarrow> (of_char c :: nat) < 0x80"

definition ascii_lower :: "char \<Rightarrow> char" where
  "ascii_lower c = (let n = of_char c :: nat in if 65 \<le> n \<and> n \<le> 90 then char_of (n + 32) else c)"

text \<open>
  What the code relies on of the tables, both documented in \<open>UnicodeData\<close> and
  \<open>CaseFolding\<close>: above U+007F only U+0130 and U+212A lower to ASCII letters (\<open>i\<close> and
  \<open>k\<close>), and only \<open>k\<close> and \<open>s\<close> have non-ASCII case variants (U+212A and U+017F).
\<close>

definition unicode_ok :: "unicode_tables \<Rightarrow> bool" where
  "unicode_ok uc \<longleftrightarrow>
     (\<forall>r. 0x80 \<le> r \<longrightarrow> u_lower uc r < 0x80 \<longrightarrow> u_lower uc r = 0x69 \<or> u_lower uc r = 0x6B)
     \<and> (\<forall>a b. u_fold uc a b \<longrightarrow> a < 0x80 \<longrightarrow> 0x80 \<le> b \<longrightarrow> a \<in> {0x4B, 0x6B, 0x53, 0x73})"

text \<open>The entries of the real tables that reach ASCII letters; used to evaluate examples.\<close>

definition ascii_tables :: unicode_tables where
  "ascii_tables = \<lparr>u_lower = (\<lambda>r. if r = 0x130 then 0x69 else if r = 0x212A then 0x6B else r),
     u_fold = (\<lambda>a b. (a \<in> {0x4B, 0x6B} \<and> b = 0x212A) \<or> (a \<in> {0x53, 0x73} \<and> b = 0x17F))\<rparr>"

lemma unicode_ok_ascii_tables [simp]: "unicode_ok ascii_tables"
  by (auto simp: unicode_ok_def ascii_tables_def)

lemma runes_of_Cons_ascii: "a < 0x80 \<Longrightarrow> runes_of (a # s) = a # runes_of s"
  by (subst runes_of.simps) (simp add: Let_def split: prod.split)

lemma runes_ascii: "list_all is_ascii s \<Longrightarrow> runes s = map of_char s"
  by (induction s) (simp_all add: runes_def runes_of_Cons_ascii is_ascii_def runes_of.simps [of "[]"])

lemma of_char_ascii_lower:
  "(of_char (ascii_lower c) :: nat)
     = (let n = of_char c :: nat in if 65 \<le> n \<and> n \<le> 90 then n + 32 else n)"
  by (simp add: ascii_lower_def Let_def take_bit_nat_eq_self)

lemma EncodeRune_lower_ascii:
  "is_ascii c \<Longrightarrow> EncodeRune (rune_lower uc (of_char c)) = [of_char (ascii_lower c)]"
  by (auto simp: is_ascii_def EncodeRune_def rune_lower_def of_char_ascii_lower Let_def)

lemma ToLower_ascii:
  assumes "list_all is_ascii s"
  shows "ToLower uc s = map ascii_lower s"
proof -
  have "concat (map (EncodeRune \<circ> rune_lower uc) (map of_char s)) = map of_char (map ascii_lower s)"
    using assms by (induction s) (simp_all add: EncodeRune_lower_ascii)
  then have "ToLower uc s = map char_of (map (of_char :: char \<Rightarrow> nat) (map ascii_lower s))"
    by (simp only: ToLower_def runes_ascii [OF assms])
  then show ?thesis by (simp add: comp_def)
qed

lemma ascii_lower_eq_iff:
  assumes "is_ascii a" and "is_ascii b"
  shows "ascii_lower a = ascii_lower b \<longleftrightarrow> rune_fold_eq uc (of_char a) (of_char b)"
proof -
  have "ascii_lower a = ascii_lower b \<longleftrightarrow> (of_char (ascii_lower a) :: nat) = of_char (ascii_lower b)"
    by (simp only: of_char_eq_iff)
  also have "\<dots> \<longleftrightarrow> rune_fold_eq uc (of_char a) (of_char b)"
    using assms
    by (auto simp: of_char_ascii_lower is_ascii_def rune_fold_eq_def Let_def min_def max_def
        simp del: of_char_eq_iff)
  finally show ?thesis .
qed

lemma EqualFold_ascii:
  assumes "list_all is_ascii s" and "list_all is_ascii t"
  shows "EqualFold uc s t \<longleftrightarrow> map ascii_lower s = map ascii_lower t"
proof -
  have "list_all2 (rune_fold_eq uc) (map of_char s) (map of_char t) \<longleftrightarrow> map ascii_lower s = map ascii_lower t"
    using assms
  proof (induction s arbitrary: t)
    case (Cons a s)
    then show ?case by (cases t) (auto simp: ascii_lower_eq_iff [where uc = uc])
  qed auto
  with assms show ?thesis by (simp add: EqualFold_def runes_ascii)
qed

lemma length_ToLower_ascii: "list_all is_ascii s \<Longrightarrow> length (ToLower uc s) = length s"
  by (simp add: ToLower_ascii)

lemma EqualFold_refl [simp]: "EqualFold uc s s"
  by (simp add: EqualFold_def rune_fold_eq_def list_all2_refl)

lemma EqualFold_sym: "EqualFold uc s t = EqualFold uc t s"
proof -
  have "rune_fold_eq uc a b = rune_fold_eq uc b a" for a b
    by (simp add: rune_fold_eq_def min.commute max.commute)
  then have "rune_fold_eq uc = (\<lambda>a b. rune_fold_eq uc b a)" by blast
  then show ?thesis
    unfolding EqualFold_def by (metis list_all2_conv_all_nth)
qed

subsection \<open>Strings with a byte above 0x7F\<close>

lemma DecodeRune_non_ascii:
  assumes "0x80 \<le> a"
  shows "0x80 \<le> fst (DecodeRune (a # s))"
proof -
  obtain lo hi where p: "second_byte_range a = (lo, hi)" by fastforce
  then have lo: "a = 0xE0 \<longrightarrow> lo = 0xA0" "a = 0xF0 \<longrightarrow> lo = 0x90"
    by (auto simp: second_byte_range_def)
  consider "a < 0xC2 \<or> 0xF4 < a" | "0xC2 \<le> a" "a \<le> 0xDF" | "0xE0 \<le> a" "a \<le> 0xEF"
    | "0xF0 \<le> a" "a \<le> 0xF4" by linarith
  then show ?thesis
  proof cases
    case 1
    with assms show ?thesis by (auto simp: p Let_def RuneError_def)
  next
    case 2
    then have "2 * 64 \<le> (a - 0xC0) * 64" by simp
    with 2 show ?thesis by (auto simp: p Let_def RuneError_def split: list.split)
  next
    case 3
    then have "a = 0xE0 \<or> 4096 \<le> (a - 0xE0) * 4096" by auto
    with 3 lo show ?thesis by (auto simp: p Let_def RuneError_def split: list.split)
  next
    case 4
    then have "a = 0xF0 \<or> 262144 \<le> (a - 0xF0) * 262144" by auto
    with 4 lo show ?thesis by (auto simp: p Let_def RuneError_def split: list.split)
  qed
qed

lemma runes_of_ascii_iff: "(\<forall>r \<in> set (runes_of s). r < 0x80) \<longleftrightarrow> (\<forall>a \<in> set s. a < 0x80)"
proof (induction s rule: runes_of.induct)
  case (1 s)
  show ?case
  proof (cases s)
    case Nil
    then show ?thesis by (simp add: runes_of.simps)
  next
    case (Cons a t)
    show ?thesis
    proof (cases "a < 0x80")
      case True
      then have "DecodeRune s = (a, 1)" by (simp add: Cons Let_def split: prod.split)
      with 1 Cons show ?thesis by (simp add: runes_of_Cons_ascii True)
    next
      case False
      with DecodeRune_non_ascii [of a t] have "\<not> fst (DecodeRune s) < 0x80" by (simp add: Cons)
      with False Cons show ?thesis by (subst runes_of.simps) auto
    qed
  qed
qed

lemma runes_ascii_iff: "(\<forall>r \<in> set (runes s). r < 0x80) \<longleftrightarrow> list_all is_ascii s"
  by (simp add: runes_def runes_of_ascii_iff list_all_iff is_ascii_def)

lemma EncodeRune_non_ascii: "0x80 \<le> r \<Longrightarrow> b \<in> set (EncodeRune r) \<Longrightarrow> 0x80 \<le> b \<and> b < 256"
proof -
  assume "0x80 \<le> r" and b: "b \<in> set (EncodeRune r)"
  define q where "q = (if (0xD800 \<le> r \<and> r \<le> 0xDFFF) \<or> 0x10FFFF < r then RuneError else r)"
  then have "0x80 \<le> q" "q \<le> 0x10FFFF" using \<open>0x80 \<le> r\<close> by (auto simp: RuneError_def)
  then have d: "q < 0x800 \<Longrightarrow> q div 64 < 32" "q < 0x10000 \<Longrightarrow> q div 4096 < 16" "q div 262144 < 5"
    by (simp_all add: less_mult_imp_div_less)
  have m: "q mod 64 < 64" "q div 64 mod 64 < 64" "q div 4096 mod 64 < 64" by simp_all
  have e: "EncodeRune r = (if q < 0x80 then [q] else if q < 0x800 then [0xC0 + q div 64, 0x80 + q mod 64]
      else if q < 0x10000 then [0xE0 + q div 4096, 0x80 + q div 64 mod 64, 0x80 + q mod 64]
      else [0xF0 + q div 262144, 0x80 + q div 4096 mod 64, 0x80 + q div 64 mod 64, 0x80 + q mod 64])"
    by (simp only: EncodeRune_def q_def [symmetric] Let_def)
  consider "q < 0x800" | "0x800 \<le> q" "q < 0x10000" | "0x10000 \<le> q" by linarith
  then show ?thesis
  proof cases
    case 1
    with b d(1) m \<open>0x80 \<le> q\<close> show ?thesis by (auto simp: e)
  next
    case 2
    with b d(2) m \<open>0x80 \<le> q\<close> show ?thesis by (auto simp: e)
  next
    case 3
    with b d(3) m \<open>0x80 \<le> q\<close> show ?thesis by (auto simp: e)
  qed
qed

lemma EncodeRune_nonempty: "EncodeRune r \<noteq> []"
  by (simp add: EncodeRune_def Let_def)

text \<open>Lowering a string with a non-ASCII byte leaves a trace: a non-ASCII byte, an \<open>i\<close> or a \<open>k\<close>.\<close>

lemma ToLower_non_ascii:
  assumes "unicode_ok uc" and "\<not> list_all is_ascii s"
  shows "\<exists>c \<in> set (ToLower uc s). \<not> is_ascii c \<or> c = CHR ''i'' \<or> c = CHR ''k''"
proof -
  from assms(2) runes_ascii_iff [of s] obtain r where r: "r \<in> set (runes s)" "0x80 \<le> r"
    by (meson not_le)
  define q where "q = rune_lower uc r"
  from r(2) have q: "q = u_lower uc r" by (simp add: q_def rune_lower_def)
  obtain b where b: "b \<in> set (EncodeRune q)" using EncodeRune_nonempty [of q] by fastforce
  with r(1) have mem: "char_of b \<in> set (ToLower uc s)" by (auto simp: ToLower_def q_def)
  show ?thesis
  proof (cases "q < 0x80")
    case True
    then have "q = 0x69 \<or> q = 0x6B" using assms(1) r(2) q by (auto simp: unicode_ok_def)
    with b have "char_of b = CHR ''i'' \<or> char_of b = CHR ''k''"
      by (auto simp: EncodeRune_def char_of_eq_iff)
    with mem show ?thesis by blast
  next
    case False
    with EncodeRune_non_ascii [of q b] b have "0x80 \<le> b" "b < 256" by auto
    then have "\<not> is_ascii (char_of b)" by (simp add: is_ascii_def)
    with mem show ?thesis by blast
  qed
qed

text \<open>A string that folds to an ASCII string without \<open>k\<close> and \<open>s\<close> is ASCII itself.\<close>

lemma EqualFold_ascii_right:
  assumes "unicode_ok uc" and "EqualFold uc s t" and "list_all is_ascii t"
    and "set t \<inter> set ''kKsS'' = {}"
  shows "list_all is_ascii s"
proof -
  have "r < 0x80" if "r \<in> set (runes s)" for r
  proof (rule ccontr)
    assume "\<not> r < 0x80"
    from that obtain i where i: "i < length (runes s)" "r = runes s ! i"
      by (auto simp: in_set_conv_nth)
    with assms(2) have "rune_fold_eq uc r (of_char (t ! i))" "i < length t"
      by (auto simp: EqualFold_def runes_ascii [OF assms(3)] list_all2_conv_all_nth)
    then obtain c where c: "c \<in> set t" "rune_fold_eq uc r (of_char c)" by force
    from c(1) assms(3) have "(of_char c :: nat) < 0x80" by (auto simp: list_all_iff is_ascii_def)
    with c(2) \<open>\<not> r < 0x80\<close> have "u_fold uc (of_char c) r"
      by (auto simp: rune_fold_eq_def min_def max_def Let_def split: if_splits)
    with assms(1) \<open>(of_char c :: nat) < 0x80\<close> \<open>\<not> r < 0x80\<close>
    have "(of_char c :: nat) \<in> {0x4B, 0x6B, 0x53, 0x73}"
      unfolding unicode_ok_def by (meson not_less)
    then have "(of_char c :: nat) \<in> of_char ` set ''kKsS''" by auto
    then have "c \<in> set ''kKsS''" by (simp only: image_iff of_char_eq_iff) blast
    with c(1) assms(4) show False by blast
  qed
  then show ?thesis using runes_ascii_iff by blast
qed

text \<open>Lowering twice changes nothing, and a lowered ASCII string has no capital letter.\<close>

lemma is_ascii_ascii_lower [simp]: "is_ascii c \<Longrightarrow> is_ascii (ascii_lower c)"
  by (simp add: is_ascii_def of_char_ascii_lower Let_def)

lemma ascii_lower_idem [simp]: "ascii_lower (ascii_lower c) = ascii_lower c"
proof -
  have "(of_char (ascii_lower (ascii_lower c)) :: nat) = of_char (ascii_lower c)"
    by (simp add: of_char_ascii_lower Let_def del: of_char_eq_iff)
  then show ?thesis by (simp only: of_char_eq_iff)
qed

lemma ascii_lower_comp [simp]: "ascii_lower \<circ> ascii_lower = ascii_lower"
  by (simp add: fun_eq_iff)

lemma list_all_ascii_lower:
  "list_all is_ascii s \<Longrightarrow> list_all is_ascii (map ascii_lower s)"
  by (simp add: list_all_iff)

section \<open>encoding/hex\<close>

definition hex_value :: "char \<Rightarrow> nat option" where
  "hex_value c =
     (let n = of_char c in
      if 48 \<le> n \<and> n \<le> 57 then Some (n - 48)
      else if 97 \<le> n \<and> n \<le> 102 then Some (n - 87)
      else if 65 \<le> n \<and> n \<le> 70 then Some (n - 55)
      else None)"

definition hex_digit :: "nat \<Rightarrow> char" where
  "hex_digit v = ''0123456789abcdef'' ! v"

text \<open>
  \<open>hex.DecodeString\<close>, as far as its callers look at it: the bytes, or \<open>None\<close> where it
  returns an error (a byte that is no hex digit, or an odd length).
\<close>

fun hex_DecodeString :: "string \<Rightarrow> bytes option" where
  "hex_DecodeString [] = Some []"
| "hex_DecodeString [c] = None"
| "hex_DecodeString (c # d # s) =
     (case (hex_value c, hex_value d, hex_DecodeString s) of
        (Some h, Some l, Some bs) \<Rightarrow> Some (word_of_nat (16 * h + l) # bs)
      | _ \<Rightarrow> None)"

definition hex_EncodeToString :: "bytes \<Rightarrow> string" where
  "hex_EncodeToString bs = concat (map (\<lambda>b. [hex_digit (unat b div 16), hex_digit (unat b mod 16)]) bs)"

lemma length_hex_EncodeToString [simp]: "length (hex_EncodeToString bs) = 2 * length bs"
  by (induction bs) (simp_all add: hex_EncodeToString_def)

lemma hex_EncodeToString_Cons:
  "hex_EncodeToString (b # bs)
     = hex_digit (unat b div 16) # hex_digit (unat b mod 16) # hex_EncodeToString bs"
  by (simp add: hex_EncodeToString_def)

lemma hex_value_less: "hex_value c = Some v \<Longrightarrow> v < 16"
  by (auto simp: hex_value_def Let_def split: if_splits)

lemma nat_less_16_cases:
  assumes "v < (16 :: nat)"
  obtains "v = 0" | "v = 1" | "v = 2" | "v = 3" | "v = 4" | "v = 5" | "v = 6" | "v = 7"
    | "v = 8" | "v = 9" | "v = 10" | "v = 11" | "v = 12" | "v = 13" | "v = 14" | "v = 15"
proof -
  from assms have "v \<in> {0..<16}" by simp
  also have "{0..<16} = {0, 1, 2, 3, 4, 5, 6, 7, 8, 9, 10, 11, 12, 13, 14, 15 :: nat}"
    by (simp add: atLeast0_lessThan_Suc numeral_eq_Suc insert_commute)
  finally show ?thesis using that by simp blast
qed

lemma hex_digit_in_alphabet: "v < 16 \<Longrightarrow> hex_digit v \<in> set ''0123456789abcdef''"
  by (erule nat_less_16_cases) (simp_all add: hex_digit_def)

lemma hex_value_digit [simp]: "v < 16 \<Longrightarrow> hex_value (hex_digit v) = Some v"
  by (erule nat_less_16_cases) (simp_all add: hex_value_def hex_digit_def)

lemma hex_digit_value: "hex_value c = Some v \<Longrightarrow> hex_digit v = ascii_lower c"
proof -
  assume v: "hex_value c = Some v"
  have "(of_char (hex_digit v) :: nat) = (if v < 10 then v + 48 else v + 87)"
    using hex_value_less [OF v] by (elim nat_less_16_cases) (simp_all add: hex_digit_def)
  also have "\<dots> = of_char (ascii_lower c)"
    using v by (auto simp: hex_value_def of_char_ascii_lower Let_def split: if_splits)
  finally show ?thesis by (simp only: of_char_eq_iff)
qed

text \<open>Decoding then encoding lower-cases; encoding then decoding is the identity.\<close>

lemma hex_encode_decode:
  "hex_DecodeString s = Some bs \<Longrightarrow> hex_EncodeToString bs = map ascii_lower s"
proof (induction s arbitrary: bs rule: hex_DecodeString.induct)
  case (3 c d s)
  then obtain h l bs' where v: "hex_value c = Some h" "hex_value d = Some l"
    and "hex_DecodeString s = Some bs'" and bs: "bs = word_of_nat (16 * h + l) # bs'"
    by (auto split: option.splits)
  with "3.IH" have IH: "hex_EncodeToString bs' = map ascii_lower s" by simp
  from v have "h < 16" "l < 16" by (auto dest: hex_value_less)
  then have "unat (word_of_nat (16 * h + l) :: byte) = 16 * h + l"
    by (simp add: unat_of_nat take_bit_nat_eq_self del: of_nat_add of_nat_mult)
  with \<open>l < 16\<close> show ?case
    by (simp add: bs hex_EncodeToString_Cons IH hex_digit_value [OF v(1)] hex_digit_value [OF v(2)])
qed (simp_all add: hex_EncodeToString_def)

lemma hex_decode_encode [simp]: "hex_DecodeString (hex_EncodeToString bs) = Some bs"
proof (induction bs)
  case (Cons b bs)
  have "unat b < 256" using unsigned_less [of b] by simp
  then have "unat b div 16 < 16" by (simp add: less_mult_imp_div_less)
  then show ?case by (simp add: hex_EncodeToString_Cons Cons)
qed (simp add: hex_EncodeToString_def)

lemma length_hex_DecodeString: "hex_DecodeString s = Some bs \<Longrightarrow> length s = 2 * length bs"
  by (metis hex_encode_decode length_hex_EncodeToString length_map)

lemma set_hex_EncodeToString: "c \<in> set (hex_EncodeToString bs) \<Longrightarrow> c \<in> set ''0123456789abcdef''"
proof (induction bs)
  case (Cons b bs)
  have "unat b < 256" using unsigned_less [of b] by simp
  then have "unat b div 16 < 16" "unat b mod 16 < 16" by (simp_all add: less_mult_imp_div_less)
  note digits = this [THEN hex_digit_in_alphabet]
  from Cons.prems consider "c = hex_digit (unat b div 16)" | "c = hex_digit (unat b mod 16)"
    | "c \<in> set (hex_EncodeToString bs)"
    by (auto simp: hex_EncodeToString_Cons)
  then show ?case by cases (use digits Cons.IH in \<open>simp_all only:\<close>)
qed (simp add: hex_EncodeToString_def)

lemmas [go_eval] =
  HasPrefix_def HasSuffix_def LastIndexByte_def TrimLeft_def TrimRight_def
  ReplaceAll_def cmp_Or_def is_ascii_def ascii_lower_def ToLower_ascii
  EqualFold_ascii hex_value_def hex_digit_def hex_EncodeToString_def go_slice_def

end
