(* ===== verification/Metrics.thy ===== *)
theory Metrics
  imports Prelude
begin

text \<open>
  Package \<open>metrics\<close>: the collectors as counters of one record. Gauges and counters are
  integers (the code's \<open>float64\<close> holds them exactly below \<open>2 ^ 53\<close>); a labelled collector
  is a function of its labels; of a histogram only the number of observations is kept.
  The registry of the Prometheus client is a parameter (\<open>prom_lib\<close>): what the package registers
  in it, under which names, labels and bucket bounds, and what it publishes at start, is modelled.
\<close>

definition ResultHit :: string where
  "ResultHit = ''hit''"

definition ResultMiss :: string where
  "ResultMiss = ''miss''"

definition ResultOK :: string where
  "ResultOK = ''ok''"

definition ResultNotFound :: string where
  "ResultNotFound = ''not_found''"

definition ResultError :: string where
  "ResultError = ''error''"

definition labelStatus :: string where
  "labelStatus = ''status''"

definition labelForm :: string where
  "labelForm = ''form''"

definition labelRole :: string where
  "labelRole = ''role''"

definition labelResult :: string where
  "labelResult = ''result''"

record metrics =
  RequestsTotal :: "string \<times> string \<Rightarrow> int"         \<comment> \<open>status, form\<close>
  RequestDuration :: "string \<Rightarrow> int"                  \<comment> \<open>form\<close>
  RequestsInFlight :: int
  CacheLookups :: "string \<times> string \<Rightarrow> int"          \<comment> \<open>role, result\<close>
  CacheSizeBytes :: int
  CacheEntries :: int
  CacheEvictedTotal :: int
  CacheEvictionDuration :: int
  CacheLastEvictionTimestamp :: int
  StorageBytesDownloaded :: int
  StorageFetchDuration :: int
  StorageErrorsTotal :: int
  ResolverRequests :: "string \<Rightarrow> int"                 \<comment> \<open>result\<close>
  ResolverDuration :: int
  SingleflightCoalescedTotal :: int
  CABSynthDuration :: int
  CABSynthBytesTotal :: int
  BuildInfo :: "(string \<times> string \<times> string) \<rightharpoonup> int"     \<comment> \<open>version, revision, goversion; no series until set\<close>

text \<open>The collectors as the package's variables are initialised.\<close>

definition zero_metrics :: metrics where
  "zero_metrics = \<lparr>RequestsTotal = (\<lambda>_. 0), RequestDuration = (\<lambda>_. 0), RequestsInFlight = 0, CacheLookups = (\<lambda>_. 0),
     CacheSizeBytes = 0, CacheEntries = 0, CacheEvictedTotal = 0, CacheEvictionDuration = 0,
     CacheLastEvictionTimestamp = 0, StorageBytesDownloaded = 0, StorageFetchDuration = 0, StorageErrorsTotal = 0,
     ResolverRequests = (\<lambda>_. 0), ResolverDuration = 0, SingleflightCoalescedTotal = 0, CABSynthDuration = 0,
     CABSynthBytesTotal = 0, BuildInfo = Map.empty\<rparr>"

text \<open>The \<open>Inc\<close>, \<open>Add\<close> and \<open>Observe\<close> calls of the packages, one per collector.\<close>

definition inc :: "('l \<Rightarrow> int) \<Rightarrow> 'l \<Rightarrow> 'l \<Rightarrow> int" where
  "inc f l = f(l := f l + 1)"

definition met_lookup :: "string \<Rightarrow> string \<Rightarrow> metrics \<Rightarrow> metrics" where
  "met_lookup role res m = m\<lparr>CacheLookups := inc (CacheLookups m) (role, res)\<rparr>"

definition met_resolver :: "string \<Rightarrow> metrics \<Rightarrow> metrics" where
  "met_resolver res m = m\<lparr>ResolverRequests := inc (ResolverRequests m) res\<rparr>"

definition met_resolver_seconds :: "metrics \<Rightarrow> metrics" where
  "met_resolver_seconds m = m\<lparr>ResolverDuration := ResolverDuration m + 1\<rparr>"

definition met_storage_error :: "metrics \<Rightarrow> metrics" where
  "met_storage_error m = m\<lparr>StorageErrorsTotal := StorageErrorsTotal m + 1\<rparr>"

definition met_fetched :: "int \<Rightarrow> metrics \<Rightarrow> metrics" where
  "met_fetched n m = m\<lparr>StorageFetchDuration := StorageFetchDuration m + 1,
     StorageBytesDownloaded := StorageBytesDownloaded m + n\<rparr>"

definition met_coalesced :: "metrics \<Rightarrow> metrics" where
  "met_coalesced m = m\<lparr>SingleflightCoalescedTotal := SingleflightCoalescedTotal m + 1\<rparr>"

definition met_synth :: "int \<Rightarrow> metrics \<Rightarrow> metrics" where
  "met_synth n m = m\<lparr>CABSynthDuration := CABSynthDuration m + 1,
     CABSynthBytesTotal := CABSynthBytesTotal m + n\<rparr>"

definition met_committed :: "int \<Rightarrow> bool \<Rightarrow> metrics \<Rightarrow> metrics" where
  "met_committed delta existed m =
     (let m1 = m\<lparr>CacheSizeBytes := CacheSizeBytes m + delta\<rparr> in
      if \<not> existed then m1\<lparr>CacheEntries := CacheEntries m1 + 1\<rparr> else m1)"

definition met_evicted :: "int \<Rightarrow> int \<Rightarrow> int \<Rightarrow> metrics \<Rightarrow> metrics" where
  "met_evicted removedBytes removedEntries now m = m\<lparr>
     CacheSizeBytes := CacheSizeBytes m - removedBytes,
     CacheEntries := CacheEntries m - removedEntries,
     CacheEvictedTotal := CacheEvictedTotal m + removedEntries,
     CacheEvictionDuration := CacheEvictionDuration m + 1,
     CacheLastEvictionTimestamp := now\<rparr>"

definition met_seed :: "int \<Rightarrow> int \<Rightarrow> metrics \<Rightarrow> metrics" where
  "met_seed sz entries m = m\<lparr>CacheSizeBytes := sz, CacheEntries := entries\<rparr>"

definition met_request :: "string \<Rightarrow> string \<Rightarrow> metrics \<Rightarrow> metrics" where
  "met_request status form m = m\<lparr>RequestDuration := inc (RequestDuration m) form,
     RequestsTotal := inc (RequestsTotal m) (status, form)\<rparr>"

lemmas met_defs = met_lookup_def met_resolver_def met_resolver_seconds_def met_storage_error_def
  met_fetched_def met_coalesced_def met_synth_def met_committed_def met_evicted_def met_seed_def met_request_def

section \<open>Build metadata\<close>

text \<open>\<open>debug.ReadBuildInfo\<close> gives \<open>None\<close> for its \<open>false\<close>, else the main module's version and the settings.\<close>

record BuildMetadata =
  Version :: string
  Revision :: string
  GoVersion :: string

definition ReadBuild :: "string \<Rightarrow> (string \<times> (string \<times> string) list) option \<Rightarrow> BuildMetadata" where
  "ReadBuild goVersion buildInfo =
     (let unknown = ''unknown'';
          b = \<lparr>Version = unknown, Revision = unknown, GoVersion = goVersion\<rparr>
      in case buildInfo of
           None \<Rightarrow> b
         | Some (mainVersion, settings) \<Rightarrow>
             (let b1 = (if mainVersion \<noteq> '''' then b\<lparr>Version := mainVersion\<rparr> else b)
              in foldl (\<lambda>b (key, val). if key = ''vcs.revision'' then b\<lparr>Revision := val\<rparr> else b) b1 settings))"

text \<open>The gauges of the cache, and what leaves them alone.\<close>

definition gauges :: "metrics \<Rightarrow> int \<times> int" where
  "gauges m = (CacheSizeBytes m, CacheEntries m)"

lemma gauges_simps [simp]:
  "gauges (met_lookup r x m) = gauges m" "gauges (met_resolver x m) = gauges m"
  "gauges (met_resolver_seconds m) = gauges m" "gauges (met_storage_error m) = gauges m"
  "gauges (met_fetched n m) = gauges m" "gauges (met_coalesced m) = gauges m"
  "gauges (met_synth n m) = gauges m" "gauges (met_request st f m) = gauges m"
  by (simp_all add: gauges_def met_defs)

section \<open>Registration\<close>

text \<open>
  What the options of a collector say: bucket bounds in milliseconds (the code has seconds), and
  the names of its labels. \<open>pm_DefBuckets\<close> is the client's \<open>DefBuckets\<close>.
\<close>

datatype collector_kind = Counter | Gauge | Histogram "int list"

record collector_opts =
  co_kind :: collector_kind
  co_Namespace :: string
  co_Name :: string
  co_Help :: string
  co_labels :: "string list"

datatype collector = GoCollector | ProcessCollector | Own collector_opts

record 'reg prom_lib =
  pm_DefBuckets :: "int list"
  pm_NewRegistry :: 'reg
  pm_Register :: "'reg \<Rightarrow> collector \<Rightarrow> 'reg result"

definition namespace :: string where
  "namespace = ''debugsymd''"

definition collector_vec :: "collector_kind \<Rightarrow> string \<Rightarrow> string \<Rightarrow> string list \<Rightarrow> collector_opts" where
  "collector_vec kind name help labels =
     \<lparr>co_kind = kind, co_Namespace = namespace, co_Name = name, co_Help = help, co_labels = labels\<rparr>"

definition own_collectors :: "int list \<Rightarrow> collector_opts list" where
  "own_collectors defBuckets =
     [collector_vec Counter ''requests_total'' ''Symbol requests handled, by HTTP status and symbol form.''
        [labelStatus, labelForm],
      collector_vec (Histogram [5, 10, 25, 50, 100, 250, 500, 1000, 2500, 5000, 10000, 30000])
        ''request_duration_seconds'' ''Symbol request serve time in seconds, by symbol form.'' [labelForm],
      collector_vec Gauge ''requests_in_flight'' ''Symbol requests currently being served.'' [],
      collector_vec Counter ''cache_lookups_total'' ''Disk-cache lookups, by role and result (hit/miss).''
        [labelRole, labelResult],
      collector_vec Gauge ''cache_size_bytes'' ''Total bytes of committed cache entries on disk.'' [],
      collector_vec Gauge ''cache_entries'' ''Number of committed cache entries on disk.'' [],
      collector_vec Counter ''cache_evicted_total'' ''Cache entries removed by the eviction sweeper.'' [],
      collector_vec (Histogram [10, 50, 100, 250, 500, 1000, 2500, 5000, 10000, 30000, 60000])
        ''cache_eviction_duration_seconds'' ''Eviction sweep duration in seconds.'' [],
      collector_vec Gauge ''cache_last_eviction_timestamp_seconds'' ''Unix timestamp of the last completed eviction sweep.'' [],
      collector_vec Counter ''storage_bytes_downloaded_total'' ''Bytes streamed from the blob store.'' [],
      collector_vec (Histogram [50, 100, 250, 500, 1000, 2500, 5000, 10000, 30000, 60000, 120000])
        ''storage_fetch_duration_seconds'' ''Blob-store fetch latency in seconds.'' [],
      collector_vec Counter ''storage_errors_total'' ''Blob-store fetch failures, excluding key-not-found.'' [],
      collector_vec Counter ''resolver_requests_total'' ''Resolver lookups, by result (ok/not_found/error).'' [labelResult],
      collector_vec (Histogram defBuckets) ''resolver_duration_seconds'' ''Resolver lookup latency in seconds.'' [],
      collector_vec Counter ''singleflight_coalesced_total'' ''Requests served by a shared in-flight download or synthesis.'' [],
      collector_vec (Histogram [10, 50, 100, 250, 500, 1000, 2500, 5000, 10000, 30000])
        ''cab_synth_duration_seconds'' ''CAB synthesis time in seconds.'' [],
      collector_vec Counter ''cab_synth_bytes_total'' ''Uncompressed bytes fed into CAB synthesis.'' [],
      collector_vec Gauge ''build_info'' ''Build information; the value is always 1.'' [''version'', ''revision'', ''goversion'']]"

text \<open>\<open>MustRegister\<close> registers one collector after the other and panics at the first that is refused (\<open>Inl\<close>).\<close>

primrec MustRegister :: "'reg prom_lib \<Rightarrow> 'reg \<Rightarrow> collector list \<Rightarrow> 'reg result" where
  "MustRegister pm r [] = Inr r"
| "MustRegister pm r (c # cs) = (case pm_Register pm r c of Inl e \<Rightarrow> Inl e | Inr r' \<Rightarrow> MustRegister pm r' cs)"

definition setBuildInfo :: "string \<Rightarrow> (string \<times> (string \<times> string) list) option \<Rightarrow> metrics \<Rightarrow> metrics" where
  "setBuildInfo goVersion buildInfo m =
     (let b = ReadBuild goVersion buildInfo
      in m\<lparr>BuildInfo := (BuildInfo m)((Version b, Revision b, GoVersion b) \<mapsto> 1)\<rparr>)"

definition newRegistry :: "'reg prom_lib \<Rightarrow> string \<Rightarrow> (string \<times> (string \<times> string) list) option
    \<Rightarrow> metrics \<Rightarrow> 'reg result \<times> metrics" where
  "newRegistry pm goVersion buildInfo m =
     (case MustRegister pm (pm_NewRegistry pm)
         ([GoCollector, ProcessCollector] @ map Own (own_collectors (pm_DefBuckets pm))) of
        Inl e \<Rightarrow> (Inl e, m)
      | Inr r \<Rightarrow> (Inr r, setBuildInfo goVersion buildInfo m))"

text \<open>
  What the client promises of \<open>Register\<close>: it accepts a collector whose options are valid and none of whose
  metric names is taken (\<open>taken\<close>, a function of the registry; \<open>lib_names\<close> are the names of the two standard
  collectors, which start with \<open>go_\<close> and \<open>process_\<close>).
\<close>

definition fqName :: "collector_opts \<Rightarrow> string" where
  "fqName c = co_Namespace c @ ''_'' @ co_Name c"

definition name_char :: "char \<Rightarrow> bool" where
  "name_char c = (let code = of_char c :: nat in code \<in> {65..90} \<or> code \<in> {97..122} \<or> code = 95)"

definition valid_name :: "string \<Rightarrow> bool" where
  "valid_name n \<longleftrightarrow> n \<noteq> [] \<and> name_char (hd n) \<and> list_all (\<lambda>c. name_char c \<or> of_char c \<in> {48..57::nat}) n"

definition valid_collector :: "collector_opts \<Rightarrow> bool" where
  "valid_collector c \<longleftrightarrow> valid_name (fqName c) \<and> list_all valid_name (co_labels c) \<and> distinct (co_labels c)
     \<and> list_all (\<lambda>l. take 2 l \<noteq> ''__'') (co_labels c)
     \<and> (case co_kind c of Histogram bs \<Rightarrow> sorted_wrt (<) bs \<and> ''le'' \<notin> set (co_labels c) | _ \<Rightarrow> True)"

fun collector_names :: "(collector \<Rightarrow> string set) \<Rightarrow> collector \<Rightarrow> string set" where
  "collector_names lib_names (Own c) = {fqName c}"
| "collector_names lib_names c = lib_names c"

definition registers_fresh :: "'reg prom_lib \<Rightarrow> ('reg \<Rightarrow> string set) \<Rightarrow> (collector \<Rightarrow> string set) \<Rightarrow> bool" where
  "registers_fresh pm taken lib_names \<longleftrightarrow>
     taken (pm_NewRegistry pm) = {}
     \<and> (\<forall>n \<in> lib_names GoCollector. take 3 n = ''go_'')
     \<and> (\<forall>n \<in> lib_names ProcessCollector. take 8 n = ''process_'')
     \<and> sorted_wrt (<) (pm_DefBuckets pm)
     \<and> (\<forall>r c. (case c of Own a \<Rightarrow> valid_collector a | _ \<Rightarrow> True) \<and> collector_names lib_names c \<inter> taken r = {} \<longrightarrow>
          (\<exists>r'. pm_Register pm r c = Inr r' \<and> taken r' = taken r \<union> collector_names lib_names c))"

lemma registers_freshD:
  assumes "registers_fresh pm taken lib_names"
  shows "taken (pm_NewRegistry pm) = {}" and "sorted_wrt (<) (pm_DefBuckets pm)"
    and "n \<in> lib_names GoCollector \<Longrightarrow> take 3 n = ''go_''" and "n \<in> lib_names ProcessCollector \<Longrightarrow> take 8 n = ''process_''"
    and "(case c of Own a \<Rightarrow> valid_collector a | _ \<Rightarrow> True) \<Longrightarrow> collector_names lib_names c \<inter> taken r = {} \<Longrightarrow>
       \<exists>r'. pm_Register pm r c = Inr r' \<and> taken r' = taken r \<union> collector_names lib_names c"
  using assms unfolding registers_fresh_def by blast+

lemma MustRegister_fresh:
  assumes "registers_fresh pm taken lib_names" and "distinct (map fqName cs)" and "list_all valid_collector cs"
    and "fqName ` set cs \<inter> taken r = {}"
  shows "\<exists>r'. MustRegister pm r (map Own cs) = Inr r' \<and> taken r' = taken r \<union> fqName ` set cs"
  using assms(2-4)
proof (induction cs arbitrary: r)
  case (Cons c cs)
  from assms(1) Cons.prems(2,3) obtain r1 where r1: "pm_Register pm r (Own c) = Inr r1" "taken r1 = insert (fqName c) (taken r)"
    using registers_freshD(5) [OF assms(1), of "Own c" r] by auto
  have "fqName ` set cs \<inter> taken r1 = {}" using Cons.prems(1,3) by (auto simp: r1(2))
  from Cons.IH [OF _ _ this] Cons.prems(1,2) r1 show ?case by auto
qed simp

lemma own_collectors_fresh:
  assumes "sorted_wrt (<) bs"
  shows "distinct (map fqName (own_collectors bs))" and "list_all valid_collector (own_collectors bs)"
proof -
  show "distinct (map fqName (own_collectors bs))"
    by (simp add: own_collectors_def collector_vec_def fqName_def namespace_def)
  have v: "valid_collector (collector_vec k n h ls) \<longleftrightarrow>
      valid_name n \<and> list_all valid_name ls \<and> distinct ls \<and> list_all (\<lambda>l. take 2 l \<noteq> ''__'') ls
      \<and> (case k of Histogram b \<Rightarrow> sorted_wrt (<) b \<and> ''le'' \<notin> set ls | _ \<Rightarrow> True)" if "valid_name n" for k n h ls
    using that by (simp add: valid_collector_def collector_vec_def fqName_def namespace_def valid_name_def name_char_def
        cong: collector_kind.case_cong)
  show "list_all valid_collector (own_collectors bs)"
    using assms by (simp add: own_collectors_def v valid_name_def name_char_def labelStatus_def labelForm_def labelRole_def
        labelResult_def)
qed

lemma own_names: "n \<in> fqName ` set (own_collectors bs) \<Longrightarrow> take 10 n = ''debugsymd_''"
  by (auto simp: own_collectors_def collector_vec_def fqName_def namespace_def)

lemma prefixes_differ:
  "take 8 n = ''process_'' \<Longrightarrow> take 3 n = ''pro''" "take 10 n = ''debugsymd_'' \<Longrightarrow> take 3 n = ''deb''"
  for n :: string
  by (drule arg_cong [where f = "take 3"], simp)+

text \<open>The package initialises: no collector is refused, so registration does not panic; every metric of the package
  is exposed under a name of its own, and the only build series is the one of this binary, with value 1.\<close>

lemma newRegistry_registers:
  assumes "registers_fresh pm taken lib_names"
  shows "\<exists>r. newRegistry pm v bi zero_metrics = (Inr r, zero_metrics\<lparr>BuildInfo := [(Version (ReadBuild v bi),
        Revision (ReadBuild v bi), GoVersion (ReadBuild v bi)) \<mapsto> 1]\<rparr>)
      \<and> taken r = lib_names GoCollector \<union> lib_names ProcessCollector \<union> fqName ` set (own_collectors (pm_DefBuckets pm))
      \<and> card (fqName ` set (own_collectors (pm_DefBuckets pm))) = 18"
proof -
  note R = registers_freshD [OF assms]
  let ?own = "own_collectors (pm_DefBuckets pm)"
  note own = own_collectors_fresh [OF R(2)]
  from R(5) [of GoCollector "pm_NewRegistry pm"] R(1) obtain r1 where r1: "pm_Register pm (pm_NewRegistry pm) GoCollector = Inr r1" "taken r1 = lib_names GoCollector"
    by auto
  have lib: "lib_names GoCollector \<inter> lib_names ProcessCollector = {}"
    using R(3,4) prefixes_differ(1) by fastforce
  then have "collector_names lib_names ProcessCollector \<inter> taken r1 = {}" by (auto simp: r1(2))
  with R(5) [of ProcessCollector r1] obtain r2 where r2: "pm_Register pm r1 ProcessCollector = Inr r2"
      "taken r2 = lib_names GoCollector \<union> lib_names ProcessCollector"
    using r1(2) by auto
  have "fqName ` set ?own \<inter> taken r2 = {}"
  proof -
    have "take 3 n = ''deb''" if "n \<in> fqName ` set ?own" for n using own_names [OF that] prefixes_differ(2) by blast
    moreover have "take 3 n = ''go_'' \<or> take 3 n = ''pro''" if "n \<in> taken r2" for n
      using that R(3,4) prefixes_differ(1) unfolding r2(2) by blast
    ultimately show ?thesis by fastforce
  qed
  from MustRegister_fresh [OF assms own this] obtain r where
    "MustRegister pm r2 (map Own ?own) = Inr r" "taken r = taken r2 \<union> fqName ` set ?own" by blast
  moreover have "card (fqName ` set ?own) = 18"
    using distinct_card [OF own(1)] by (simp add: own_collectors_def)
  ultimately show ?thesis
    using r1(1) r2 by (simp add: newRegistry_def setBuildInfo_def Let_def zero_metrics_def)
qed

text \<open>A registry that keeps the list of taken names.\<close>

definition ex_prom :: "string list prom_lib" where
  "ex_prom = \<lparr>pm_DefBuckets = [5, 10], pm_NewRegistry = [],
     pm_Register = (\<lambda>r c. let ns = (case c of GoCollector \<Rightarrow> [''go_info''] | ProcessCollector \<Rightarrow> [''process_open_fds'']
          | Own a \<Rightarrow> [fqName a])
        in if list_ex (\<lambda>n. n \<in> set r) ns then Inl (NewError ''duplicate metrics collector registration attempted'') else Inr (ns @ r))\<rparr>"

definition ex_names :: "collector \<Rightarrow> string set" where
  "ex_names c = (if c = GoCollector then {''go_info''} else {''process_open_fds''})"

lemma ex_prom_fresh: "registers_fresh ex_prom set ex_names"
proof -
  have "\<exists>r'. pm_Register ex_prom r c = Inr r' \<and> set r' = set r \<union> collector_names ex_names c"
    if "collector_names ex_names c \<inter> set r = {}" for r c
    using that by (cases c) (simp_all add: ex_prom_def ex_names_def del: char.inject)
  then show ?thesis by (simp add: registers_fresh_def ex_prom_def ex_names_def)
qed

end
