(* ===== verification/DiskCache.thy ===== *)
theory DiskCache
  imports OsFs GoStrings Metrics
begin

text \<open>
  Package \<open>diskcache\<close>: the content-addressed store on disk. Definitions follow \<open>key.go\<close>,
  \<open>cache.go\<close>, \<open>walk.go\<close>, \<open>size.go\<close> and \<open>eviction.go\<close> call by call, every error path included.

  The state is the file system and the collectors (\<open>world\<close>). SHA-256 is the parameter \<open>sha\<close>.
\<close>

section \<open>State and constants (cache.go, constants.go)\<close>

record cache =
  c_root :: string

record world =
  w_fs :: osfs
  w_met :: metrics

definition tmpSubdir :: string where
  "tmpSubdir = ''tmp''"

definition tmpPattern :: string where
  "tmpPattern = ''staging-''"

section \<open>Keys and paths (key.go)\<close>

definition cache_key :: "(bytes \<Rightarrow> bytes) \<Rightarrow> string \<Rightarrow> string \<Rightarrow> string \<Rightarrow> string" where
  "cache_key sha role debugID inner =
     hex_EncodeToString (sha (bytes_of_string (debugID @ '':'' @ role @ '':'' @ inner)))"

definition cache_path :: "(bytes \<Rightarrow> bytes) \<Rightarrow> cache \<Rightarrow> string \<Rightarrow> string \<Rightarrow> string \<Rightarrow> string" where
  "cache_path sha c role debugID inner =
     (let sum = cache_key sha role debugID inner in
      c_root c @ ''/'' @ role @ ''/'' @ take 2 sum @ ''/'' @ take 2 (drop 2 sum) @ ''/'' @ sum)"

section \<open>Operations (cache.go)\<close>

definition cache_New :: "string \<Rightarrow> osfs \<Rightarrow> cache result \<times> osfs" where
  "cache_New root fs =
     (case os_MkdirAll fs (filepath_Join root tmpSubdir) of
        (Inl e, fs1) \<Rightarrow> (Inl (Wrap ''creating cache staging dir'' e), fs1)
      | (Inr _, fs1) \<Rightarrow> (Inr \<lparr>c_root = root\<rparr>, fs1))"

text \<open>A miss is \<open>Inr None\<close>; the error of \<open>Chtimes\<close> is dropped.\<close>

definition cache_Lookup :: "(bytes \<Rightarrow> bytes) \<Rightarrow> cache \<Rightarrow> string \<Rightarrow> string \<Rightarrow> string \<Rightarrow> osfs
    \<Rightarrow> (osfile \<times> fileinfo) option result \<times> osfs" where
  "cache_Lookup sha c role debugID inner fs =
     (let p = cache_path sha c role debugID inner in
      case os_Open fs p of
        (Inl e, fs1) \<Rightarrow>
          (if errors_is e ErrNotExist then (Inr None, fs1)
           else (Inl (Wrap ''opening cache entry'' e), fs1))
      | (Inr f, fs1) \<Rightarrow>
          (case f_Stat fs1 f of
             (Inl e, fs2) \<Rightarrow> (case f_Close fs2 f of (_, fs3) \<Rightarrow> (Inl (Wrap ''stat cache entry'' e), fs3))
           | (Inr fi, fs2) \<Rightarrow>
               (case os_Chtimes fs2 p (time_Now fs2) of (_, fs3) \<Rightarrow> (Inr (Some (f, fi)), fs3))))"

definition NewTemp :: "cache \<Rightarrow> osfs \<Rightarrow> osfile result \<times> osfs" where
  "NewTemp c fs =
     (case os_CreateTemp fs (filepath_Join (c_root c) tmpSubdir) tmpPattern of
        (Inl e, fs1) \<Rightarrow> (Inl (Wrap ''creating staging file'' e), fs1)
      | (Inr f, fs1) \<Rightarrow> (Inr f, fs1))"

definition Probe :: "cache \<Rightarrow> osfs \<Rightarrow> goerr option \<times> osfs" where
  "Probe c fs =
     (case NewTemp c fs of
        (Inl e, fs1) \<Rightarrow> (Some e, fs1)
      | (Inr f, fs1) \<Rightarrow>
        (case f_Close fs1 f of
           (Inl e, fs2) \<Rightarrow> (case os_Remove fs2 (f_Name f) of (_, fs3) \<Rightarrow> (Some (Wrap ''closing probe file'' e), fs3))
         | (Inr _, fs2) \<Rightarrow>
           (case os_Remove fs2 (f_Name f) of
              (Inl e, fs3) \<Rightarrow> (Some (Wrap ''removing probe file'' e), fs3)
            | (Inr _, fs3) \<Rightarrow> (None, fs3))))"

definition Commit :: "(bytes \<Rightarrow> bytes) \<Rightarrow> cache \<Rightarrow> osfile \<Rightarrow> string \<Rightarrow> string \<Rightarrow> string \<Rightarrow> world
    \<Rightarrow> goerr option \<times> world" where
  "Commit sha c tmp role debugID inner w =
     (let fs = w_fs w in
      case f_Sync fs tmp of
        (Inl e, fs1) \<Rightarrow> (Some (Wrap ''fsyncing staging file'' e), w\<lparr>w_fs := fs1\<rparr>)
      | (Inr _, fs1) \<Rightarrow>
      (case f_Stat fs1 tmp of
        (Inl e, fs2) \<Rightarrow> (Some (Wrap ''stat staging file'' e), w\<lparr>w_fs := fs2\<rparr>)
      | (Inr info, fs2) \<Rightarrow>
      (case f_Close fs2 tmp of
        (Inl e, fs3) \<Rightarrow> (Some (Wrap ''closing staging file'' e), w\<lparr>w_fs := fs3\<rparr>)
      | (Inr _, fs3) \<Rightarrow>
      (let final = cache_path sha c role debugID inner in
       case os_MkdirAll fs3 (filepath_Dir final) of
        (Inl e, fs4) \<Rightarrow> (Some (Wrap ''creating cache shard dir'' e), w\<lparr>w_fs := fs4\<rparr>)
      | (Inr _, fs4) \<Rightarrow>
      (case os_Stat fs4 final of
        (st, fs5) \<Rightarrow>
        (let oldSize = (case st of Inr fi \<Rightarrow> fi_Size fi | Inl _ \<Rightarrow> 0);
             existed = (case st of Inr _ \<Rightarrow> True | Inl _ \<Rightarrow> False) in
         case os_Rename fs5 (f_Name tmp) final of
           (Inl e, fs6) \<Rightarrow> (Some (Wrap ''committing cache entry'' e), w\<lparr>w_fs := fs6\<rparr>)
         | (Inr _, fs6) \<Rightarrow>
             (None, \<lparr>w_fs = fs6, w_met = met_committed (fi_Size info - oldSize) existed (w_met w)\<rparr>)))))))"

section \<open>Walking (walk.go)\<close>

text \<open>
  \<open>filepath.WalkDir\<close> visits a directory before its entries and those in the order of their
  names, which is the lexicographic order of the paths. Each directory is read after it was
  visited; a failing read, or a root that cannot be examined, is handed to the callback,
  which returns it and ends the walk. A file that cannot be examined is skipped.
  The callbacks are functions of their own state (\<open>'a\<close>) and of the file system.
\<close>

definition walk_order :: "osfs \<Rightarrow> path \<Rightarrow> path list" where
  "walk_order fs root = sort (filter (prefix root) (map fst (fs_nodes fs)))"

definition walk_path :: "string \<Rightarrow> path \<Rightarrow> string" where
  "walk_path root q =
     (if q = segs root then root else filepath_Join root (join_slash (drop (length (segs root)) q)))"

fun walk_list :: "cache \<Rightarrow> (string \<Rightarrow> fileinfo \<Rightarrow> bool \<Rightarrow> 'a \<times> osfs \<Rightarrow> 'a \<times> osfs) \<Rightarrow> (string \<Rightarrow> 'a \<Rightarrow> 'a)
    \<Rightarrow> path list \<Rightarrow> 'a \<times> osfs \<Rightarrow> goerr option \<times> 'a \<times> osfs" where
  "walk_list c fileFn dirFn [] (st, fs) = (None, st, fs)"
| "walk_list c fileFn dirFn (q # qs) (st, fs) =
     (let path = walk_path (c_root c) q; tmpDir = filepath_Join (c_root c) tmpSubdir in
      if node_at fs q = Some DirNode then
        (let st1 = (if path \<noteq> c_root c \<and> path \<noteq> tmpDir then dirFn path st else st) in
         case syscall fs (\<lambda>fs. (Inr (), fs)) of
           (Inl e, fs1) \<Rightarrow> (Some e, st1, fs1)
         | (Inr _, fs1) \<Rightarrow> walk_list c fileFn dirFn qs (st1, fs1))
      else
        (case os_Stat fs path of
           (Inl _, fs1) \<Rightarrow> walk_list c fileFn dirFn qs (st, fs1)
         | (Inr info, fs1) \<Rightarrow>
             walk_list c fileFn dirFn qs (fileFn path info (filepath_Dir path = tmpDir) (st, fs1))))"

definition walkFiles :: "cache \<Rightarrow> (string \<Rightarrow> fileinfo \<Rightarrow> bool \<Rightarrow> 'a \<times> osfs \<Rightarrow> 'a \<times> osfs) \<Rightarrow> (string \<Rightarrow> 'a \<Rightarrow> 'a)
    \<Rightarrow> 'a \<times> osfs \<Rightarrow> goerr option \<times> 'a \<times> osfs" where
  "walkFiles c fileFn dirFn s =
     (case s of (st, fs) \<Rightarrow>
      (case os_Stat fs (c_root c) of
         (Inl e, fs1) \<Rightarrow> (Some (Wrap ''walking cache dir'' e), st, fs1)
       | (Inr _, fs1) \<Rightarrow>
         (case walk_list c fileFn dirFn (walk_order fs1 (segs (c_root c))) (st, fs1) of
            (Some e, st2, fs2) \<Rightarrow> (Some (Wrap ''walking cache dir'' e), st2, fs2)
          | (None, st2, fs2) \<Rightarrow> (None, st2, fs2))))"

section \<open>Size gauges (size.go)\<close>

record cache_size =
  sz_bytes :: int
  sz_entries :: int

definition size_file :: "string \<Rightarrow> fileinfo \<Rightarrow> bool \<Rightarrow> cache_size \<times> osfs \<Rightarrow> cache_size \<times> osfs" where
  "size_file path info inTmp s =
     (case s of (st, fs) \<Rightarrow>
       if inTmp then (st, fs)
       else (\<lparr>sz_bytes = sz_bytes st + fi_Size info, sz_entries = sz_entries st + 1\<rparr>, fs))"

definition computeSize :: "cache \<Rightarrow> osfs \<Rightarrow> goerr option \<times> cache_size \<times> osfs" where
  "computeSize c fs = walkFiles c size_file (\<lambda>_ st. st) (\<lparr>sz_bytes = 0, sz_entries = 0\<rparr>, fs)"

definition SeedMetrics :: "cache \<Rightarrow> world \<Rightarrow> world" where
  "SeedMetrics c w =
     (case computeSize c (w_fs w) of
        (Some _, st, fs1) \<Rightarrow> w\<lparr>w_fs := fs1\<rparr>
      | (None, st, fs1) \<Rightarrow> \<lparr>w_fs = fs1, w_met = met_seed (sz_bytes st) (sz_entries st) (w_met w)\<rparr>)"

section \<open>Eviction (eviction.go)\<close>

record sweep =
  removed :: int
  removedEntries :: int
  removedBytes :: int
  dirs :: "string list"

definition evict_file :: "int \<Rightarrow> string \<Rightarrow> fileinfo \<Rightarrow> bool \<Rightarrow> sweep \<times> osfs \<Rightarrow> sweep \<times> osfs" where
  "evict_file cutoff path info inTmp s =
     (case s of (st, fs) \<Rightarrow>
      if \<not> fi_ModTime info < cutoff then (st, fs)
      else case os_Remove fs path of
          (Inl _, fs1) \<Rightarrow> (st, fs1)
        | (Inr _, fs1) \<Rightarrow>
            (let st1 = st\<lparr>removed := removed st + 1\<rparr> in
             if inTmp then (st1, fs1)
             else (st1\<lparr>removedEntries := removedEntries st1 + 1,
                       removedBytes := removedBytes st1 + fi_Size info\<rparr>, fs1)))"

definition evict_dir :: "string \<Rightarrow> sweep \<Rightarrow> sweep" where
  "evict_dir path st = st\<lparr>dirs := dirs st @ [path]\<rparr>"

definition longer_first :: "string \<Rightarrow> string \<Rightarrow> int" where
  "longer_first a b = int (length b) - int (length a)"

definition pruneEmptyDirs :: "string list \<Rightarrow> osfs \<Rightarrow> osfs" where
  "pruneEmptyDirs ds fs = fold (\<lambda>dir fs. snd (os_Remove fs dir)) (sort_func longer_first ds) fs"

definition Evict :: "cache \<Rightarrow> int \<Rightarrow> world \<Rightarrow> (int \<times> goerr option) \<times> world" where
  "Evict c maxUnused w =
     (let start = time_Now (w_fs w); cutoff = start - maxUnused;
          st0 = \<lparr>removed = 0, removedEntries = 0, removedBytes = 0, dirs = []\<rparr>
      in case walkFiles c (evict_file cutoff) evict_dir (st0, w_fs w) of
           (Some e, st, fs1) \<Rightarrow> ((removed st, Some e), w\<lparr>w_fs := fs1\<rparr>)
         | (None, st, fs1) \<Rightarrow>
             (let fs2 = pruneEmptyDirs (dirs st) fs1 in
              ((removed st, None),
               \<lparr>w_fs = fs2, w_met = met_evicted (removedBytes st) (removedEntries st) (time_Now fs2) (w_met w)\<rparr>)))"

text \<open>
  One turn of \<open>RunEviction\<close>'s loop: \<open>None\<close> when the context is cancelled, else the world after
  a sweep; the loop goes on whether or not the sweep failed.
\<close>

datatype evict_event = CtxDone | Tick

fun RunEviction :: "cache \<Rightarrow> int \<Rightarrow> evict_event list \<Rightarrow> world \<Rightarrow> world" where
  "RunEviction c maxUnused [] w = w"
| "RunEviction c maxUnused (CtxDone # _) w = w"
| "RunEviction c maxUnused (Tick # evs) w = RunEviction c maxUnused evs (snd (Evict c maxUnused w))"

interpretation longest_first: sort_cmp longer_first
  by unfold_locales (auto simp: longer_first_def)

section \<open>Layout\<close>

abbreviation croot :: "cache \<Rightarrow> path" where
  "croot c \<equiv> segs (c_root c)"

definition root_ok :: "cache \<Rightarrow> bool" where
  "root_ok c \<longleftrightarrow> c_root c = abspath (croot c) \<and> croot c \<noteq> [] \<and> list_all seg_ok (croot c)"

definition role_ok :: "string \<Rightarrow> bool" where
  "role_ok role \<longleftrightarrow> seg_ok role \<and> role \<noteq> tmpSubdir"

definition sha_ok :: "(bytes \<Rightarrow> bytes) \<Rightarrow> bool" where
  "sha_ok sha \<longleftrightarrow> (\<forall>b. length (sha b) = 32)"

definition tmp_path :: "cache \<Rightarrow> path" where
  "tmp_path c = croot c @ [tmpSubdir]"

text \<open>What may lie where below the root: staging files in \<open>tmp\<close>, entries four levels down.\<close>

definition fits :: "path \<Rightarrow> node \<Rightarrow> bool" where
  "fits q n \<longleftrightarrow> list_all seg_ok q \<and>
     (case n of
        FileNode _ \<Rightarrow> (\<exists>x. q = [tmpSubdir, x]) \<or> (length q = 4 \<and> hd q \<noteq> tmpSubdir)
      | DirNode \<Rightarrow> q = [] \<or> q = [tmpSubdir] \<or> (length q \<le> 3 \<and> hd q \<noteq> tmpSubdir))"

definition cache_ok :: "cache \<Rightarrow> osfs \<Rightarrow> bool" where
  "cache_ok c fs \<longleftrightarrow> root_ok c \<and> fs_ok fs \<and> node_at fs (tmp_path c) = Some DirNode
     \<and> (\<forall>q n. node_at fs (croot c @ q) = Some n \<longrightarrow> fits q n)"

definition entry_path :: "(bytes \<Rightarrow> bytes) \<Rightarrow> cache \<Rightarrow> string \<Rightarrow> string \<Rightarrow> string \<Rightarrow> path" where
  "entry_path sha c role ident inner =
     (let s = cache_key sha role ident inner in croot c @ [role, take 2 s, take 2 (drop 2 s), s])"

lemma seg_ok_tmp [simp]: "seg_ok tmpSubdir"
  by (simp add: seg_ok_def tmpSubdir_def)

lemma length_cache_key: "sha_ok sha \<Longrightarrow> length (cache_key sha role ident inner) = 64"
  by (simp add: cache_key_def sha_ok_def)

lemma hex_seg_ok: "x \<noteq> '''' \<Longrightarrow> set x \<subseteq> set (hex_EncodeToString bs) \<Longrightarrow> seg_ok x"
  using set_hex_EncodeToString [of _ bs] by (fastforce simp: seg_ok_def)

lemma entry_segs_ok:
  assumes "sha_ok sha" and "role_ok role"
  shows "list_all seg_ok [role, take 2 (cache_key sha role ident inner),
    take 2 (drop 2 (cache_key sha role ident inner)), cache_key sha role ident inner]"
proof -
  define k where "k = cache_key sha role ident inner"
  have k: "length k = 64" using length_cache_key [OF assms(1)] by (simp add: k_def)
  have ok: "seg_ok x" if "x \<noteq> []" "set x \<subseteq> set k" for x
    using hex_seg_ok [OF that(1)] that(2) by (simp add: k_def cache_key_def)
  have "seg_ok (take 2 k)" by (rule ok) (use k in \<open>auto dest: in_set_takeD\<close>)
  moreover have "seg_ok (take 2 (drop 2 k))"
    by (rule ok) (use k in \<open>auto dest!: in_set_takeD in_set_dropD\<close>)
  moreover have "seg_ok k" by (rule ok) (use k in auto)
  ultimately show ?thesis using assms(2) by (simp add: role_ok_def flip: k_def)
qed

lemma list_all_tl: "list_all P xs \<Longrightarrow> list_all P (tl xs)"
  by (cases xs) simp_all

lemma cache_path_eq:
  assumes "root_ok c" and "sha_ok sha" and "role_ok role"
  shows "cache_path sha c role ident inner = abspath (entry_path sha c role ident inner)"
  using assms(1) by (simp add: cache_path_def entry_path_def Let_def root_ok_def abspath_append) (simp add: abspath_def)

lemma entry_path_ok:
  assumes "root_ok c" and "sha_ok sha" and "role_ok role"
  shows "list_all seg_ok (entry_path sha c role ident inner)"
  using assms entry_segs_ok [OF assms(2,3), of ident inner] by (simp add: entry_path_def Let_def root_ok_def)

lemma segs_cache_path [simp]:
  assumes "root_ok c" and "sha_ok sha" and "role_ok role"
  shows "segs (cache_path sha c role ident inner) = entry_path sha c role ident inner"
  using entry_path_ok [OF assms] by (simp add: cache_path_eq [OF assms])

lemma segs_Dir_cache_path:
  assumes "root_ok c" and "sha_ok sha" and "role_ok role"
  shows "segs (filepath_Dir (cache_path sha c role ident inner)) = butlast (entry_path sha c role ident inner)"
proof -
  let ?p = "entry_path sha c role ident inner"
  have ne: "?p \<noteq> []" "butlast ?p \<noteq> []" by (simp_all add: entry_path_def Let_def butlast_append)
  have "list_all seg_ok (butlast ?p @ [last ?p])" using entry_path_ok [OF assms] ne(1) by simp
  then have "list_all seg_ok (butlast ?p)" "seg_ok (last ?p)" by simp_all
  from filepath_Dir_abspath [OF this ne(2)] segs_abspath [OF this(1)] show ?thesis
    using ne(1) by (simp add: cache_path_eq [OF assms])
qed

lemma tmp_dir_eq: "root_ok c \<Longrightarrow> filepath_Join (c_root c) tmpSubdir = abspath (tmp_path c)"
  unfolding tmp_path_def by (metis filepath_Join_abspath root_ok_def seg_ok_tmp)

lemma tmp_path_ok: "root_ok c \<Longrightarrow> list_all seg_ok (tmp_path c) \<and> tmp_path c \<noteq> []"
  by (simp add: tmp_path_def root_ok_def)

lemma cache_okD:
  assumes "cache_ok c fs"
  shows "root_ok c" and "fs_ok fs" and "node_at fs (tmp_path c) = Some DirNode"
    and "node_at fs (croot c @ q) = Some n \<Longrightarrow> fits q n"
  using assms by (simp_all add: cache_ok_def)

lemma same_store_cache_ok: "same_store fs fs' \<Longrightarrow> cache_ok c fs' = cache_ok c fs"
  by (simp add: cache_ok_def same_storeD)

lemma cache_ok_root_dir: "cache_ok c fs \<Longrightarrow> prefix q (tmp_path c) \<Longrightarrow> node_at fs q = Some DirNode"
  using ancestor_is_dir [OF cache_okD(2), of c fs "tmp_path c" DirNode q] cache_okD(3)
  by (cases "q = tmp_path c") (auto simp: prefix_order.less_le)

text \<open>Two entries of one cache share a path only if their keys collide.\<close>

lemma entry_path_eq_iff:
  "entry_path sha c role ident inner = entry_path sha c role' ident' inner' \<longleftrightarrow>
    role = role' \<and> cache_key sha role ident inner = cache_key sha role' ident' inner'"
  by (auto simp: entry_path_def Let_def)

lemma entry_not_tmp: "role_ok role \<Longrightarrow> entry_path sha c role ident inner \<noteq> tmp_path c @ [x]"
  by (simp add: entry_path_def tmp_path_def Let_def)

section \<open>Lookups\<close>

text \<open>A lookup changes timestamps at most, and what it returns is the entry's content.\<close>

lemma cache_Lookup_effect:
  assumes "cache_Lookup sha c role ident inner fs = (r, fs')"
    and "root_ok c" and "sha_ok sha" and "role_ok role"
  shows "fs_nodes fs' = fs_nodes fs" and "fs_next fs' = fs_next fs" and "same_env fs fs'"
    and "fs_ok fs' = fs_ok fs" and "content_at fs' = content_at fs"
    and "ino_data (fs_inodes fs' i) = ino_data (fs_inodes fs i)"
    and "r = Inr (Some (f, fi)) \<Longrightarrow> node_at fs (entry_path sha c role ident inner) = Some (FileNode (f_ino f))
       \<and> f_pos f = 0 \<and> fi_Size fi = int (length (ino_data (fs_inodes fs (f_ino f))))
       \<and> fi_ModTime fi = ino_mtime (fs_inodes fs (f_ino f))"
    and "r = Inr None \<Longrightarrow> node_at fs (entry_path sha c role ident inner) = None"
proof -
  let ?p = "cache_path sha c role ident inner"
  obtain ro fs1 where o: "os_Open fs ?p = (ro, fs1)" by fastforce
  note s1 = read_only_calls(2) [OF o]
  consider (inl) e where "ro = Inl e" "fs' = fs1" "r = Inr None \<or> (\<exists>e. r = Inl e)"
      "r = Inr None \<longrightarrow> errors_is e ErrNotExist"
    | (stat) f e fs2 where "ro = Inr f" "f_Stat fs1 f = (Inl e, fs2)" "fs' = snd (f_Close fs2 f)" "\<exists>e. r = Inl e"
    | (hit) f fi fs2 where "ro = Inr f" "f_Stat fs1 f = (Inr fi, fs2)" "fs' = snd (os_Chtimes fs2 ?p (time_Now fs2))"
        "r = Inr (Some (f, fi))"
    using assms(1) o by (auto simp: cache_Lookup_def Let_def split: result_splits)
  note cases = this
  have open_ok: "node_at fs (entry_path sha c role ident inner) = Some (FileNode (f_ino f)) \<and> f_pos f = 0"
    if "ro = Inr f" for f
    using o that assms(2-4)
    by (auto simp: os_Open_def elim!: syscall_cases split: option.splits node.splits)
  have open_miss: "node_at fs (entry_path sha c role ident inner) = None"
    if "ro = Inl e" "errors_is e ErrNotExist" for e
    using o that assms(2-4)
    by (auto simp: os_Open_def ErrNotExist_def elim!: syscall_cases split: option.splits node.splits)
  have st: "fs_nodes fs' = fs_nodes fs \<and> fs_next fs' = fs_next fs \<and> same_env fs fs' \<and> fs_ok fs' = fs_ok fs
      \<and> content_at fs' = content_at fs \<and> (\<forall>i. ino_data (fs_inodes fs' i) = ino_data (fs_inodes fs i))"
    using cases
  proof cases
    case inl
    then show ?thesis using same_storeD [OF s1] by simp
  next
    case stat
    obtain rc fs3 where cl: "f_Close fs2 f = (rc, fs3)" by fastforce
    have "same_store fs fs3"
      using s1 read_only_calls(3) [OF stat(2)] read_only_calls(5) [OF cl] same_store_trans by blast
    then show ?thesis using stat(3) cl same_storeD [of fs fs3] by simp
  next
    case hit
    obtain rt fs3 where ct: "os_Chtimes fs2 ?p (time_Now fs2) = (rt, fs3)" by fastforce
    have "same_store fs fs2" using s1 read_only_calls(3) [OF hit(2)] same_store_trans by blast
    note s2 = same_storeD [OF this]
    from os_Chtimes_effect [OF ct] s2 show ?thesis
      using same_env_trans [OF s2(7)] hit(3) ct by simp
  qed
  then show "fs_nodes fs' = fs_nodes fs" "fs_next fs' = fs_next fs" "same_env fs fs'" "fs_ok fs' = fs_ok fs"
    "content_at fs' = content_at fs" "ino_data (fs_inodes fs' i) = ino_data (fs_inodes fs i)" by simp_all
  show "r = Inr None \<Longrightarrow> node_at fs (entry_path sha c role ident inner) = None"
    using cases open_miss by cases auto
  assume r: "r = Inr (Some (f, fi))"
  with cases obtain fs2 where "ro = Inr f" and st: "f_Stat fs1 f = (Inr fi, fs2)" by cases auto
  moreover have "fi = node_info fs (FileNode (f_ino f))"
    using st same_storeD(8) [OF s1] by (auto simp: f_Stat_def node_info_def same_storeD [OF s1] elim!: syscall_cases)
  ultimately show "node_at fs (entry_path sha c role ident inner) = Some (FileNode (f_ino f))
       \<and> f_pos f = 0 \<and> fi_Size fi = int (length (ino_data (fs_inodes fs (f_ino f))))
       \<and> fi_ModTime fi = ino_mtime (fs_inodes fs (f_ino f))"
    using open_ok [of f] by (simp add: node_info_def)
qed

text \<open>Without faults a lookup finds what is there.\<close>

definition fault_free :: "osfs \<Rightarrow> bool" where
  "fault_free fs \<longleftrightarrow> (\<forall>i. fs_fault fs i = None)"

lemma fault_free_env: "same_env fs fs' \<Longrightarrow> fault_free fs' = fault_free fs"
  by (simp add: fault_free_def same_env_def)

lemma cache_Lookup_total:
  assumes "fault_free fs" and "root_ok c" and "sha_ok sha" and "role_ok role"
    and "node_at fs (entry_path sha c role ident inner) \<noteq> Some DirNode"
  shows "fst (cache_Lookup sha c role ident inner fs) =
    (case node_at fs (entry_path sha c role ident inner) of
       Some (FileNode i) \<Rightarrow> Inr (Some (\<lparr>f_Name = cache_path sha c role ident inner, f_ino = i, f_pos = 0\<rparr>,
         node_info fs (FileNode i)))
     | _ \<Rightarrow> Inr None)"
  using assms
  by (auto simp: cache_Lookup_def Let_def os_Open_def f_Stat_def syscall_def fault_free_def ErrNotExist_def
      node_info_def split: option.splits node.splits prod.splits)

section \<open>Staging files\<close>

text \<open>The suffixes \<open>os.CreateTemp\<close> tries are decimal numbers; only that they have no slash matters.\<close>

definition rand_ok :: "osfs \<Rightarrow> bool" where
  "rand_ok fs \<longleftrightarrow> (\<forall>n. \<forall>x \<in> set (fs_rand fs n). CHR ''/'' \<notin> set x)"

definition staged :: "cache \<Rightarrow> osfs \<Rightarrow> osfile \<Rightarrow> bool" where
  "staged c fs f \<longleftrightarrow> (\<exists>x. seg_ok x \<and> f_Name f = abspath (tmp_path c @ [x])
     \<and> node_at fs (tmp_path c @ [x]) = Some (FileNode (f_ino f)))"

lemma rand_ok_env: "same_env fs fs' \<Longrightarrow> rand_ok fs' = rand_ok fs"
  by (simp add: rand_ok_def same_env_def)

lemma staged_cong: "fs_nodes fs' = fs_nodes fs \<Longrightarrow> f_Name f' = f_Name f \<Longrightarrow> f_ino f' = f_ino f
    \<Longrightarrow> staged c fs' f' = staged c fs f"
  by (simp add: staged_def)

lemma segs_tmp_name: "root_ok c \<Longrightarrow> seg_ok x \<Longrightarrow> segs (abspath (tmp_path c @ [x])) = tmp_path c @ [x]"
  using tmp_path_ok [of c] by simp

lemma stagedD:
  assumes "staged c fs f" and "root_ok c"
  obtains x where "seg_ok x" and "segs (f_Name f) = tmp_path c @ [x]"
    and "node_at fs (tmp_path c @ [x]) = Some (FileNode (f_ino f))"
  using assms segs_tmp_name [OF assms(2)] by (auto simp: staged_def)

text \<open>Changes below the root that keep the layout.\<close>

lemma cache_ok_node_at:
  assumes "cache_ok c fs" and "fs_ok fs'"
    and "\<And>q n. node_at fs' q = Some n \<Longrightarrow> node_at fs q = Some n \<or> (\<exists>r. q = croot c @ r \<and> fits r n)
        \<or> (n = DirNode \<and> prefix q (croot c))"
    and "node_at fs' (tmp_path c) = Some DirNode"
  shows "cache_ok c fs'"
  unfolding cache_ok_def
proof (intro conjI allI impI)
  show "root_ok c" "fs_ok fs'" "node_at fs' (tmp_path c) = Some DirNode"
    using assms by (simp_all add: cache_okD)
  fix q n assume n: "node_at fs' (croot c @ q) = Some n"
  from assms(3) [OF n] cache_okD(4) [OF assms(1)] show "fits q n"
    by (auto simp: fits_def)
qed

lemma fits_staging: "seg_ok x \<Longrightarrow> fits [tmpSubdir, x] (FileNode i)"
  by (simp add: fits_def)

lemma NewTemp_effect:
  assumes "NewTemp c fs = (r, fs')" and "cache_ok c fs" and "rand_ok fs"
  shows "cache_ok c fs'" and "same_env fs fs'" and "(\<exists>e. r = Inl e) \<Longrightarrow> same_store fs fs'"
    and "r = Inr f \<Longrightarrow> staged c fs' f \<and> f_pos f = 0 \<and> f_ino f = fs_next fs \<and> node_at fs (segs (f_Name f)) = None
      \<and> node_at fs' = (node_at fs)(segs (f_Name f) := Some (FileNode (f_ino f)))
      \<and> fs_inodes fs' = (fs_inodes fs)(f_ino f := \<lparr>ino_data = [], ino_mtime = time_Now fs\<rparr>)"
proof -
  note root = cache_okD(1) [OF assms(2)]
  obtain rt where c: "os_CreateTemp fs (abspath (tmp_path c)) tmpPattern = (rt, fs')"
    and r: "\<And>f. r = Inr f \<longleftrightarrow> rt = Inr f"
    using assms(1) tmp_dir_eq [OF root]
    by (auto simp: NewTemp_def split: prod.splits sum.splits)
  note eff = os_CreateTemp_effect [OF c cache_okD(2) [OF assms(2)]]
  show "same_env fs fs'" by (rule eff(2))
  show same: "same_store fs fs'" if "\<exists>e. r = Inl e"
    using eff(1) r that by (cases rt) auto
  have new: "\<exists>x. seg_ok x \<and> f_Name f = abspath (tmp_path c @ [x]) \<and> node_at fs (tmp_path c @ [x]) = None
      \<and> f_ino f = fs_next fs \<and> f_pos f = 0 \<and> node_at fs' = (node_at fs)(tmp_path c @ [x] := Some (FileNode (f_ino f)))
      \<and> fs_inodes fs' = (fs_inodes fs)(f_ino f := \<lparr>ino_data = [], ino_mtime = time_Now fs\<rparr>) \<and> fs_ok fs'"
    if "r = Inr f" for f
  proof -
    from that r have "rt = Inr f" by simp
    from eff(3) [OF this] obtain x where x: "x \<in> set (fs_rand fs (fs_ops fs))"
      and nm: "f_Name f = filepath_Join (abspath (tmp_path c)) (tmpPattern @ x)"
      and rest: "node_at fs (segs (f_Name f)) = None" "f_ino f = fs_next fs" "f_pos f = 0"
        "node_at fs' = (node_at fs)(segs (f_Name f) := Some (FileNode (f_ino f)))"
        "fs_inodes fs' = (fs_inodes fs)(f_ino f := \<lparr>ino_data = [], ino_mtime = time_Now fs\<rparr>)"
        "node_at fs (butlast (segs (f_Name f))) = Some DirNode \<longrightarrow> fs_ok fs'"
      by blast
    have ok: "seg_ok (tmpPattern @ x)"
      using assms(3) x by (auto simp: rand_ok_def seg_ok_def tmpPattern_def)
    have nm': "f_Name f = abspath (tmp_path c @ [tmpPattern @ x])"
      unfolding nm using tmp_path_ok [OF root] ok by (intro filepath_Join_abspath) auto
    then have "segs (f_Name f) = tmp_path c @ [tmpPattern @ x]"
      using segs_tmp_name [OF root ok] by simp
    with rest nm' ok cache_okD(3) [OF assms(2)] show ?thesis by (auto intro!: exI [of _ "tmpPattern @ x"])
  qed
  show "cache_ok c fs'"
  proof (cases r)
    case (Inl e)
    with same same_store_cache_ok assms(2) show ?thesis by blast
  next
    case (Inr f)
    from new [OF this] obtain x where x: "seg_ok x" "fs_ok fs'"
      "node_at fs' = (node_at fs)(tmp_path c @ [x] := Some (FileNode (f_ino f)))" by blast
    show ?thesis
    proof (rule cache_ok_node_at [OF assms(2) x(2)])
      show "node_at fs' (tmp_path c) = Some DirNode" using x(3) cache_okD(3) [OF assms(2)] by simp
      show "node_at fs q = Some n \<or> (\<exists>r. q = croot c @ r \<and> fits r n) \<or> (n = DirNode \<and> prefix q (croot c))"
        if "node_at fs' q = Some n" for q n
        using that x(1,3) fits_staging by (auto simp: tmp_path_def split: if_splits)
    qed
  qed
  assume "r = Inr f"
  from new [OF this] segs_tmp_name [OF root]
  show "staged c fs' f \<and> f_pos f = 0 \<and> f_ino f = fs_next fs \<and> node_at fs (segs (f_Name f)) = None
      \<and> node_at fs' = (node_at fs)(segs (f_Name f) := Some (FileNode (f_ino f)))
      \<and> fs_inodes fs' = (fs_inodes fs)(f_ino f := \<lparr>ino_data = [], ino_mtime = time_Now fs\<rparr>)"
    by (auto simp: staged_def)
qed

text \<open>Removing the staging file, as the deferred clean-up does.\<close>

lemma remove_staged_effect:
  assumes "os_Remove fs (f_Name f) = (r, fs')" and "cache_ok c fs" and "staged c fs f"
  shows "cache_ok c fs'" and "same_env fs fs'" and "fs_inodes fs' = fs_inodes fs"
    and "file_at fs' = (if r = Inr () then (file_at fs)(segs (f_Name f) := None) else file_at fs)"
    and "r = Inr () \<Longrightarrow> node_at fs' = (node_at fs)(segs (f_Name f) := None)"
    and "fs_fault fs (fs_ops fs) = None \<Longrightarrow> r = Inr ()"
proof -
  note root = cache_okD(1) [OF assms(2)] and ok = cache_okD(2) [OF assms(2)]
  from assms(3) root obtain x where x: "seg_ok x" "segs (f_Name f) = tmp_path c @ [x]"
    "node_at fs (tmp_path c @ [x]) = Some (FileNode (f_ino f))" by (rule stagedD)
  note eff = os_Remove_effect [OF assms(1) ok]
  show "same_env fs fs'" "fs_inodes fs' = fs_inodes fs" by (rule eff)+
  show gone: "node_at fs' = (node_at fs)(segs (f_Name f) := None)" if "r = Inr ()"
    using eff(1) that x(2) by simp
  show "file_at fs' = (if r = Inr () then (file_at fs)(segs (f_Name f) := None) else file_at fs)"
    using gone same_storeD [OF eff(2)] by (auto simp: fun_eq_iff file_at_def)
  show "cache_ok c fs'"
  proof (cases "r = Inr ()")
    case True
    with eff(1) x(2) have "fs_ok fs'" by simp
    then show ?thesis
      using gone [OF True] cache_okD(3) [OF assms(2)] x(2)
      by (intro cache_ok_node_at [OF assms(2)]) (auto split: if_splits)
  next
    case False
    then show ?thesis using same_store_cache_ok [OF eff(2)] assms(2) by blast
  qed
  assume "fs_fault fs (fs_ops fs) = None"
  then show "r = Inr ()" using assms(1) x(2,3) by (auto simp: os_Remove_def syscall_def)
qed

section \<open>Commits\<close>

lemma fits_shard_dir:
  assumes "prefix q [role, a, b]" and "role_ok role" and "list_all seg_ok [role, a, b]"
  shows "fits q DirNode"
proof -
  from assms(1) have "q = [] \<or> q = [role] \<or> q = [role, a] \<or> q = [role, a, b]"
    by (auto simp: prefix_Cons)
  with assms(2,3) show ?thesis by (auto simp: fits_def role_ok_def)
qed

lemma shard_dir_effect:
  assumes "os_MkdirAll fs (filepath_Dir (cache_path sha c role ident inner)) = (r, fs')"
    and "cache_ok c fs" and "sha_ok sha" and "role_ok role"
  shows "cache_ok c fs'" and "same_env fs fs'" and "fs_inodes fs' = fs_inodes fs" and "fs_next fs' = fs_next fs"
    and "file_at fs' = file_at fs"
    and "r = Inr () \<Longrightarrow> node_at fs' (butlast (entry_path sha c role ident inner)) = Some DirNode"
    and "node_at fs p = Some n \<Longrightarrow> node_at fs' p = Some n"
proof -
  note root = cache_okD(1) [OF assms(2)]
  let ?e = "entry_path sha c role ident inner" and ?k = "cache_key sha role ident inner"
  let ?d = "[role, take 2 ?k, take 2 (drop 2 ?k)]"
  have d: "butlast ?e = croot c @ ?d" by (simp add: entry_path_def Let_def butlast_append)
  note eff = os_MkdirAll_effect [OF assms(1) cache_okD(2) [OF assms(2)],
      unfolded segs_Dir_cache_path [OF root assms(3,4)] d]
  show "same_env fs fs'" "fs_inodes fs' = fs_inodes fs" "fs_next fs' = fs_next fs" by (rule eff)+
  show "file_at fs' = file_at fs"
  proof
    fix p show "file_at fs' p = file_at fs p" using eff(5) [of p] by (auto simp: file_at_def)
  qed
  show "r = Inr () \<Longrightarrow> node_at fs' (butlast ?e) = Some DirNode" using eff(6) d by simp
  show mono: "node_at fs p = Some n \<Longrightarrow> node_at fs' p = Some n" for p n using eff(5) [of p] by auto
  have sok: "list_all seg_ok ?d" using entry_segs_ok [OF assms(3,4), of ident inner] by simp
  show "cache_ok c fs'"
  proof (rule cache_ok_node_at [OF assms(2) eff(1) _ mono [OF cache_okD(3) [OF assms(2)]]])
    fix q n assume "node_at fs' q = Some n"
    with eff(5) [of q] consider "node_at fs q = Some n" | "n = DirNode" "prefix q (croot c @ ?d)" by auto
    then show "node_at fs q = Some n \<or> (\<exists>r. q = croot c @ r \<and> fits r n) \<or> (n = DirNode \<and> prefix q (croot c))"
      using fits_shard_dir [OF _ assms(4) sok] by cases (auto simp: prefix_append)
  qed
qed

lemma entry_not_dir:
  assumes "cache_ok c fs" and "role_ok role"
  shows "node_at fs (entry_path sha c role ident inner) \<noteq> Some DirNode"
  using cache_okD(4) [OF assms(1), of "drop (length (croot c)) (entry_path sha c role ident inner)" DirNode]
  by (auto simp: entry_path_def Let_def fits_def)

lemma fits_entry:
  assumes "sha_ok sha" and "role_ok role"
  shows "\<exists>r. entry_path sha c role ident inner = croot c @ r \<and> fits r (FileNode i)"
  using entry_segs_ok [OF assms, of ident inner] assms(2)
  by (simp add: entry_path_def Let_def fits_def role_ok_def)

definition entry_size :: "osfs \<Rightarrow> path \<Rightarrow> int" where
  "entry_size fs p = (case file_at fs p of Some i \<Rightarrow> int (length (ino_data (fs_inodes fs i))) | None \<Rightarrow> 0)"

text \<open>A change of directories, clock or count only: the same files with the same content.\<close>

definition same_files :: "osfs \<Rightarrow> osfs \<Rightarrow> bool" where
  "same_files fs fs' \<longleftrightarrow> same_env fs fs' \<and> file_at fs' = file_at fs \<and> fs_inodes fs' = fs_inodes fs"

lemma same_files_store: "same_store fs fs' \<Longrightarrow> same_files fs fs'"
  by (simp add: same_files_def same_storeD fun_eq_iff file_at_def)

lemma same_files_trans [trans]: "same_files a b \<Longrightarrow> same_files b c \<Longrightarrow> same_files a c"
  using same_env_trans by (auto simp: same_files_def)

lemma same_files_staged: "same_files fs fs' \<Longrightarrow> staged c fs tmp \<Longrightarrow> staged c fs' tmp"
  using file_at_Some [of fs] file_at_Some [of fs'] unfolding same_files_def staged_def by metis

text \<open>What a commit found at the entry before the rename.\<close>

definition old_size :: "fileinfo result \<Rightarrow> int" where
  "old_size st = (case st of Inr fi \<Rightarrow> fi_Size fi | Inl _ \<Rightarrow> 0)"

definition old_exists :: "fileinfo result \<Rightarrow> bool" where
  "old_exists st = (case st of Inr _ \<Rightarrow> True | Inl _ \<Rightarrow> False)"

lemma staged_stat:
  assumes "f_Stat fs1 tmp = (Inr info, fs2)" and "same_store fs fs1"
  shows "fi_Size info = int (length (ino_data (fs_inodes fs (f_ino tmp))))"
  using assms(1) same_storeD(2) [OF assms(2)] by (auto simp: f_Stat_def node_info_def elim!: syscall_cases)

lemma Commit_cases:
  fixes sha c role ident inner tmp w
  defines "final \<equiv> cache_path sha c role ident inner"
  assumes "Commit sha c tmp role ident inner w = (r, w')"
  obtains (early) g where "r \<noteq> None" "w' = w\<lparr>w_fs := g\<rparr>" "same_store (w_fs w) g"
    | (mkdir) e g fs4 where "r \<noteq> None" "w' = w\<lparr>w_fs := fs4\<rparr>" "same_store (w_fs w) g"
        "os_MkdirAll g (filepath_Dir final) = (Inl e, fs4)"
    | (rename) g fs4 st fs5 rn fs6 where "same_store (w_fs w) g" "os_MkdirAll g (filepath_Dir final) = (Inr (), fs4)"
        "os_Stat fs4 final = (st, fs5)" "os_Rename fs5 (f_Name tmp) final = (rn, fs6)" "r = None \<longleftrightarrow> rn = Inr ()"
        "w' = \<lparr>w_fs = fs6, w_met = (if r = None then met_committed
           (int (length (ino_data (fs_inodes (w_fs w) (f_ino tmp)))) - old_size st) (old_exists st) (w_met w) else w_met w)\<rparr>"
proof -
  obtain r1 fs1 where c1: "f_Sync (w_fs w) tmp = (r1, fs1)" by fastforce
  obtain r2 fs2 where c2: "f_Stat fs1 tmp = (r2, fs2)" by fastforce
  obtain r3 fs3 where c3: "f_Close fs2 tmp = (r3, fs3)" by fastforce
  obtain r4 fs4 where c4: "os_MkdirAll fs3 (filepath_Dir final) = (r4, fs4)" by fastforce
  obtain r5 fs5 where c5: "os_Stat fs4 final = (r5, fs5)" by fastforce
  obtain r6 fs6 where c6: "os_Rename fs5 (f_Name tmp) final = (r6, fs6)" by fastforce
  note s1 = read_only_calls(4) [OF c1]
  note s2 = same_store_trans [OF s1 read_only_calls(3) [OF c2]]
  note s3 = same_store_trans [OF s2 read_only_calls(5) [OF c3]]
  note run = assms(2) [unfolded Commit_def Let_def, folded final_def] c1 c2 c3 c4 c5 c6
  consider "\<exists>e. r1 = Inl e" | "r1 = Inr ()" "\<exists>e. r2 = Inl e" | info where "r1 = Inr ()" "r2 = Inr info" "\<exists>e. r3 = Inl e"
    | info e where "r1 = Inr ()" "r2 = Inr info" "r3 = Inr ()" "r4 = Inl e"
    | info where "r1 = Inr ()" "r2 = Inr info" "r3 = Inr ()" "r4 = Inr ()"
    by (metis old.sum.exhaust old.unit.exhaust)
  then show thesis
  proof cases
    case 1
    with run show thesis by (intro early [OF _ _ s1]) auto
  next
    case 2
    with run show thesis by (intro early [OF _ _ s2]) auto
  next
    case 3
    with run show thesis by (intro early [OF _ _ s3]) auto
  next
    case 4
    with run show thesis by (intro mkdir [OF _ _ s3 c4 [unfolded 4(4)]]) auto
  next
    case 5
    note sz = staged_stat [OF c2 [unfolded 5(2)] s1]
    show thesis
      by (rule rename [OF s3 c4 [unfolded 5(4)] c5 c6])
        (use run 5 sz in \<open>auto simp: old_size_def old_exists_def split: sum.splits\<close>)
  qed
qed

text \<open>The directory and the entry up to the rename: the files are untouched.\<close>

lemma before_rename:
  assumes "same_store fs g" and "os_MkdirAll g (filepath_Dir (cache_path sha c role ident inner)) = (rm, fs4)"
    and "cache_ok c fs" and "sha_ok sha" and "role_ok role"
  shows "cache_ok c fs4" and "same_files fs fs4"
proof -
  have "cache_ok c g" using assms(1,3) same_store_cache_ok by blast
  note m = shard_dir_effect [OF assms(2) this assms(4,5)]
  show "cache_ok c fs4" by (rule m(1))
  have "same_files g fs4" using m(2,3,5) by (simp add: same_files_def)
  with same_files_store [OF assms(1)] show "same_files fs fs4" by (rule same_files_trans)
qed

text \<open>What the entry's \<open>os.Stat\<close> says of it, unless a fault hides an existing entry.\<close>

lemma old_entry_stat:
  assumes "os_Stat fs4 (cache_path sha c role ident inner) = (st, fs5)" and "same_files fs fs4" and "cache_ok c fs4"
    and "sha_ok sha" and "role_ok role" and "fault_free fs \<or> file_at fs (entry_path sha c role ident inner) = None"
  shows "old_size st = entry_size fs (entry_path sha c role ident inner)"
    and "old_exists st \<longleftrightarrow> file_at fs (entry_path sha c role ident inner) \<noteq> None"
proof -
  let ?e = "entry_path sha c role ident inner"
  have segs: "segs (cache_path sha c role ident inner) = ?e" using cache_okD(1) [OF assms(3)] assms(4,5) by simp
  have f4: "file_at fs4 ?e = file_at fs ?e" "fs_inodes fs4 = fs_inodes fs" "fault_free fs4 = fault_free fs"
    using assms(2) fault_free_env by (simp_all add: same_files_def)
  have "old_size st = entry_size fs ?e \<and> (old_exists st \<longleftrightarrow> file_at fs ?e \<noteq> None)"
  proof (cases "file_at fs ?e")
    case None
    with f4(1) entry_not_dir [OF assms(3,5), of sha ident inner] have "node_at fs4 ?e = None"
      by (auto simp: file_at_def split: option.splits node.splits)
    with assms(1) have "\<exists>err. st = Inl err" by (auto simp: os_Stat_def segs elim!: syscall_cases)
    with None show ?thesis by (auto simp: entry_size_def old_size_def old_exists_def)
  next
    case (Some i)
    with assms(6) f4(3) have "fs_fault fs4 (fs_ops fs4) = None" by (simp add: fault_free_def)
    moreover have "node_at fs4 ?e = Some (FileNode i)" using f4(1) Some by (metis file_at_Some)
    ultimately have "st = Inr (node_info (os_tick fs4) (FileNode i))"
      using assms(1) by (auto simp: os_Stat_def segs syscall_def)
    then show ?thesis unfolding Some by (simp add: entry_size_def old_size_def old_exists_def Some node_info_def f4(2))
  qed
  then show "old_size st = entry_size fs ?e" "old_exists st \<longleftrightarrow> file_at fs ?e \<noteq> None" by simp_all
qed

text \<open>The rename puts the staging file where the entry is.\<close>

lemma entry_rename:
  assumes "os_Rename fs (f_Name tmp) (cache_path sha c role ident inner) = (Inr (), fs')"
    and "cache_ok c fs" and "staged c fs tmp" and "sha_ok sha" and "role_ok role"
  shows "cache_ok c fs'"
    and "file_at fs' = (file_at fs)(segs (f_Name tmp) := None, entry_path sha c role ident inner := Some (f_ino tmp))"
proof -
  let ?e = "entry_path sha c role ident inner"
  note root = cache_okD(1) [OF assms(2)]
  have segs: "segs (cache_path sha c role ident inner) = ?e" using root assms(4,5) by simp
  obtain x where x: "segs (f_Name tmp) = tmp_path c @ [x]" "node_at fs (tmp_path c @ [x]) = Some (FileNode (f_ino tmp))"
    using stagedD [OF assms(3) root] .
  note rn = os_Rename_effect [OF assms(1) cache_okD(2) [OF assms(2)]]
  from rn(6) [OF refl] x have n: "node_at fs' = (node_at fs)(segs (f_Name tmp) := None, ?e := Some (FileNode (f_ino tmp)))"
    by (auto simp: segs)
  then show "file_at fs' = (file_at fs)(segs (f_Name tmp) := None, ?e := Some (f_ino tmp))"
    by (simp add: fun_eq_iff file_at_def)
  show "cache_ok c fs'"
  proof (rule cache_ok_node_at [OF assms(2) rn(5)])
    show "node_at fs' (tmp_path c) = Some DirNode"
      using n cache_okD(3) [OF assms(2)] x(1) by (auto simp: entry_path_def Let_def tmp_path_def)
    show "node_at fs q = Some n \<or> (\<exists>r. q = croot c @ r \<and> fits r n) \<or> (n = DirNode \<and> prefix q (croot c))"
      if "node_at fs' q = Some n" for q n
      using that n fits_entry [OF assms(4,5), of c ident inner "f_ino tmp"] by (auto split: if_splits)
  qed
qed

lemma Commit_effect:
  assumes "Commit sha c tmp role ident inner w = (r, w')"
    and "cache_ok c (w_fs w)" and "staged c (w_fs w) tmp" and "sha_ok sha" and "role_ok role"
  defines "fs \<equiv> w_fs w" and "fs' \<equiv> w_fs w'" and "e \<equiv> entry_path sha c role ident inner"
  shows "cache_ok c fs'" and "same_env fs fs'" and "fs_inodes fs' = fs_inodes fs"
    and "r \<noteq> None \<Longrightarrow> file_at fs' = file_at fs \<and> w_met w' = w_met w \<and> staged c fs' tmp"
    and "r = None \<Longrightarrow> file_at fs' = (file_at fs)(segs (f_Name tmp) := None, e := Some (f_ino tmp))"
    and "r = None \<Longrightarrow> fault_free fs \<or> file_at fs e = None \<Longrightarrow>
      w_met w' = met_committed (int (length (ino_data (fs_inodes fs (f_ino tmp)))) - entry_size fs e)
        (file_at fs e \<noteq> None) (w_met w)"
proof -
  let ?same = "cache_ok c fs' \<and> same_env fs fs' \<and> fs_inodes fs' = fs_inodes fs"
  let ?failed = "r \<noteq> None \<longrightarrow> file_at fs' = file_at fs \<and> w_met w' = w_met w \<and> staged c fs' tmp"
  let ?moved = "r = None \<longrightarrow> file_at fs' = (file_at fs)(segs (f_Name tmp) := None, e := Some (f_ino tmp))"
  let ?counted = "r = None \<and> (fault_free fs \<or> file_at fs e = None) \<longrightarrow> w_met w' =
      met_committed (int (length (ino_data (fs_inodes fs (f_ino tmp)))) - entry_size fs e) (file_at fs e \<noteq> None) (w_met w)"
  note ok = assms(2) [folded fs_def] and st = assms(3) [folded fs_def]
  have kept: "?same \<and> ?failed" if "cache_ok c g" "same_files fs g" "w_fs w' = g" "r \<noteq> None \<longrightarrow> w_met w' = w_met w" for g
    using that same_files_staged [OF that(2) st] by (simp add: fs'_def same_files_def)
  from assms(1) have "?same \<and> ?failed \<and> ?moved \<and> ?counted"
  proof (cases rule: Commit_cases)
    case (early g)
    with kept [of g] same_files_store same_store_cache_ok [of fs g] ok show ?thesis by (auto simp: fs_def)
  next
    case (mkdir err g fs4)
    note b = before_rename [OF mkdir(3) [folded fs_def] mkdir(4) ok assms(4,5)]
    from kept [OF b] mkdir(1,2) show ?thesis by auto
  next
    case (rename g fs4 st' fs5 rn fs6)
    note b = before_rename [OF rename(1) [folded fs_def] rename(2) ok assms(4,5)]
    note s5 = read_only_calls(1) [OF rename(3)]
    have b5: "cache_ok c fs5" "same_files fs fs5"
      using b same_store_cache_ok [OF s5] same_files_trans [OF b(2) same_files_store [OF s5]] by simp_all
    note rn = os_Rename_effect [OF rename(4) cache_okD(2) [OF b5(1)]]
    show ?thesis
    proof (cases r)
      case (Some err)
      with rename(5) have "same_store fs5 fs6" by (intro rn(1)) auto
      with b5 same_store_cache_ok same_files_trans [OF b5(2) same_files_store] have "cache_ok c fs6" "same_files fs fs6" by auto
      from kept [OF this] Some rename(6) show ?thesis by simp
    next
      case None
      with rename(4,5) have mv: "os_Rename fs5 (f_Name tmp) (cache_path sha c role ident inner) = (Inr (), fs6)" by simp
      note E = entry_rename [OF mv b5(1) same_files_staged [OF b5(2) st] assms(4,5)]
      have same: "same_env fs fs6" "fs_inodes fs6 = fs_inodes fs" "file_at fs5 = file_at fs"
        using b5(2) rn(2,3) same_env_trans by (auto simp: same_files_def)
      have "?counted"
        using old_entry_stat [OF rename(3) b(2,1) assms(4,5)] rename(6) None by (auto simp: fs_def e_def)
      with E same rename(6) None show ?thesis by (simp add: fs'_def e_def)
    qed
  qed
  then show "cache_ok c fs'" "same_env fs fs'" "fs_inodes fs' = fs_inodes fs"
    "r \<noteq> None \<Longrightarrow> file_at fs' = file_at fs \<and> w_met w' = w_met w \<and> staged c fs' tmp"
    "r = None \<Longrightarrow> file_at fs' = (file_at fs)(segs (f_Name tmp) := None, e := Some (f_ino tmp))"
    "r = None \<Longrightarrow> fault_free fs \<or> file_at fs e = None \<Longrightarrow>
      w_met w' = met_committed (int (length (ino_data (fs_inodes fs (f_ino tmp)))) - entry_size fs e)
        (file_at fs e \<noteq> None) (w_met w)"
    by blast+
qed

section \<open>Walks\<close>

lemma walk_path_eq:
  assumes "root_ok c" and "list_all seg_ok r"
  shows "walk_path (c_root c) (croot c @ r) = abspath (croot c @ r)"
proof (cases "r = []")
  case True
  with assms show ?thesis by (simp add: walk_path_def root_ok_def)
next
  case False
  have "c_root c @ CHR ''/'' # join_slash r = abspath (croot c @ r)"
    using assms(1) False by (simp add: root_ok_def abspath_append) (metis abspath_join)
  moreover have "path_Clean (abspath (croot c @ r)) = abspath (croot c @ r)"
    using assms by (intro path_Clean_abspath) (auto simp: root_ok_def)
  moreover have "c_root c \<noteq> []"
    using assms(1) by (metis root_ok_def segs_Nil)
  ultimately show ?thesis using False by (simp add: walk_path_def filepath_Join_def)
qed

lemma in_tmp_iff:
  assumes "root_ok c" and "list_all seg_ok r" and "r \<noteq> []"
  shows "filepath_Dir (abspath (croot c @ r)) = abspath (tmp_path c) \<longleftrightarrow> butlast (croot c @ r) = tmp_path c"
proof -
  let ?q = "croot c @ r"
  have ok: "list_all seg_ok (butlast ?q @ [last ?q])" and ne: "butlast ?q \<noteq> []"
    using assms by (auto simp: root_ok_def butlast_append)
  then have ok': "list_all seg_ok (butlast ?q)" "seg_ok (last ?q)" by simp_all
  have "butlast ?q @ [last ?q] = ?q" using assms(3) by (intro append_butlast_last_id) simp
  with filepath_Dir_abspath [OF ok' ne] have "filepath_Dir (abspath ?q) = abspath (butlast ?q)" by (simp only:)
  with abspath_inject [OF ok'(1)] tmp_path_ok [OF assms(1)] show ?thesis by metis
qed

text \<open>The steps of a walk over one node, for any callbacks.\<close>

lemma walk_list_file:
  assumes "cache_ok c fs" and "node_at fs (croot c @ r) = Some (FileNode i)"
  shows "walk_list c fileFn dirFn ((croot c @ r) # qs) (st, fs) =
    (case os_Stat fs (abspath (croot c @ r)) of
       (Inl _, fs1) \<Rightarrow> walk_list c fileFn dirFn qs (st, fs1)
     | (Inr info, fs1) \<Rightarrow> walk_list c fileFn dirFn qs
         (fileFn (abspath (croot c @ r)) info (butlast (croot c @ r) = tmp_path c) (st, fs1)))"
proof -
  note root = cache_okD(1) [OF assms(1)]
  from cache_okD(4) [OF assms] have ok: "list_all seg_ok r" and ne: "r \<noteq> []" by (auto simp: fits_def)
  show ?thesis
    unfolding in_tmp_iff [OF root ok ne, symmetric]
    using assms(2) by (simp add: Let_def walk_path_eq [OF root ok] tmp_dir_eq [OF root])
qed

lemma walk_list_dir:
  assumes "cache_ok c fs" and "node_at fs (croot c @ r) = Some DirNode"
  shows "walk_list c fileFn dirFn ((croot c @ r) # qs) (st, fs) =
    (let st1 = (if r \<noteq> [] \<and> r \<noteq> [tmpSubdir] then dirFn (abspath (croot c @ r)) st else st) in
     case syscall fs (\<lambda>fs. (Inr (), fs)) of
       (Inl e, fs1) \<Rightarrow> (Some e, st1, fs1)
     | (Inr _, fs1) \<Rightarrow> walk_list c fileFn dirFn qs (st1, fs1))"
proof -
  note root = cache_okD(1) [OF assms(1)]
  from cache_okD(4) [OF assms] have ok: "list_all seg_ok r" by (simp add: fits_def)
  have okr: "list_all seg_ok (croot c @ r)" "list_all seg_ok (croot c)" "list_all seg_ok (tmp_path c)"
    using root ok tmp_path_ok [OF root] by (simp_all add: root_ok_def)
  have "abspath (croot c @ r) = abspath (croot c) \<longleftrightarrow> r = []"
    using abspath_inject [OF okr(1,2)] by simp
  then have a: "abspath (croot c @ r) = c_root c \<longleftrightarrow> r = []"
    using root by (metis root_ok_def)
  have b: "abspath (croot c @ r) = abspath (tmp_path c) \<longleftrightarrow> r = [tmpSubdir]"
    using abspath_inject [OF okr(1,3)] by (simp add: tmp_path_def)
  show ?thesis
    using assms(2) a b
    by (simp add: Let_def walk_path_eq [OF root ok] tmp_dir_eq [OF root])
qed

lemma walk_list_gone:
  assumes "cache_ok c fs" and "list_all seg_ok r" and "node_at fs (croot c @ r) = None"
  shows "\<exists>fs1. same_store fs fs1 \<and> walk_list c fileFn dirFn ((croot c @ r) # qs) (st, fs)
    = walk_list c fileFn dirFn qs (st, fs1)"
proof -
  note root = cache_okD(1) [OF assms(1)]
  have "list_all seg_ok (croot c @ r)" using root assms(2) by (simp add: root_ok_def)
  then have s: "segs (abspath (croot c @ r)) = croot c @ r" by simp
  obtain x fs1 where st: "os_Stat fs (abspath (croot c @ r)) = (x, fs1)" by fastforce
  then have "\<exists>e. x = Inl e"
    using assms(3) by (auto simp: os_Stat_def s elim!: syscall_cases)
  moreover have "walk_path (c_root c) (croot c @ r) = abspath (croot c @ r)"
    by (rule walk_path_eq [OF root assms(2)])
  ultimately show ?thesis
    using assms(3) st read_only_calls(1) [OF st] by (auto simp: Let_def)
qed

declare walk_list.simps(2) [simp del]

lemma size_file_simps:
  "size_file p info True (st, fs) = (st, fs)"
  "size_file p info False (st, fs) = (\<lparr>sz_bytes = sz_bytes st + fi_Size info, sz_entries = sz_entries st + 1\<rparr>, fs)"
  by (simp_all add: size_file_def)

lemma set_walk_order:
  assumes "fs_ok fs"
  shows "set (walk_order fs root) = {q. prefix root q \<and> node_at fs q \<noteq> None}" and "distinct (walk_order fs root)"
proof -
  have "set (map fst (fs_nodes fs)) = {q. node_at fs q \<noteq> None}"
    by (auto simp: map_of_eq_None_iff)
  then show "set (walk_order fs root) = {q. prefix root q \<and> node_at fs q \<noteq> None}"
    by (auto simp: walk_order_def)
  show "distinct (walk_order fs root)"
    using fs_okD(1) [OF assms] by (simp add: walk_order_def)
qed

subsection \<open>Sizes\<close>

definition entry_paths :: "cache \<Rightarrow> osfs \<Rightarrow> path set" where
  "entry_paths c fs = {p. prefix (croot c) p \<and> file_at fs p \<noteq> None \<and> butlast p \<noteq> tmp_path c}"

definition total_size :: "cache \<Rightarrow> osfs \<Rightarrow> int" where
  "total_size c fs = (\<Sum>p \<in> entry_paths c fs. entry_size fs p)"

definition entry_count :: "cache \<Rightarrow> osfs \<Rightarrow> int" where
  "entry_count c fs = int (card (entry_paths c fs))"

lemma finite_entry_paths [simp]: "finite (entry_paths c fs)"
proof -
  have "entry_paths c fs \<subseteq> dom (node_at fs)" by (auto simp: entry_paths_def)
  then show ?thesis by (rule finite_subset) (rule finite_dom_map_of)
qed

lemma same_store_entries:
  assumes "same_store fs fs'"
  shows "entry_paths c fs' = entry_paths c fs" "entry_size fs' = entry_size fs" "file_at fs' = file_at fs"
proof -
  show f: "file_at fs' = file_at fs" by (simp add: fun_eq_iff file_at_def same_storeD [OF assms])
  then show "entry_paths c fs' = entry_paths c fs" "entry_size fs' = entry_size fs"
    by (simp_all add: entry_paths_def entry_size_def fun_eq_iff same_storeD(2) [OF assms] cong: option.case_cong)
qed

definition size_added :: "cache \<Rightarrow> osfs \<Rightarrow> path \<Rightarrow> cache_size \<Rightarrow> cache_size" where
  "size_added c fs q st =
     (if q \<in> entry_paths c fs then \<lparr>sz_bytes = sz_bytes st + entry_size fs q, sz_entries = sz_entries st + 1\<rparr> else st)"

lemma size_walk_step:
  assumes "cache_ok c fs" and "fault_free fs" and q: "q = croot c @ r" and n: "node_at fs q = Some n"
  shows "walk_list c size_file (\<lambda>_ st. st) (q # qs) (st, fs) = walk_list c size_file (\<lambda>_ st. st) qs (size_added c fs q st, os_tick fs)"
proof -
  note root = cache_okD(1) [OF assms(1)]
  have nf: "fs_fault fs (fs_ops fs) = None" using assms(2) by (simp add: fault_free_def)
  show ?thesis
  proof (cases n)
    case DirNode
    with n have "q \<notin> entry_paths c fs" by (simp add: entry_paths_def file_at_def)
    with DirNode n show ?thesis
      unfolding q using walk_list_dir [OF assms(1), of r size_file "\<lambda>_ st. st" qs st]
      by (simp add: syscall_no_fault [OF nf] Let_def size_added_def)
  next
    case (FileNode i)
    with cache_okD(4) [OF assms(1)] n q have ok: "list_all seg_ok r" by (fastforce simp: fits_def)
    then have "list_all seg_ok q" using root by (simp add: q root_ok_def)
    then have s: "os_Stat fs (abspath q) = (Inr (node_info (os_tick fs) (FileNode i)), os_tick fs)"
      using n FileNode nf by (simp add: os_Stat_def syscall_def)
    have info: "fi_Size (node_info (os_tick fs) (FileNode i)) = entry_size fs q"
      using n FileNode by (simp add: node_info_def entry_size_def file_at_def)
    have "walk_list c size_file (\<lambda>_ st. st) (q # qs) (st, fs) = walk_list c size_file (\<lambda>_ st. st) qs
        (size_file (abspath q) (node_info (os_tick fs) (FileNode i)) (butlast q = tmp_path c) (st, os_tick fs))"
      using walk_list_file [OF assms(1), of r i size_file "\<lambda>_ st. st" qs st] n FileNode
      by (simp add: s flip: q)
    moreover have "q \<in> entry_paths c fs \<longleftrightarrow> butlast q \<noteq> tmp_path c"
      using n FileNode q by (auto simp: entry_paths_def)
    ultimately show ?thesis
      by (cases "butlast q = tmp_path c") (simp_all add: size_file_simps info size_added_def)
  qed
qed

lemma size_walk:
  assumes "cache_ok c fs" and "fault_free fs" and "distinct qs"
    and "\<And>q. q \<in> set qs \<Longrightarrow> prefix (croot c) q \<and> node_at fs q \<noteq> None"
  shows "\<exists>fs'. same_store fs fs' \<and> walk_list c size_file (\<lambda>_ st. st) qs (st, fs) =
    (None, \<lparr>sz_bytes = sz_bytes st + (\<Sum>p \<in> set qs \<inter> entry_paths c fs. entry_size fs p),
       sz_entries = sz_entries st + int (card (set qs \<inter> entry_paths c fs))\<rparr>, fs')"
  using assms
proof (induction qs arbitrary: st fs)
  case Nil
  then show ?case by (auto intro!: exI [of _ fs])
next
  case (Cons q qs)
  from Cons.prems(4) [of q] obtain r n where q: "q = croot c @ r" "node_at fs q = Some n"
    by (auto simp: prefix_def)
  have tick: "same_store fs (os_tick fs)" by simp
  let ?st = "size_added c fs q st"
  have "cache_ok c (os_tick fs)" "fault_free (os_tick fs)"
    using Cons.prems(1,2) same_store_cache_ok [OF tick] by (simp_all add: fault_free_def)
  from Cons.IH [OF this, of ?st] Cons.prems(3,4) same_store_trans [OF tick]
  have "\<exists>fs'. same_store fs fs' \<and> walk_list c size_file (\<lambda>_ st. st) qs (?st, os_tick fs) =
      (None, \<lparr>sz_bytes = sz_bytes ?st + (\<Sum>p \<in> set qs \<inter> entry_paths c fs. entry_size fs p),
         sz_entries = sz_entries ?st + int (card (set qs \<inter> entry_paths c fs))\<rparr>, fs')"
    by (auto simp: same_store_entries [OF tick])
  moreover have "insert q (set qs) \<inter> entry_paths c fs =
      (if q \<in> entry_paths c fs then insert q (set qs \<inter> entry_paths c fs) else set qs \<inter> entry_paths c fs)" by auto
  moreover have "q \<notin> set qs" using Cons.prems(3) by simp
  ultimately show ?case
    unfolding size_walk_step [OF Cons.prems(1,2) q] by (auto simp: size_added_def add.assoc)
qed

lemma computeSize_exact:
  assumes "cache_ok c fs" and "fault_free fs"
  shows "\<exists>fs'. same_store fs fs' \<and>
    computeSize c fs = (None, \<lparr>sz_bytes = total_size c fs, sz_entries = entry_count c fs\<rparr>, fs')"
proof -
  note root = cache_okD(1) [OF assms(1)]
  have nf: "fs_fault fs (fs_ops fs) = None" using assms(2) by (simp add: fault_free_def)
  have "node_at fs (croot c) = Some DirNode"
    by (rule cache_ok_root_dir [OF assms(1)]) (simp add: tmp_path_def)
  then have st: "os_Stat fs (c_root c) = (Inr (node_info (os_tick fs) DirNode), os_tick fs)"
    using nf by (simp add: os_Stat_def syscall_def)
  have tick: "same_store fs (os_tick fs)" by simp
  have ok: "cache_ok c (os_tick fs)" using assms(1) same_store_cache_ok [OF tick] by simp
  have ff: "fault_free (os_tick fs)" using assms(2) by (simp add: fault_free_def)
  note wo = set_walk_order [OF cache_okD(2) [OF ok], of "croot c"]
  have "set (walk_order (os_tick fs) (croot c)) \<inter> entry_paths c fs = entry_paths c fs"
    using wo(1) by (auto simp: entry_paths_def)
  with size_walk [OF ok ff wo(2), of "\<lparr>sz_bytes = 0, sz_entries = 0\<rparr>"] wo(1)
  obtain fs' where "same_store (os_tick fs) fs'" and "walk_list c size_file (\<lambda>_ st. st)
      (walk_order (os_tick fs) (croot c)) (\<lparr>sz_bytes = 0, sz_entries = 0\<rparr>, os_tick fs)
      = (None, \<lparr>sz_bytes = total_size c fs, sz_entries = entry_count c fs\<rparr>, fs')"
    by (auto simp: same_store_entries [OF tick] total_size_def entry_count_def)
  then show ?thesis
    using same_store_trans [OF tick] st by (auto simp: computeSize_def walkFiles_def)
qed

section \<open>The file sweep\<close>

definition stale :: "int \<Rightarrow> osfs \<Rightarrow> path \<Rightarrow> bool" where
  "stale cutoff fs p = (case mtime_at fs p of Some t \<Rightarrow> t < cutoff | None \<Rightarrow> False)"

text \<open>
  What a sweep over some nodes has done, whatever failed: it removed a set \<open>R\<close> of stale
  files, counted them and the entries among them with their sizes, and listed directories.
\<close>

definition swept :: "cache \<Rightarrow> int \<Rightarrow> path list \<Rightarrow> path set \<Rightarrow> osfs \<Rightarrow> osfs \<Rightarrow> sweep \<Rightarrow> sweep \<Rightarrow> bool" where
  "swept c cutoff qs R fs fs' st st' \<longleftrightarrow>
     R \<subseteq> {q \<in> set qs. stale cutoff fs q}
     \<and> node_at fs' = (\<lambda>p. if p \<in> R then None else node_at fs p)
     \<and> fs_inodes fs' = fs_inodes fs \<and> cache_ok c fs' \<and> same_env fs fs'
     \<and> removed st' = removed st + int (card R)
     \<and> removedEntries st' = removedEntries st + int (card (R \<inter> entry_paths c fs))
     \<and> removedBytes st' = removedBytes st + (\<Sum>p \<in> R \<inter> entry_paths c fs. entry_size fs p)
     \<and> (\<exists>ds. dirs st' = dirs st @ map abspath ds
          \<and> set ds \<subseteq> {q \<in> set qs. node_at fs q = Some DirNode \<and> q \<noteq> croot c \<and> q \<noteq> tmp_path c})"

lemma sweptD:
  assumes "swept c cutoff qs R fs fs' st st'"
  shows "node_at fs' = (\<lambda>p. if p \<in> R then None else node_at fs p)" and "fs_inodes fs' = fs_inodes fs"
    and "cache_ok c fs'" and "same_env fs fs'" and "R \<subseteq> set qs" and "q \<in> R \<Longrightarrow> stale cutoff fs q"
  using assms by (auto simp: swept_def)

lemma mtime_at_node: "mtime_at fs p = Some t \<longleftrightarrow> (\<exists>i. node_at fs p = Some (FileNode i) \<and> ino_mtime (fs_inodes fs i) = t)"
  by (auto simp: mtime_at_def split: option.splits node.splits)

lemma stale_iff: "stale cutoff fs p \<longleftrightarrow> (\<exists>i. node_at fs p = Some (FileNode i) \<and> ino_mtime (fs_inodes fs i) < cutoff)"
  by (auto simp: stale_def mtime_at_def split: option.splits node.splits)

text \<open>One file: kept, or removed and counted.\<close>

lemma evict_file_swept:
  assumes "cache_ok c fs" and "node_at fs q = Some (FileNode i)" and "q = croot c @ r"
    and "os_Stat fs (abspath q) = (Inr info, fs1)"
    and "evict_file cutoff (abspath q) info (butlast q = tmp_path c) (st, fs1) = (st', fs')"
  shows "\<exists>R. swept c cutoff [q] R fs fs' st st' \<and> dirs st' = dirs st
    \<and> (fault_free fs \<longrightarrow> R = {p \<in> {q}. stale cutoff fs p})"
proof -
  note root = cache_okD(1) [OF assms(1)]
  have ok: "list_all seg_ok r" "r \<noteq> []" using cache_okD(4) [OF assms(1)] assms(2,3) by (fastforce simp: fits_def)+
  then have s: "segs (abspath q) = q" using root by (simp add: assms(3) root_ok_def)
  note s1 = read_only_calls(1) [OF assms(4)]
  note S1 = same_storeD [OF s1] same_store_cache_ok [OF s1] same_store_entries [OF s1]
  have info: "fi_ModTime info = ino_mtime (fs_inodes fs i)" "fi_Size info = entry_size fs q"
    using assms(2,4) by (auto simp: os_Stat_def s node_info_def entry_size_def file_at_def elim!: syscall_cases)
  obtain x fs2 where rm: "os_Remove fs1 (abspath q) = (x, fs2)" by fastforce
  have ok1: "cache_ok c fs1" using assms(1) S1 by simp
  note eff = os_Remove_effect [OF rm cache_okD(2) [OF ok1]]
  consider (kept) "\<not> (stale cutoff fs q \<and> x = Inr ())" "st' = st" "fs' = fs1 \<or> (fs' = fs2 \<and> x \<noteq> Inr ())"
      "stale cutoff fs q \<Longrightarrow> x \<noteq> Inr ()"
    | (gone) "stale cutoff fs q" "x = Inr ()" "fs' = fs2" "dirs st' = dirs st" "removed st' = removed st + 1"
      "removedEntries st' = removedEntries st + (if butlast q = tmp_path c then 0 else 1)"
      "removedBytes st' = removedBytes st + (if butlast q = tmp_path c then 0 else entry_size fs q)"
    using assms(5) rm assms(2) info by (auto simp: evict_file_def stale_iff Let_def split: if_splits sum.splits)
  then show ?thesis
  proof cases
    case kept
    have same: "same_store fs fs'"
      using kept(3) s1 eff(2) same_store_trans by blast
    note S = same_storeD [OF same] same_store_cache_ok [OF same]
    have "swept c cutoff [q] {} fs fs' st st'"
      using S assms(1) kept(2) by (simp add: swept_def)
    moreover have "stale cutoff fs q \<Longrightarrow> \<not> fault_free fs"
    proof
      assume "stale cutoff fs q" "fault_free fs"
      then have "fs_fault fs1 (fs_ops fs1) = None" using S1(7) by (simp add: fault_free_def same_env_def)
      then have "x = Inr ()" using rm assms(2) S1(1) file_no_child [OF cache_okD(2) [OF ok1], of q i]
        by (auto simp: os_Remove_def syscall_def s)
      with kept(4) \<open>stale cutoff fs q\<close> show False by simp
    qed
    ultimately show ?thesis using kept(2) by auto
  next
    case gone
    have "q \<noteq> []" using assms(3) ok(2) by simp
    then have del: "fs_nodes fs2 = AList.delete q (fs_nodes fs1)" "fs_ok fs2"
      using eff(1) gone(2) s by simp_all
    have n: "node_at fs2 = (node_at fs)(q := None)" by (simp add: del(1) S1(1))
    have tmp: "q \<noteq> tmp_path c" using assms(2) cache_okD(3) [OF assms(1)] by auto
    have "cache_ok c fs2"
      using n cache_okD(3) [OF ok1] tmp S1(1)
      by (intro cache_ok_node_at [OF ok1 del(2)]) (auto split: if_splits)
    moreover have "{q} \<inter> entry_paths c fs = (if butlast q = tmp_path c then {} else {q})"
      using assms(2,3) by (auto simp: entry_paths_def)
    ultimately have "swept c cutoff [q] {q} fs fs' st st'"
      using gone n eff(4) S1(2) same_env_trans [OF S1(7) eff(3)]
      by (auto simp: swept_def fun_eq_iff intro!: exI [of _ "[]"])
    with gone show ?thesis by auto
  qed
qed

text \<open>Sweeps compose.\<close>

lemma swept_trans:
  assumes "swept c cutoff qs R fs fs1 st st1" and "swept c cutoff qs' R' fs1 fs2 st1 st2"
    and "set qs \<inter> set qs' = {}"
  shows "swept c cutoff (qs @ qs') (R \<union> R') fs fs2 st st2"
proof -
  note a = assms(1) [unfolded swept_def] and b = assms(2) [unfolded swept_def]
  have disj: "R \<inter> R' = {}" using a b assms(3) by auto
  have n1: "node_at fs1 p = (if p \<in> R then None else node_at fs p)" for p using a by simp
  have keep: "p \<in> set qs' \<Longrightarrow> node_at fs1 p = node_at fs p" for p
    using n1 [of p] a assms(3) by auto
  have i1: "fs_inodes fs1 = fs_inodes fs" using a by simp
  have st: "p \<in> set qs' \<Longrightarrow> stale cutoff fs1 p = stale cutoff fs p" for p
    using keep by (simp add: stale_iff i1)
  have ep: "R' \<inter> entry_paths c fs1 = R' \<inter> entry_paths c fs"
    using b keep by (auto simp: entry_paths_def file_at_def)
  have es: "p \<in> R' \<Longrightarrow> entry_size fs1 p = entry_size fs p" for p
    using b keep [of p] by (auto simp: entry_size_def file_at_def i1 split: option.splits)
  have fin: "finite R" "finite R'" using a b finite_subset [of _ "set qs"] finite_subset [of _ "set qs'"] by auto
  have U: "(R \<union> R') \<inter> entry_paths c fs = (R \<inter> entry_paths c fs) \<union> (R' \<inter> entry_paths c fs)" by auto
  have cardU: "card (R \<union> R') = card R + card R'"
    "card ((R \<union> R') \<inter> entry_paths c fs) = card (R \<inter> entry_paths c fs) + card (R' \<inter> entry_paths c fs)"
    using disj fin by (auto simp: card_Un_disjoint) (subst U, rule card_Un_disjoint, auto)
  have sumU: "(\<Sum>p \<in> (R \<union> R') \<inter> entry_paths c fs. entry_size fs p) =
      (\<Sum>p \<in> R \<inter> entry_paths c fs. entry_size fs p) + (\<Sum>p \<in> R' \<inter> entry_paths c fs. entry_size fs p)"
    unfolding U using disj fin by (intro sum.union_disjoint) auto
  have sum': "(\<Sum>p \<in> R' \<inter> entry_paths c fs1. entry_size fs1 p) = (\<Sum>p \<in> R' \<inter> entry_paths c fs. entry_size fs p)"
    unfolding ep using es by (intro sum.cong) auto
  show ?thesis
    unfolding swept_def
  proof (intro conjI)
    show "R \<union> R' \<subseteq> {q \<in> set (qs @ qs'). stale cutoff fs q}" using a b st by auto
    show "node_at fs2 = (\<lambda>p. if p \<in> R \<union> R' then None else node_at fs p)"
      using a b by (auto simp: fun_eq_iff)
    show "fs_inodes fs2 = fs_inodes fs" "cache_ok c fs2" using a b by simp_all
    show "same_env fs fs2" using a b same_env_trans by blast
    show "removed st2 = removed st + int (card (R \<union> R'))" using a b by (simp add: cardU(1))
    show "removedEntries st2 = removedEntries st + int (card ((R \<union> R') \<inter> entry_paths c fs))"
      using a b by (simp add: cardU(2) ep)
    show "removedBytes st2 = removedBytes st + (\<Sum>p \<in> (R \<union> R') \<inter> entry_paths c fs. entry_size fs p)"
      using a b by (simp add: sumU sum')
    from a b obtain ds ds' where d: "dirs st1 = dirs st @ map abspath ds" "dirs st2 = dirs st1 @ map abspath ds'"
      "set ds \<subseteq> {q \<in> set qs. node_at fs q = Some DirNode \<and> q \<noteq> croot c \<and> q \<noteq> tmp_path c}"
      "set ds' \<subseteq> {q \<in> set qs'. node_at fs1 q = Some DirNode \<and> q \<noteq> croot c \<and> q \<noteq> tmp_path c}" by blast
    then show "\<exists>ds. dirs st2 = dirs st @ map abspath ds
        \<and> set ds \<subseteq> {q \<in> set (qs @ qs'). node_at fs q = Some DirNode \<and> q \<noteq> croot c \<and> q \<noteq> tmp_path c}"
      using keep by (intro exI [of _ "ds @ ds'"]) auto
  qed
qed

lemma swept_refl: "cache_ok c fs' \<Longrightarrow> same_store fs fs' \<Longrightarrow> swept c cutoff qs {} fs fs' st st"
  by (simp add: swept_def same_storeD)

text \<open>What it has done when nothing failed: all stale files, and every directory listed.\<close>

definition listed :: "cache \<Rightarrow> osfs \<Rightarrow> path list \<Rightarrow> path list" where
  "listed c fs qs = filter (\<lambda>q. node_at fs q = Some DirNode \<and> q \<noteq> croot c \<and> q \<noteq> tmp_path c) qs"

definition swept_all :: "cache \<Rightarrow> int \<Rightarrow> path list \<Rightarrow> path set \<Rightarrow> osfs \<Rightarrow> sweep \<Rightarrow> sweep \<Rightarrow> bool" where
  "swept_all c cutoff qs R fs st st' \<longleftrightarrow>
     R = {q \<in> set qs. stale cutoff fs q} \<and> dirs st' = dirs st @ map abspath (listed c fs qs)"

lemma swept_all_trans:
  assumes "swept c cutoff qs R1 fs fs1 st st1" and "swept_all c cutoff qs R1 fs st st1"
    and "swept_all c cutoff ps R2 fs1 st1 st2" and "set qs \<inter> set ps = {}"
  shows "swept_all c cutoff (qs @ ps) (R1 \<union> R2) fs st st2"
proof -
  note S = sweptD [OF assms(1)]
  have same: "node_at fs1 p = node_at fs p" if "p \<in> set ps" for p using S(1,5) that assms(4) by auto
  then have "p \<in> set ps \<Longrightarrow> stale cutoff fs1 p = stale cutoff fs p" for p by (simp add: stale_iff S(2))
  moreover have "listed c fs1 ps = listed c fs ps" unfolding listed_def using same by (intro filter_cong) auto
  ultimately show ?thesis using assms(2,3) by (auto simp: swept_all_def listed_def)
qed

lemma evict_walk_dir:
  assumes "cache_ok c fs" and q: "q = croot c @ r" and n: "node_at fs q = Some DirNode"
    and "walk_list c (evict_file cutoff) evict_dir (q # qs) (st, fs) = (err, st', fs')"
  shows "\<exists>st1 fs1. swept c cutoff [q] {} fs fs1 st st1 \<and> swept_all c cutoff [q] {} fs st st1
    \<and> ((err \<noteq> None \<and> \<not> fault_free fs \<and> st' = st1 \<and> fs' = fs1)
       \<or> walk_list c (evict_file cutoff) evict_dir qs (st1, fs1) = (err, st', fs'))"
proof -
  let ?st = "if r \<noteq> [] \<and> r \<noteq> [tmpSubdir] then evict_dir (abspath q) st else st"
  obtain x fs1 where sc: "syscall fs (\<lambda>fs. (Inr (), fs)) = ((x :: unit result), fs1)" by fastforce
  then have same: "same_store fs fs1" and x: "fault_free fs \<Longrightarrow> x = Inr ()"
    by (auto simp: fault_free_def elim!: syscall_cases)
  have ok1: "cache_ok c fs1" using assms(1) same_store_cache_ok [OF same] by simp
  have qd: "q \<noteq> croot c \<and> q \<noteq> tmp_path c \<longleftrightarrow> r \<noteq> [] \<and> r \<noteq> [tmpSubdir]"
    by (simp add: q tmp_path_def)
  have "swept c cutoff [q] {} fs fs1 st ?st"
    using swept_refl [OF ok1 same, of cutoff "[q]" st] n qd
    by (auto simp: swept_def evict_dir_def intro!: exI [of _ "[q]"])
  moreover have "swept_all c cutoff [q] {} fs st ?st"
    using n qd by (auto simp: swept_all_def listed_def stale_iff evict_dir_def)
  moreover have "walk_list c (evict_file cutoff) evict_dir (q # qs) (st, fs) =
      (case x of Inl e \<Rightarrow> (Some e, ?st, fs1) | Inr _ \<Rightarrow> walk_list c (evict_file cutoff) evict_dir qs (?st, fs1))"
    using walk_list_dir [OF assms(1), of r "evict_file cutoff" evict_dir qs st, folded q] n sc
    by (simp add: Let_def)
  ultimately show ?thesis
    using assms(4) x by (intro exI [of _ ?st] exI [of _ fs1]) (cases x; auto)
qed

lemma evict_walk_file:
  assumes "cache_ok c fs" and q: "q = croot c @ r" and n: "node_at fs q = Some (FileNode i)"
    and "walk_list c (evict_file cutoff) evict_dir (q # qs) (st, fs) = (err, st', fs')"
  shows "\<exists>R st1 fs1. swept c cutoff [q] R fs fs1 st st1 \<and> (fault_free fs \<longrightarrow> swept_all c cutoff [q] R fs st st1)
    \<and> walk_list c (evict_file cutoff) evict_dir qs (st1, fs1) = (err, st', fs')"
proof -
  obtain y fs1 where st: "os_Stat fs (abspath q) = (y, fs1)" by fastforce
  note same = read_only_calls(1) [OF st]
  have ok1: "cache_ok c fs1" using assms(1) same_store_cache_ok [OF same] by simp
  note step = assms(4) [unfolded walk_list_file [OF assms(1), of r i "evict_file cutoff" evict_dir qs st, folded q,
      unfolded st, OF n]]
  show ?thesis
  proof (cases y)
    case (Inl e)
    have "list_all seg_ok r" using cache_okD(4) [OF assms(1)] n q by (fastforce simp: fits_def)
    then have "segs (abspath q) = q" using cache_okD(1) [OF assms(1)] by (simp add: q root_ok_def)
    then have "\<not> fault_free fs" using st Inl n by (auto simp: os_Stat_def fault_free_def elim!: syscall_cases)
    with swept_refl [OF ok1 same, of cutoff "[q]" st] step Inl show ?thesis by auto
  next
    case (Inr info)
    obtain st1 fs2 where ev: "evict_file cutoff (abspath q) info (butlast q = tmp_path c) (st, fs1) = (st1, fs2)"
      by fastforce
    from evict_file_swept [OF assms(1) n q st [unfolded Inr] ev] obtain R where
      "swept c cutoff [q] R fs fs2 st st1" "fault_free fs \<longrightarrow> swept_all c cutoff [q] R fs st st1"
      using n by (auto simp: swept_all_def listed_def)
    with step Inr ev show ?thesis by auto
  qed
qed

lemma evict_walk:
  assumes "cache_ok c fs" and "distinct qs"
    and "\<And>q. q \<in> set qs \<Longrightarrow> prefix (croot c) q \<and> node_at fs q \<noteq> None"
    and "walk_list c (evict_file cutoff) evict_dir qs (st, fs) = (err, st', fs')"
  shows "\<exists>R. swept c cutoff qs R fs fs' st st' \<and> (fault_free fs \<longrightarrow> err = None \<and> swept_all c cutoff qs R fs st st')"
  using assms
proof (induction qs arbitrary: st fs)
  case Nil
  then show ?case using swept_refl [OF Nil.prems(1), of fs cutoff "[]" st] by (auto simp: swept_all_def listed_def)
next
  case (Cons q qs)
  from Cons.prems(3) [of q] obtain r n where q: "q = croot c @ r" and n: "node_at fs q = Some n"
    by (auto simp: prefix_def)
  have disj: "set [q] \<inter> set qs = {}" using Cons.prems(2) by simp
  obtain R1 st1 fs1 where S: "swept c cutoff [q] R1 fs fs1 st st1" "fault_free fs \<longrightarrow> swept_all c cutoff [q] R1 fs st st1"
    and w: "(err \<noteq> None \<and> \<not> fault_free fs \<and> st' = st1 \<and> fs' = fs1)
       \<or> walk_list c (evict_file cutoff) evict_dir qs (st1, fs1) = (err, st', fs')"
    using evict_walk_dir [OF Cons.prems(1) q _ Cons.prems(4)] evict_walk_file [OF Cons.prems(1) q _ Cons.prems(4)] n
    by (cases n) blast+
  note D = sweptD [OF S(1)]
  obtain R2 where R2: "swept c cutoff qs R2 fs1 fs' st1 st'"
    "fault_free fs \<longrightarrow> err = None \<and> swept_all c cutoff qs R2 fs1 st1 st'"
  proof (cases "walk_list c (evict_file cutoff) evict_dir qs (st1, fs1) = (err, st', fs')")
    case True
    have "node_at fs1 p = node_at fs p" if "p \<in> set qs" for p using D(1,5) that disj by auto
    with Cons.IH [OF D(3) _ _ True] Cons.prems(2,3) fault_free_env [OF D(4)] that show thesis by auto
  next
    case False
    with w that [of "{}"] swept_refl [OF D(3), of fs1] show thesis by auto
  qed
  from swept_trans [OF S(1) R2(1) disj] swept_all_trans [OF S(1) _ _ disj] S(2) R2(2) show ?case by auto
qed

section \<open>Pruning\<close>

definition shard_dirs :: "cache \<Rightarrow> osfs \<Rightarrow> path set" where
  "shard_dirs c fs = {p. prefix (croot c) p \<and> node_at fs p = Some DirNode \<and> p \<noteq> croot c \<and> p \<noteq> tmp_path c}"

definition has_file_below :: "osfs \<Rightarrow> path \<Rightarrow> bool" where
  "has_file_below fs p \<longleftrightarrow> (\<exists>q. strict_prefix p q \<and> file_at fs q \<noteq> None)"

lemma below_root:
  assumes "cache_ok c fs" and "prefix (croot c) p" and "node_at fs p = Some n"
  shows "segs (abspath p) = p" and "p \<noteq> []"
proof -
  from assms(2) obtain r where p: "p = croot c @ r" by (auto simp: prefix_def)
  with cache_okD(4) [OF assms(1)] assms(3) have "list_all seg_ok r" by (fastforce simp: fits_def)
  with cache_okD(1) [OF assms(1)] show "segs (abspath p) = p" "p \<noteq> []" by (auto simp: p root_ok_def)
qed

text \<open>One \<open>os.Remove\<close> of a shard directory.\<close>

lemma remove_dir_effect:
  assumes "cache_ok c fs" and "q \<in> shard_dirs c g" and "node_at fs q = None \<or> node_at fs q = Some DirNode"
    and "cache_ok c g" and "os_Remove fs (abspath q) = (r, fs')"
  shows "cache_ok c fs'" and "same_env fs fs'" and "fs_inodes fs' = fs_inodes fs" and "file_at fs' = file_at fs"
    and "p \<noteq> q \<Longrightarrow> node_at fs' p = node_at fs p"
    and "node_at fs' q = None \<or> (node_at fs' q = node_at fs q \<and> (fault_free fs \<longrightarrow> has_child (fs_nodes fs) q))"
proof -
  have s: "segs (abspath q) = q" and ne: "q \<noteq> []"
    using below_root [OF assms(4), of q DirNode] assms(2) by (simp_all add: shard_dirs_def)
  note eff = os_Remove_effect [OF assms(5) cache_okD(2) [OF assms(1)], unfolded s]
  show "same_env fs fs'" "fs_inodes fs' = fs_inodes fs" by (rule eff)+
  have n: "node_at fs' = (if r = Inr () then (node_at fs)(q := None) else node_at fs)"
    using eff(1) eff(2) ne same_storeD(1) [of fs fs'] by auto
  then show "p \<noteq> q \<Longrightarrow> node_at fs' p = node_at fs p" by simp
  show "file_at fs' = file_at fs" using n assms(3) by (auto simp: fun_eq_iff file_at_def)
  have "has_child (fs_nodes fs) q" if "fault_free fs" "r \<noteq> Inr ()" "node_at fs q = Some DirNode"
    using assms(5) that by (auto simp: os_Remove_def syscall_def fault_free_def s split: if_splits)
  with n assms(3) show "node_at fs' q = None \<or> (node_at fs' q = node_at fs q \<and> (fault_free fs \<longrightarrow> has_child (fs_nodes fs) q))"
    by (auto split: if_splits)
  show "cache_ok c fs'"
  proof (cases "r = Inr ()")
    case True
    with eff(1) ne have "fs_ok fs'" by simp
    moreover have "node_at fs' (tmp_path c) = Some DirNode"
      using n True cache_okD(3) [OF assms(1)] assms(2) by (auto simp: shard_dirs_def)
    ultimately show ?thesis
      using n True by (intro cache_ok_node_at [OF assms(1)]) (auto split: if_splits)
  next
    case False
    with eff(2) same_store_cache_ok assms(1) show ?thesis by blast
  qed
qed

definition rm_dir :: "string \<Rightarrow> osfs \<Rightarrow> osfs" where
  "rm_dir dir fs = snd (os_Remove fs dir)"

lemma rm_dirs_effect:
  assumes "cache_ok c fs" and "set qs \<subseteq> shard_dirs c g" and "cache_ok c g"
    and "\<And>q. q \<in> set qs \<Longrightarrow> node_at fs q = None \<or> node_at fs q = Some DirNode"
  defines "fs' \<equiv> fold rm_dir (map abspath qs) fs"
  shows "cache_ok c fs' \<and> same_env fs fs' \<and> fs_inodes fs' = fs_inodes fs \<and> file_at fs' = file_at fs
    \<and> (\<forall>p. node_at fs' p = node_at fs p \<or> (p \<in> set qs \<and> node_at fs' p = None))"
  using assms(1,2,4) unfolding fs'_def
proof (induction qs arbitrary: fs)
  case (Cons q qs)
  let ?fs = "rm_dir (abspath q) fs"
  have rm: "os_Remove fs (abspath q) = (fst (os_Remove fs (abspath q)), ?fs)" by (simp add: rm_dir_def)
  have qd: "q \<in> shard_dirs c g" using Cons.prems(2) by simp
  note e = remove_dir_effect(1-4,6) [OF Cons.prems(1) qd Cons.prems(3) assms(3) rm]
    remove_dir_effect(5) [OF Cons.prems(1) qd Cons.prems(3) assms(3) rm]
  have "node_at ?fs p = None \<or> node_at ?fs p = Some DirNode" if "p \<in> set qs" for p
    using Cons.prems(3) [of p] Cons.prems(3) [of q] that e(5,6) by (cases "p = q") auto
  from Cons.IH [OF e(1) _ this] Cons.prems(2) e same_env_trans [OF e(2)] show ?case
    by (auto; metis)
qed simp

lemma length_abspath_mono: "strict_prefix p q \<Longrightarrow> p \<noteq> [] \<Longrightarrow> length (abspath p) < length (abspath q)"
  by (auto simp: strict_prefix_def prefix_def abspath_def)

lemma prune_complete:
  assumes "cache_ok c fs" and "set qs \<subseteq> shard_dirs c g" and "cache_ok c g" and "fault_free fs"
    and "\<And>q. q \<in> set qs \<Longrightarrow> node_at fs q = None \<or> node_at fs q = Some DirNode"
    and "sorted_wrt (\<lambda>a b. length (abspath b) \<le> length (abspath a)) qs"
    and "\<And>p. p \<in> shard_dirs c fs \<Longrightarrow> p \<in> set qs \<or> has_file_below fs p"
    and "p \<in> shard_dirs c (fold rm_dir (map abspath qs) fs)"
  shows "has_file_below (fold rm_dir (map abspath qs) fs) p"
  using assms(1,2,4-8)
proof (induction qs arbitrary: fs)
  case (Cons q qs)
  let ?fs = "rm_dir (abspath q) fs"
  have rm: "os_Remove fs (abspath q) = (fst (os_Remove fs (abspath q)), ?fs)" by (simp add: rm_dir_def)
  have qd: "q \<in> shard_dirs c g" using Cons.prems(2) by simp
  note e = remove_dir_effect(1-4,6) [OF Cons.prems(1) qd Cons.prems(4) assms(3) rm]
    remove_dir_effect(5) [OF Cons.prems(1) qd Cons.prems(4) assms(3) rm]
  have ne: "q \<noteq> []" by (rule below_root(2) [OF assms(3), of q DirNode]) (use qd in \<open>simp_all add: shard_dirs_def\<close>)
  have below: "has_file_below ?fs p = has_file_below fs p" for p by (simp add: has_file_below_def e(4))
  have nodes: "node_at ?fs p = None \<or> node_at ?fs p = Some DirNode" if "p \<in> set qs" for p
    using Cons.prems(4) [of p] Cons.prems(4) [of q] that e(5,6) by (cases "p = q") auto
  have closed: "p \<in> set qs \<or> has_file_below ?fs p" if "p \<in> shard_dirs c ?fs" for p
  proof (cases "p = q")
    case False
    with that e(6) have "p \<in> shard_dirs c fs" by (simp add: shard_dirs_def)
    with Cons.prems(6) False below show ?thesis by auto
  next
    case True
    with that e(5) Cons.prems(3) have "has_child (fs_nodes fs) q" and qf: "node_at fs q = Some DirNode"
      by (auto simp: shard_dirs_def)
    then obtain x n where x: "node_at fs x = Some n" "strict_prefix q x"
      using has_child_iff [OF fs_okD(1) [OF cache_okD(2) [OF Cons.prems(1)]]] by blast
    have "has_file_below fs q"
    proof (cases n)
      case (FileNode i)
      with x show ?thesis by (auto simp: has_file_below_def)
    next
      case DirNode
      have "prefix (croot c) x"
        using x(2) qd unfolding shard_dirs_def strict_prefix_def by (blast intro: prefix_order.trans)
      moreover from qd obtain r where "q = croot c @ r" "r \<noteq> []" by (auto simp: shard_dirs_def prefix_def)
      then have "x \<noteq> croot c" "x \<noteq> tmp_path c"
        using x(2) by (auto simp: strict_prefix_def prefix_def tmp_path_def append_eq_Cons_conv)
      ultimately have "x \<in> shard_dirs c fs" using x(1) DirNode by (simp add: shard_dirs_def)
      moreover have "x \<notin> set (q # qs)"
        using length_abspath_mono [OF x(2) ne] Cons.prems(5) by auto
      ultimately have "has_file_below fs x" using Cons.prems(6) by blast
      then show ?thesis using x(2) by (meson has_file_below_def prefix_order.less_trans)
    qed
    then show ?thesis using below True by simp
  qed
  have s: "set qs \<subseteq> shard_dirs c g" and ff: "fault_free ?fs"
    and srt: "sorted_wrt (\<lambda>a b. length (abspath b) \<le> length (abspath a)) qs"
    and p: "p \<in> shard_dirs c (fold rm_dir (map abspath qs) ?fs)"
    using Cons.prems(2,3,5,7) fault_free_env [OF e(2)] by simp_all
  from Cons.IH [OF e(1) s ff nodes srt closed p] show ?case by simp
next
  case Nil
  then show ?case by auto
qed

lemma pruneEmptyDirs_eq: "pruneEmptyDirs ds fs = fold rm_dir (sort_func longer_first ds) fs"
  by (simp add: pruneEmptyDirs_def rm_dir_def [abs_def])

lemma sorted_longer_first:
  "sorted_wrt (\<lambda>a b. length b \<le> length a) (sort_func longer_first ds)"
  using longest_first.sorted_sort_func [of ds] by (simp add: longer_first_def)

lemma map_preimage: "set xs \<subseteq> f ` A \<Longrightarrow> \<exists>ys. xs = map f ys \<and> set ys \<subseteq> A"
proof (induction xs)
  case (Cons x xs)
  then obtain ys a where "xs = map f ys" "set ys \<subseteq> A" "x = f a" "a \<in> A" by auto
  then show ?case by (intro exI [of _ "a # ys"]) simp
qed simp

lemma prune_effect:
  assumes "cache_ok c fs" and "set qs \<subseteq> shard_dirs c fs"
  defines "fs' \<equiv> pruneEmptyDirs (map abspath qs) fs"
  shows "cache_ok c fs'" and "same_env fs fs'" and "fs_inodes fs' = fs_inodes fs" and "file_at fs' = file_at fs"
    and "fault_free fs \<Longrightarrow> shard_dirs c fs \<subseteq> set qs \<Longrightarrow> p \<in> shard_dirs c fs' \<Longrightarrow> has_file_below fs' p"
proof -
  have "set (sort_func longer_first (map abspath qs)) \<subseteq> abspath ` shard_dirs c fs" using assms(2) by auto
  from map_preimage [OF this] obtain ys where ys: "sort_func longer_first (map abspath qs) = map abspath ys"
    "set ys \<subseteq> shard_dirs c fs" by blast
  have nodes: "y \<in> set ys \<Longrightarrow> node_at fs y = None \<or> node_at fs y = Some DirNode" for y
    using ys(2) by (auto simp: shard_dirs_def)
  from rm_dirs_effect [OF assms(1) ys(2) assms(1) nodes]
  show "cache_ok c fs'" "same_env fs fs'" "fs_inodes fs' = fs_inodes fs" "file_at fs' = file_at fs"
    by (simp_all add: fs'_def pruneEmptyDirs_eq ys(1))
  assume ff: "fault_free fs" and all: "shard_dirs c fs \<subseteq> set qs" and p: "p \<in> shard_dirs c fs'"
  have "q \<in> set ys" if "q \<in> shard_dirs c fs" for q
  proof -
    have "abspath q \<in> set (map abspath ys)" using that all ys(1) [symmetric] by auto
    then obtain y where "y \<in> set ys" "abspath q = abspath y" by auto
    moreover have "segs (abspath q) = q" "segs (abspath y) = y"
      using below_root [OF assms(1)] that ys(2) \<open>y \<in> set ys\<close> by (auto simp: shard_dirs_def)
    ultimately show ?thesis by metis
  qed
  moreover have "sorted_wrt (\<lambda>a b. length (abspath b) \<le> length (abspath a)) ys"
    using sorted_longer_first [of "map abspath qs"] by (simp add: ys(1) sorted_wrt_map)
  ultimately show "has_file_below fs' p"
    using prune_complete [OF assms(1) ys(2) assms(1) ff nodes, of p] p
    by (simp add: fs'_def pruneEmptyDirs_eq ys(1))
qed

section \<open>The whole sweep\<close>

lemma stale_same_store: "same_store fs fs' \<Longrightarrow> stale t fs' = stale t fs"
  by (simp add: stale_def fun_eq_iff same_storeD)

lemma sweep_cache_effect:
  assumes "walk_list c (evict_file cutoff) evict_dir (walk_order fs (croot c))
      (\<lparr>removed = 0, removedEntries = 0, removedBytes = 0, dirs = []\<rparr>, fs) = (e, st, fs')"
    and "cache_ok c fs"
  defines "old \<equiv> {p. prefix (croot c) p \<and> stale cutoff fs p}"
  shows "\<exists>R ds. R \<subseteq> old \<and> finite R \<and> file_at fs' = (\<lambda>p. if p \<in> R then None else file_at fs p)
    \<and> fs_inodes fs' = fs_inodes fs \<and> cache_ok c fs' \<and> same_env fs fs'
    \<and> removed st = int (card R) \<and> removedEntries st = int (card (R \<inter> entry_paths c fs))
    \<and> removedBytes st = (\<Sum>p \<in> R \<inter> entry_paths c fs. entry_size fs p)
    \<and> dirs st = map abspath ds \<and> set ds \<subseteq> shard_dirs c fs'
    \<and> (fault_free fs \<longrightarrow> e = None \<and> R = old \<and> shard_dirs c fs' \<subseteq> set ds)"
proof -
  note wo = set_walk_order [OF cache_okD(2) [OF assms(2)], of "croot c"]
  from evict_walk [OF assms(2) wo(2) _ assms(1)] wo(1) obtain R where
    R: "swept c cutoff (walk_order fs (croot c)) R fs fs' \<lparr>removed = 0, removedEntries = 0, removedBytes = 0, dirs = []\<rparr> st"
    and ff: "fault_free fs \<longrightarrow> e = None
      \<and> swept_all c cutoff (walk_order fs (croot c)) R fs \<lparr>removed = 0, removedEntries = 0, removedBytes = 0, dirs = []\<rparr> st"
    by auto
  note sw = R [unfolded swept_def]
  have keep: "node_at fs' q = Some DirNode \<longleftrightarrow> node_at fs q = Some DirNode" for q
    using sw by (auto simp: stale_iff)
  obtain ds where ds: "dirs st = map abspath ds" "set ds \<subseteq> shard_dirs c fs'" "fault_free fs \<longrightarrow> shard_dirs c fs' \<subseteq> set ds"
  proof (cases "fault_free fs")
    case True
    let ?ds = "listed c fs (walk_order fs (croot c))"
    have "dirs st = map abspath ?ds" using ff True by (simp add: swept_all_def)
    moreover have "set ?ds = shard_dirs c fs'" by (auto simp: listed_def shard_dirs_def wo(1) keep)
    ultimately show ?thesis using that by blast
  next
    case False
    from sw obtain ds where "dirs st = map abspath ds"
      "set ds \<subseteq> {q \<in> set (walk_order fs (croot c)). node_at fs q = Some DirNode \<and> q \<noteq> croot c \<and> q \<noteq> tmp_path c}"
      by auto
    with that [of ds] False show ?thesis by (auto simp: shard_dirs_def wo(1) keep)
  qed
  have "finite R" using sw finite_subset [of R "set (walk_order fs (croot c))"] by auto
  moreover have "R \<subseteq> old" "fault_free fs \<longrightarrow> R = old"
    using sw ff by (auto simp: old_def wo(1) swept_all_def stale_iff)
  moreover have "file_at fs' = (\<lambda>p. if p \<in> R then None else file_at fs p)" using sw by (auto simp: fun_eq_iff file_at_def)
  ultimately show ?thesis using sw ff ds by (intro exI [of _ R] exI [of _ ds]) simp
qed

lemma Evict_effect:
  assumes "Evict c maxUnused w = ((n, err), w')" and "cache_ok c (w_fs w)"
  defines "fs \<equiv> w_fs w" and "fs' \<equiv> w_fs w'"
  defines "old \<equiv> {p. prefix (croot c) p \<and> stale (time_Now fs - maxUnused) fs p}"
  shows "\<exists>R \<subseteq> old. file_at fs' = (\<lambda>p. if p \<in> R then None else file_at fs p) \<and> fs_inodes fs' = fs_inodes fs
    \<and> cache_ok c fs' \<and> same_env fs fs' \<and> finite R \<and> n = int (card R)
    \<and> (err \<noteq> None \<longrightarrow> w_met w' = w_met w)
    \<and> (err = None \<longrightarrow> w_met w' = met_evicted (\<Sum>p \<in> R \<inter> entry_paths c fs. entry_size fs p)
          (int (card (R \<inter> entry_paths c fs))) (time_Now fs') (w_met w))
    \<and> (fault_free fs \<longrightarrow> err = None \<and> R = old \<and> (\<forall>p \<in> shard_dirs c fs'. has_file_below fs' p))"
proof -
  note ok = assms(2) [folded fs_def]
  let ?cutoff = "time_Now fs - maxUnused"
  let ?st0 = "\<lparr>removed = 0, removedEntries = 0, removedBytes = 0, dirs = []\<rparr>"
  obtain x fs1 where st: "os_Stat fs (c_root c) = (x, fs1)" by fastforce
  note s1 = read_only_calls(1) [OF st]
  note S1 = same_storeD [OF s1] same_store_entries [OF s1] stale_same_store [OF s1]
  have ok1: "cache_ok c fs1" using ok same_store_cache_ok [OF s1] by simp
  show ?thesis
  proof (cases x)
    case (Inl e)
    have "node_at fs (croot c) = Some DirNode"
      by (rule cache_ok_root_dir [OF ok]) (simp add: tmp_path_def)
    with st Inl have nff: "\<not> fault_free fs" by (auto simp: os_Stat_def fault_free_def elim!: syscall_cases)
    have "n = 0" "w' = w\<lparr>w_fs := fs1\<rparr>" "err \<noteq> None"
      using assms(1) st Inl by (auto simp: Evict_def walkFiles_def Let_def fs_def)
    then show ?thesis
      using S1 ok1 nff by (intro exI [of _ "{}"]) (auto simp: fs'_def)
  next
    case (Inr info)
    obtain e st2 fs2 where wl: "walk_list c (evict_file ?cutoff) evict_dir (walk_order fs1 (croot c)) (?st0, fs1) = (e, st2, fs2)"
      by (metis prod.collapse)
    have "file_at fs1 = file_at fs" by (simp add: fun_eq_iff file_at_def S1(1))
    with sweep_cache_effect [OF wl ok1, unfolded S1(2) same_store_entries [OF s1] stale_same_store [OF s1], folded old_def]
    obtain R ds where R: "R \<subseteq> old" "finite R"
      "file_at fs2 = (\<lambda>p. if p \<in> R then None else file_at fs p)" "fs_inodes fs2 = fs_inodes fs" "cache_ok c fs2"
      and env: "same_env fs1 fs2" and counts: "removed st2 = int (card R)"
      "removedEntries st2 = int (card (R \<inter> entry_paths c fs))" "removedBytes st2 = (\<Sum>p \<in> R \<inter> entry_paths c fs. entry_size fs p)"
      and ds: "dirs st2 = map abspath ds" "set ds \<subseteq> shard_dirs c fs2"
      and ff: "fault_free fs1 \<longrightarrow> e = None \<and> R = old \<and> shard_dirs c fs2 \<subseteq> set ds"
      by (elim exE conjE) simp
    note env2 = same_env_trans [OF S1(7) env]
    note ff' = fault_free_env [OF S1(7)] fault_free_env [OF env2]
    show ?thesis
    proof (cases e)
      case (Some e')
      then have "n = int (card R)" "w' = w\<lparr>w_fs := fs2\<rparr>" "err \<noteq> None" "\<not> fault_free fs"
        using assms(1) st Inr wl ff counts ff' by (auto simp: Evict_def walkFiles_def Let_def fs_def)
      with R env2 show ?thesis by (intro exI [of _ R]) (auto simp: fs'_def)
    next
      case None
      let ?fs3 = "pruneEmptyDirs (dirs st2) fs2"
      have w': "n = int (card R)" "err = None" "w' = \<lparr>w_fs = ?fs3, w_met = met_evicted (removedBytes st2)
          (removedEntries st2) (time_Now ?fs3) (w_met w)\<rparr>"
        using assms(1) st Inr wl None counts by (auto simp: Evict_def walkFiles_def Let_def fs_def)
      note pr = prune_effect [OF R(5) ds(2), folded ds(1)]
      from w' R pr ff ff' counts same_env_trans [OF env2] show ?thesis
        by (intro exI [of _ R]) (auto simp: fs'_def)
    qed
  qed
qed

section \<open>The cache as a store of entries\<close>

text \<open>
  What the clients of the cache rely on: a commit replaces one entry by the staged bytes
  and nothing else, or changes no entry; a lookup changes no entry, and what it returns
  reads as the entry.
\<close>

locale entry_store =
  fixes inv :: "'s \<Rightarrow> bool"
    and entry :: "'s \<Rightarrow> 'a \<Rightarrow> bytes option"
    and held :: "'s \<Rightarrow> 'h \<Rightarrow> bytes option"
    and addr :: "'k \<Rightarrow> 'a"
    and commit :: "'h \<Rightarrow> 'k \<Rightarrow> 's \<Rightarrow> goerr option \<times> 's"
    and lookup :: "'k \<Rightarrow> 's \<Rightarrow> 'f option result \<times> 's"
    and read_back :: "'s \<Rightarrow> 'f \<Rightarrow> bytes"
  assumes commit_inv: "inv s \<Longrightarrow> held s h = Some b \<Longrightarrow> commit h k s = (r, s') \<Longrightarrow> inv s'"
    and commit_entry: "inv s \<Longrightarrow> held s h = Some b \<Longrightarrow> commit h k s = (None, s') \<Longrightarrow>
      entry s' = (entry s)(addr k := Some b)"
    and commit_fail: "inv s \<Longrightarrow> held s h = Some b \<Longrightarrow> commit h k s = (Some e, s') \<Longrightarrow> entry s' = entry s"
    and lookup_inv: "inv s \<Longrightarrow> lookup k s = (q, s') \<Longrightarrow> inv s' \<and> entry s' = entry s"
    and lookup_hit: "inv s \<Longrightarrow> lookup k s = (Inr (Some f), s') \<Longrightarrow> entry s (addr k) = Some (read_back s' f)"
    and lookup_miss: "inv s \<Longrightarrow> lookup k s = (Inr None, s') \<Longrightarrow> entry s (addr k) = None"
begin

text \<open>The bytes a lookup answers with.\<close>

definition answer :: "'s \<Rightarrow> 'f option \<Rightarrow> bytes option" where
  "answer s q = map_option (read_back s) q"

lemma lookup_answer: "inv s \<Longrightarrow> lookup k s = (Inr q, s') \<Longrightarrow> answer s' q = entry s (addr k)"
  using lookup_hit lookup_miss by (cases q) (auto simp: answer_def)

lemma lookup_after_commit:
  assumes "inv s" and "held s h = Some b" and "commit h k s = (r, s1)" and "lookup k' s1 = (Inr q, s2)"
  shows "answer s2 q = (if r = None \<and> addr k' = addr k then Some b else entry s (addr k'))"
proof -
  from lookup_answer [OF commit_inv [OF assms(1-3)] assms(4)] have a: "answer s2 q = entry s1 (addr k')" .
  show ?thesis
  proof (cases r)
    case None
    with a commit_entry [OF assms(1,2)] assms(3) show ?thesis by simp
  next
    case (Some e)
    with a commit_fail [OF assms(1,2)] assms(3) show ?thesis by simp
  qed
qed

end

text \<open>The roles the object service uses.\<close>

datatype cache_role = RoleObjects | RoleRawCompressed | RoleCabSynth

fun role_name :: "cache_role \<Rightarrow> string" where
  "role_name RoleObjects = ''objects''"
| "role_name RoleRawCompressed = ''raw_compressed''"
| "role_name RoleCabSynth = ''cab_synth''"

lemma role_ok_name [simp]: "role_ok (role_name r)"
  by (cases r) (simp_all add: role_ok_def seg_ok_def tmpSubdir_def)

lemma role_name_inject [simp]: "role_name r = role_name q \<longleftrightarrow> r = q"
  by (cases r; cases q) simp_all

type_synonym cache_addr = "cache_role \<times> string \<times> string"

definition cache_entry :: "cache \<Rightarrow> world \<Rightarrow> path \<Rightarrow> bytes option" where
  "cache_entry c w p = (if prefix (croot c) p \<and> butlast p \<noteq> tmp_path c then content_at (w_fs w) p else None)"

definition staged_bytes :: "cache \<Rightarrow> world \<Rightarrow> osfile \<Rightarrow> bytes option" where
  "staged_bytes c w f =
     (if segs (f_Name f) \<noteq> [] \<and> butlast (segs (f_Name f)) = tmp_path c \<and> f_Name f = abspath (segs (f_Name f))
         \<and> seg_ok (last (segs (f_Name f))) \<and> node_at (w_fs w) (segs (f_Name f)) = Some (FileNode (f_ino f))
      then Some (ino_data (fs_inodes (w_fs w) (f_ino f))) else None)"

definition entry_addr :: "(bytes \<Rightarrow> bytes) \<Rightarrow> cache \<Rightarrow> cache_addr \<Rightarrow> path" where
  "entry_addr sha c k = (case k of (role, ident, inner) \<Rightarrow> entry_path sha c (role_name role) ident inner)"

definition commit_at :: "(bytes \<Rightarrow> bytes) \<Rightarrow> cache \<Rightarrow> osfile \<Rightarrow> cache_addr \<Rightarrow> world \<Rightarrow> goerr option \<times> world" where
  "commit_at sha c tmp k w = (case k of (role, ident, inner) \<Rightarrow> Commit sha c tmp (role_name role) ident inner w)"

definition lookup_at :: "(bytes \<Rightarrow> bytes) \<Rightarrow> cache \<Rightarrow> cache_addr \<Rightarrow> world
    \<Rightarrow> (osfile \<times> fileinfo) option result \<times> world" where
  "lookup_at sha c k w =
     (case k of (role, ident, inner) \<Rightarrow>
      (case cache_Lookup sha c (role_name role) ident inner (w_fs w) of (r, fs') \<Rightarrow> (r, w\<lparr>w_fs := fs'\<rparr>)))"

definition handle_bytes :: "world \<Rightarrow> osfile \<times> fileinfo \<Rightarrow> bytes" where
  "handle_bytes w f = ino_data (fs_inodes (w_fs w) (f_ino (fst f)))"

lemma staged_bytes_iff:
  assumes "root_ok c"
  shows "staged_bytes c w f = Some b \<longleftrightarrow> staged c (w_fs w) f \<and> b = ino_data (fs_inodes (w_fs w) (f_ino f))"
proof
  assume "staged_bytes c w f = Some b"
  then have s: "segs (f_Name f) \<noteq> []" "butlast (segs (f_Name f)) = tmp_path c" "f_Name f = abspath (segs (f_Name f))"
    "seg_ok (last (segs (f_Name f)))" "node_at (w_fs w) (segs (f_Name f)) = Some (FileNode (f_ino f))"
    and b: "b = ino_data (fs_inodes (w_fs w) (f_ino f))"
    by (auto simp: staged_bytes_def split: if_splits)
  from s(1,2) have "segs (f_Name f) = tmp_path c @ [last (segs (f_Name f))]" by (metis append_butlast_last_id)
  with s b show "staged c (w_fs w) f \<and> b = ino_data (fs_inodes (w_fs w) (f_ino f))"
    unfolding staged_def by metis
next
  assume "staged c (w_fs w) f \<and> b = ino_data (fs_inodes (w_fs w) (f_ino f))"
  then obtain x where "seg_ok x" "f_Name f = abspath (tmp_path c @ [x])"
    "node_at (w_fs w) (tmp_path c @ [x]) = Some (FileNode (f_ino f))" "b = ino_data (fs_inodes (w_fs w) (f_ino f))"
    by (auto simp: staged_def)
  then show "staged_bytes c w f = Some b"
    using segs_tmp_name [OF assms, of x] by (simp add: staged_bytes_def)
qed

lemma entry_addr_path:
  shows "prefix (croot c) (entry_addr sha c k)" and "butlast (entry_addr sha c k) \<noteq> tmp_path c"
  by (auto simp: entry_addr_def entry_path_def Let_def tmp_path_def butlast_append split: prod.splits)

lemma cache_entry_files:
  assumes "file_at (w_fs w') = file_at (w_fs w)" and "fs_inodes (w_fs w') = fs_inodes (w_fs w)"
  shows "cache_entry c w' = cache_entry c w"
  using assms by (simp add: fun_eq_iff cache_entry_def content_at_file)

interpretation disk: entry_store "\<lambda>w. cache_ok c (w_fs w) \<and> sha_ok sha" "cache_entry c" "staged_bytes c"
  "entry_addr sha c" "commit_at sha c" "lookup_at sha c" handle_bytes for sha c
proof -
  have main: "cache_ok c (w_fs s') \<and> (r \<noteq> None \<longrightarrow> cache_entry c s' = cache_entry c s)
      \<and> (r = None \<longrightarrow> cache_entry c s' = (cache_entry c s)(entry_addr sha c k := Some b))"
    if inv: "cache_ok c (w_fs s) \<and> sha_ok sha" and held: "staged_bytes c s h = Some b"
      and commit: "commit_at sha c h k s = (r, s')" for s h b k r s'
  proof -
    obtain role ident inner where k: "k = (role, ident, inner)" by (cases k)
    note root = cache_okD(1) [OF conjunct1 [OF inv]]
    from held have st: "staged c (w_fs s) h" and b: "b = ino_data (fs_inodes (w_fs s) (f_ino h))"
      by (simp_all add: staged_bytes_iff [OF root])
    from commit have "Commit sha c h (role_name role) ident inner s = (r, s')" by (simp add: commit_at_def k)
    note eff = Commit_effect [OF this conjunct1 [OF inv] st conjunct2 [OF inv] role_ok_name]
    have "cache_entry c s' = cache_entry c s" if "r \<noteq> None"
      using eff(3,4) that by (intro cache_entry_files) simp_all
    moreover have "cache_entry c s' = (cache_entry c s)(entry_addr sha c k := Some b)" if "r = None"
    proof
      fix p
      obtain x where x: "segs (f_Name h) = tmp_path c @ [x]" using stagedD [OF st root] by blast
      from eff(5) [OF that] eff(3) x b show "cache_entry c s' p = ((cache_entry c s)(entry_addr sha c k := Some b)) p"
        using entry_addr_path [where c = c and sha = sha and k = k]
        by (auto simp: cache_entry_def content_at_file entry_addr_def k)
    qed
    ultimately show ?thesis using eff(1) by blast
  qed
  have look: "cache_ok c (w_fs s') \<and> cache_entry c s' = cache_entry c s
      \<and> (\<forall>f. q = Inr (Some f) \<longrightarrow> cache_entry c s (entry_addr sha c k) = Some (handle_bytes s' f))
      \<and> (q = Inr None \<longrightarrow> cache_entry c s (entry_addr sha c k) = None)"
    if inv: "cache_ok c (w_fs s) \<and> sha_ok sha" and l: "lookup_at sha c k s = (q, s')" for s k q s'
  proof -
    obtain role ident inner where k: "k = (role, ident, inner)" by (cases k)
    from l obtain fs' where l: "cache_Lookup sha c (role_name role) ident inner (w_fs s) = (q, fs')"
      and s': "s' = s\<lparr>w_fs := fs'\<rparr>" by (auto simp: lookup_at_def k split: prod.splits)
    note e = cache_Lookup_effect [OF l cache_okD(1) [OF conjunct1 [OF inv]] conjunct2 [OF inv] role_ok_name]
    have "cache_ok c fs'" using inv e(1,4) by (simp add: cache_ok_def)
    moreover have "cache_entry c s' = cache_entry c s" by (simp add: fun_eq_iff cache_entry_def s' e(5))
    moreover have "cache_entry c s (entry_addr sha c k) = Some (handle_bytes s' f)" if "q = Inr (Some f)" for f
      using e(7) [of "fst f" "snd f"] that entry_addr_path [where c = c and sha = sha and k = k]
      by (simp add: cache_entry_def content_at_def handle_bytes_def s' e(6) entry_addr_def k)
    moreover have "cache_entry c s (entry_addr sha c k) = None" if "q = Inr None"
      using e(8) that by (simp add: cache_entry_def content_at_def entry_addr_def k)
    ultimately show ?thesis by (simp add: s')
  qed
  show "entry_store (\<lambda>w. cache_ok c (w_fs w) \<and> sha_ok sha) (cache_entry c) (staged_bytes c)
      (entry_addr sha c) (commit_at sha c) (lookup_at sha c) handle_bytes"
    by unfold_locales (use main look in blast)+
qed

section \<open>The gauges\<close>

definition gauges_exact :: "cache \<Rightarrow> world \<Rightarrow> bool" where
  "gauges_exact c w \<longleftrightarrow> gauges (w_met w) = (total_size c (w_fs w), entry_count c (w_fs w))"

lemma entry_pathsD: "p \<in> entry_paths c fs \<Longrightarrow> \<exists>i. file_at fs p = Some i"
  by (auto simp: entry_paths_def simp del: file_at_Some)

lemma entry_size_None: "file_at fs p = None \<Longrightarrow> entry_size fs p = 0"
  by (simp add: entry_size_def)

lemma entry_paths_files: "file_at fs' = file_at fs \<Longrightarrow> entry_paths c fs' = entry_paths c fs"
  by (simp add: entry_paths_def)

lemma entry_size_files:
  "file_at fs' = file_at fs \<Longrightarrow> fs_inodes fs' = fs_inodes fs \<Longrightarrow> entry_size fs' = entry_size fs"
  by (simp add: fun_eq_iff entry_size_def cong: option.case_cong)

lemma totals_files:
  assumes "file_at fs' = file_at fs" and "\<And>p. p \<in> entry_paths c fs \<Longrightarrow> entry_size fs' p = entry_size fs p"
  shows "total_size c fs' = total_size c fs" and "entry_count c fs' = entry_count c fs"
  using assms entry_paths_files [OF assms(1)] by (simp_all add: total_size_def entry_count_def cong: sum.cong)

text \<open>Moving a staging file onto an entry.\<close>

lemma totals_commit:
  assumes "file_at fs' = (file_at fs)(t := None, e := Some i)" and "fs_inodes fs' = fs_inodes fs"
    and "butlast t = tmp_path c" and "prefix (croot c) e" and "butlast e \<noteq> tmp_path c"
  shows "total_size c fs' = total_size c fs - entry_size fs e + int (length (ino_data (fs_inodes fs i)))"
    and "entry_count c fs' = entry_count c fs + (if file_at fs e = None then 1 else 0)"
proof -
  have ne: "e \<noteq> t" using assms(3,5) by auto
  have paths: "entry_paths c fs' = insert e (entry_paths c fs)"
    using assms(1,3,4,5) by (auto simp: entry_paths_def)
  have sz: "entry_size fs' p = entry_size fs p" if "p \<in> entry_paths c fs - {e}" for p
    using that assms(1,2,3) by (auto simp: entry_size_def entry_paths_def cong: option.case_cong)
  have sz_e: "entry_size fs' e = int (length (ino_data (fs_inodes fs i)))"
    using assms(1,2) by (simp add: entry_size_def)
  have old: "e \<in> entry_paths c fs \<longleftrightarrow> file_at fs e \<noteq> None"
    using assms(4,5) by (simp add: entry_paths_def)
  have "total_size c fs' = entry_size fs' e + (\<Sum>p \<in> entry_paths c fs - {e}. entry_size fs' p)"
    unfolding total_size_def paths by (simp add: sum.insert_remove)
  also have "(\<Sum>p \<in> entry_paths c fs - {e}. entry_size fs' p) = (\<Sum>p \<in> entry_paths c fs - {e}. entry_size fs p)"
    using sz by (rule sum.cong [OF refl])
  also have "\<dots> = total_size c fs - entry_size fs e"
  proof (cases "e \<in> entry_paths c fs")
    case True
    then show ?thesis by (simp add: total_size_def sum_diff1)
  next
    case False
    with old entry_size_None [of fs e] have "entry_size fs e = 0" by blast
    with False show ?thesis by (simp add: total_size_def)
  qed
  finally show "total_size c fs' = total_size c fs - entry_size fs e + int (length (ino_data (fs_inodes fs i)))"
    by (simp add: sz_e)
  show "entry_count c fs' = entry_count c fs + (if file_at fs e = None then 1 else 0)"
    using old by (auto simp: entry_count_def paths card_insert_if)
qed

lemma totals_removed:
  assumes "file_at fs' = (\<lambda>p. if p \<in> R then None else file_at fs p)" and "fs_inodes fs' = fs_inodes fs"
  shows "total_size c fs' = total_size c fs - (\<Sum>p \<in> R \<inter> entry_paths c fs. entry_size fs p)"
    and "entry_count c fs' = entry_count c fs - int (card (R \<inter> entry_paths c fs))"
proof -
  let ?R = "R \<inter> entry_paths c fs"
  have paths: "entry_paths c fs' = entry_paths c fs - ?R"
    using assms(1) by (auto simp: entry_paths_def)
  have sz: "entry_size fs' p = entry_size fs p" if "p \<in> entry_paths c fs - ?R" for p
    using that assms by (auto simp: entry_size_def cong: option.case_cong)
  have "total_size c fs' = (\<Sum>p \<in> entry_paths c fs - ?R. entry_size fs p)"
    unfolding total_size_def paths using sz by (rule sum.cong [OF refl])
  then show "total_size c fs' = total_size c fs - (\<Sum>p \<in> ?R. entry_size fs p)"
    by (simp add: total_size_def sum_diff)
  show "entry_count c fs' = entry_count c fs - int (card ?R)"
    by (simp add: entry_count_def paths card_Diff_subset of_nat_diff card_mono)
qed

lemma Commit_gauges:
  assumes "Commit sha c tmp role ident inner w = (r, w')" and "cache_ok c (w_fs w)" and "staged c (w_fs w) tmp"
    and "sha_ok sha" and "role_ok role" and "gauges_exact c w"
    and "fault_free (w_fs w) \<or> file_at (w_fs w) (entry_path sha c role ident inner) = None"
  shows "gauges_exact c w'"
proof -
  note eff = Commit_effect [OF assms(1-5)]
  let ?e = "entry_path sha c role ident inner"
  show ?thesis
  proof (cases r)
    case (Some err)
    with eff(4) have f: "file_at (w_fs w') = file_at (w_fs w)" and m: "w_met w' = w_met w" by simp_all
    from totals_files [OF f, of c] entry_size_files [OF f eff(3)] assms(6) show ?thesis
      by (simp add: gauges_exact_def m)
  next
    case None
    obtain x where t: "segs (f_Name tmp) = tmp_path c @ [x]" using stagedD [OF assms(3) cache_okD(1) [OF assms(2)]] .
    have "prefix (croot c) ?e" "butlast ?e \<noteq> tmp_path c"
      by (auto simp: entry_path_def Let_def tmp_path_def butlast_append)
    with totals_commit [OF eff(5) [OF None] eff(3)] t
    have "total_size c (w_fs w') = total_size c (w_fs w) - entry_size (w_fs w) ?e
        + int (length (ino_data (fs_inodes (w_fs w) (f_ino tmp))))"
      "entry_count c (w_fs w') = entry_count c (w_fs w) + (if file_at (w_fs w) ?e = None then 1 else 0)" by simp_all
    then show ?thesis
      using eff(6) [OF None assms(7)] assms(6) by (simp add: gauges_exact_def gauges_def met_committed_def Let_def)
  qed
qed

lemma Evict_gauges:
  assumes "Evict c maxUnused w = ((n, None), w')" and "cache_ok c (w_fs w)" and "gauges_exact c w"
  shows "gauges_exact c w'"
proof -
  from Evict_effect [OF assms(1,2)] obtain R where
    R: "file_at (w_fs w') = (\<lambda>p. if p \<in> R then None else file_at (w_fs w) p)"
    "fs_inodes (w_fs w') = fs_inodes (w_fs w)"
    and m: "w_met w' = met_evicted (\<Sum>p \<in> R \<inter> entry_paths c (w_fs w). entry_size (w_fs w) p)
        (int (card (R \<inter> entry_paths c (w_fs w)))) (time_Now (w_fs w')) (w_met w)" by auto
  from totals_removed [OF R, of c] assms(3) show ?thesis
    by (simp add: gauges_exact_def gauges_def m met_evicted_def)
qed

section \<open>Runs of the cache\<close>

text \<open>
  One operation of the cache by any of its users: a lookup, a new staging file, a write to
  a staging file, a commit, the removal of a staging file, a probe, a sweep; or something
  else the program does in between: a call that only reads, another collector counting.
\<close>

inductive cache_step :: "(bytes \<Rightarrow> bytes) \<Rightarrow> cache \<Rightarrow> world \<Rightarrow> world \<Rightarrow> bool" for sha c where
  step_lookup: "role_ok role \<Longrightarrow> cache_Lookup sha c role ident inner (w_fs w) = (r, fs') \<Longrightarrow>
     cache_step sha c w (w\<lparr>w_fs := fs'\<rparr>)"
| step_temp: "NewTemp c (w_fs w) = (r, fs') \<Longrightarrow> cache_step sha c w (w\<lparr>w_fs := fs'\<rparr>)"
| step_write: "staged c (w_fs w) f \<Longrightarrow> cache_step sha c w (w\<lparr>w_fs := (w_fs w)\<lparr>
     fs_inodes := (fs_inodes (w_fs w))(f_ino f := x), fs_ops := fs_ops (w_fs w) + k\<rparr>\<rparr>)"
| step_commit: "role_ok role \<Longrightarrow> staged c (w_fs w) f \<Longrightarrow> Commit sha c f role ident inner w = (r, w') \<Longrightarrow>
     cache_step sha c w w'"
| step_drop: "staged c (w_fs w) f \<Longrightarrow> os_Remove (w_fs w) (f_Name f) = (r, fs') \<Longrightarrow>
     cache_step sha c w (w\<lparr>w_fs := fs'\<rparr>)"
| step_probe: "Probe c (w_fs w) = (r, fs') \<Longrightarrow> cache_step sha c w (w\<lparr>w_fs := fs'\<rparr>)"
| step_evict: "Evict c maxUnused w = (r, w') \<Longrightarrow> cache_step sha c w w'"
| step_read: "same_store (w_fs w) fs' \<Longrightarrow> cache_step sha c w (w\<lparr>w_fs := fs'\<rparr>)"
| step_count: "gauges m = gauges (w_met w) \<Longrightarrow> cache_step sha c w (w\<lparr>w_met := m\<rparr>)"

inductive_cases cache_stepE: "cache_step sha c w w'"

lemma staged_not_entry:
  assumes "cache_ok c fs" and "staged c fs f" and "p \<in> entry_paths c fs"
  shows "file_at fs p \<noteq> Some (f_ino f)"
proof
  assume p: "file_at fs p = Some (f_ino f)"
  obtain x where x: "node_at fs (tmp_path c @ [x]) = Some (FileNode (f_ino f))"
    using stagedD [OF assms(2) cache_okD(1) [OF assms(1)]] .
  from fs_okD(5) [OF cache_okD(2) [OF assms(1)] _ x] p have "p = tmp_path c @ [x]" by simp
  with assms(3) show False by (simp add: entry_paths_def)
qed

text \<open>A new staging file, and its removal, touch no entry.\<close>

lemma NewTemp_entries:
  assumes "NewTemp c fs = (r, fs')" and "cache_ok c fs" and "rand_ok fs"
  shows "entry_paths c fs' = entry_paths c fs" and "p \<in> entry_paths c fs \<Longrightarrow> file_at fs' p = file_at fs p"
    and "p \<in> entry_paths c fs \<Longrightarrow> entry_size fs' p = entry_size fs p"
proof -
  note eff = NewTemp_effect [OF assms]
  have main: "entry_paths c fs' = entry_paths c fs \<and> (\<forall>p \<in> entry_paths c fs. file_at fs' p = file_at fs p
      \<and> entry_size fs' p = entry_size fs p)"
  proof (cases r)
    case (Inl e)
    with same_store_entries [OF eff(3)] show ?thesis by simp
  next
    case (Inr f)
    note n = eff(4) [OF this]
    obtain x where x: "segs (f_Name f) = tmp_path c @ [x]"
      using stagedD [OF conjunct1 [OF n] cache_okD(1) [OF assms(2)]] by blast
    have f: "file_at fs' = (file_at fs)(segs (f_Name f) := Some (f_ino f))"
      using n by (simp add: fun_eq_iff file_at_def)
    then have "entry_paths c fs' = entry_paths c fs" using n x by (auto simp: entry_paths_def file_at_def)
    moreover have "file_at fs' p = file_at fs p" "entry_size fs' p = entry_size fs p" if p: "p \<in> entry_paths c fs" for p
    proof -
      have pn: "p \<noteq> segs (f_Name f)" using p x by (auto simp: entry_paths_def)
      then show e: "file_at fs' p = file_at fs p" by (simp add: f)
      obtain i where i: "file_at fs p = Some i" using entry_pathsD [OF p] by blast
      then have "i < fs_next fs" using fs_okD(4) [OF cache_okD(2) [OF assms(2)]] by simp
      with n have "fs_inodes fs' i = fs_inodes fs i" by simp
      with e i show "entry_size fs' p = entry_size fs p" by (simp only: entry_size_def option.case)
    qed
    ultimately show ?thesis by blast
  qed
  then show "entry_paths c fs' = entry_paths c fs" "p \<in> entry_paths c fs \<Longrightarrow> file_at fs' p = file_at fs p"
    "p \<in> entry_paths c fs \<Longrightarrow> entry_size fs' p = entry_size fs p" by simp_all
qed

lemma remove_staged_entries:
  assumes "os_Remove fs (f_Name f) = (r, fs')" and "cache_ok c fs" and "staged c fs f"
  shows "entry_paths c fs' = entry_paths c fs" and "p \<in> entry_paths c fs \<Longrightarrow> file_at fs' p = file_at fs p"
    and "p \<in> entry_paths c fs \<Longrightarrow> entry_size fs' p = entry_size fs p"
proof -
  note eff = remove_staged_effect [OF assms]
  obtain x where x: "segs (f_Name f) = tmp_path c @ [x]"
    using stagedD [OF assms(3) cache_okD(1) [OF assms(2)]] by blast
  then have same: "file_at fs' p = file_at fs p" if "butlast p \<noteq> tmp_path c" for p
    using eff(4) that by auto
  moreover have "file_at fs' p = None" if "butlast p = tmp_path c" "file_at fs p = None" for p
    using eff(4) that by auto
  ultimately show "entry_paths c fs' = entry_paths c fs" unfolding entry_paths_def by metis
  show "p \<in> entry_paths c fs \<Longrightarrow> file_at fs' p = file_at fs p" using same by (simp add: entry_paths_def)
  then show "p \<in> entry_paths c fs \<Longrightarrow> entry_size fs' p = entry_size fs p" by (simp add: entry_size_def eff(3) cong: option.case_cong)
qed

lemma totals_entries:
  assumes "entry_paths c fs' = entry_paths c fs" and "\<And>p. p \<in> entry_paths c fs \<Longrightarrow> entry_size fs' p = entry_size fs p"
  shows "total_size c fs' = total_size c fs" and "entry_count c fs' = entry_count c fs"
  using assms by (simp_all add: total_size_def entry_count_def cong: sum.cong)

lemma Probe_effect:
  assumes "Probe c fs = (r, fs')" and "cache_ok c fs" and "rand_ok fs"
  shows "cache_ok c fs'" and "same_env fs fs'" and "entry_paths c fs' = entry_paths c fs"
    and "p \<in> entry_paths c fs \<Longrightarrow> entry_size fs' p = entry_size fs p"
    and "r = None \<Longrightarrow> node_at fs' = node_at fs"
proof -
  obtain rt fs1 where nt: "NewTemp c fs = (rt, fs1)" by fastforce
  note t = NewTemp_effect [OF nt assms(2,3)] NewTemp_entries [OF nt assms(2,3)]
  have main: "cache_ok c fs' \<and> same_env fs fs' \<and> entry_paths c fs' = entry_paths c fs
    \<and> (\<forall>p \<in> entry_paths c fs. entry_size fs' p = entry_size fs p) \<and> (r = None \<longrightarrow> node_at fs' = node_at fs)"
  proof (cases rt)
    case (Inl e)
    with assms(1) nt have "fs' = fs1" "r = Some e" by (simp_all add: Probe_def)
    with t show ?thesis by simp
  next
    case (Inr f)
    obtain rc fs2 where cl: "f_Close fs1 f = (rc, fs2)" by fastforce
    obtain rr fs3 where rm: "os_Remove fs2 (f_Name f) = (rr, fs3)" by fastforce
    note s = read_only_calls(5) [OF cl]
    note S = same_storeD [OF s] same_store_cache_ok [OF s] same_store_entries [OF s]
    have ok2: "cache_ok c fs2" and st2: "staged c fs2 f"
      using t(1) t(4) [OF Inr] S staged_cong [of fs2 fs1 f f c] by simp_all
    note e = remove_staged_effect [OF rm ok2 st2] remove_staged_entries [OF rm ok2 st2]
    have fs': "fs' = fs3" and r: "r = None \<Longrightarrow> rr = Inr ()"
      using assms(1) nt Inr cl rm by (auto simp: Probe_def split: sum.splits)
    have "node_at fs3 = node_at fs" if "rr = Inr ()"
      using e(5) [OF that] t(4) [OF Inr] S(1) by (auto simp: fun_eq_iff)
    moreover have "same_env fs fs3"
      using t(2) S(7) e(2) same_env_trans by blast
    moreover have "entry_paths c fs3 = entry_paths c fs" using e(7) t(5) S by simp
    moreover have "entry_size fs3 p = entry_size fs p" if "p \<in> entry_paths c fs" for p
      using e(9) [of p] t(5) t(7) [OF that] S that by simp
    ultimately show ?thesis using fs' r e(1) by blast
  qed
  then show "cache_ok c fs'" "same_env fs fs'" "entry_paths c fs' = entry_paths c fs"
    "p \<in> entry_paths c fs \<Longrightarrow> entry_size fs' p = entry_size fs p" "r = None \<Longrightarrow> node_at fs' = node_at fs"
    by simp_all
qed

lemma write_staged:
  assumes "cache_ok c fs" and "staged c fs f"
    and fs'_def: "fs' = fs\<lparr>fs_inodes := (fs_inodes fs)(f_ino f := x), fs_ops := fs_ops fs + k\<rparr>"
  shows "cache_ok c fs'" and "same_env fs fs'" and "entry_paths c fs' = entry_paths c fs"
    and "p \<in> entry_paths c fs \<Longrightarrow> entry_size fs' p = entry_size fs p" and "staged c fs' f"
proof -
  have f: "file_at fs' = file_at fs" by (simp add: fs'_def fun_eq_iff file_at_def)
  show "cache_ok c fs'" using assms(1) by (simp add: cache_ok_def fs'_def fs_ok_def inodes_ok_def)
  show "same_env fs fs'" "staged c fs' f" using assms(2) by (simp_all add: fs'_def same_env_def staged_def)
  show "entry_paths c fs' = entry_paths c fs" by (rule entry_paths_files [OF f])
  assume p: "p \<in> entry_paths c fs"
  then obtain i where i: "file_at fs p = Some i" using entry_pathsD by blast
  with staged_not_entry [OF assms(1,2) p] have "fs_inodes fs' i = fs_inodes fs i" by (auto simp: fs'_def)
  then show "entry_size fs' p = entry_size fs p"
    unfolding entry_size_def f i by simp
qed

lemma cache_step_invariant:
  assumes "cache_step sha c w w'" and "cache_ok c (w_fs w)" and "sha_ok sha" and "rand_ok (w_fs w)"
  shows "cache_ok c (w_fs w') \<and> same_env (w_fs w) (w_fs w')
    \<and> (fault_free (w_fs w) \<longrightarrow> gauges_exact c w \<longrightarrow> gauges_exact c w')"
  using assms(1)
proof (cases rule: cache_step.cases)
  case (step_lookup role ident inner r fs')
  note e = cache_Lookup_effect [OF step_lookup(3) cache_okD(1) [OF assms(2)] assms(3) step_lookup(2)]
  have f: "file_at fs' = file_at (w_fs w)" by (simp add: fun_eq_iff file_at_def e(1))
  have "entry_size fs' p = entry_size (w_fs w) p" for p by (simp add: entry_size_def f e(6) cong: option.case_cong)
  from totals_files [OF f this] e(3) step_lookup(1) assms(2) e(1,4) show ?thesis
    by (simp add: gauges_exact_def cache_ok_def)
next
  case (step_temp r fs')
  note e = NewTemp_effect [OF step_temp(2) assms(2,4)] NewTemp_entries [OF step_temp(2) assms(2,4)]
  from totals_entries [OF e(5,7)] e(1,2) step_temp(1) show ?thesis by (simp add: gauges_exact_def)
next
  case (step_write f k x)
  note e = write_staged [OF assms(2) step_write(2) refl, where x = x and k = k]
  from totals_entries [OF e(3,4)] e(1,2) step_write(1) show ?thesis by (simp add: gauges_exact_def)
next
  case (step_commit role f ident inner r)
  note e = Commit_effect [OF step_commit(3) assms(2) step_commit(2) assms(3) step_commit(1)]
  show ?thesis
    using e(1,2) Commit_gauges [OF step_commit(3) assms(2) step_commit(2) assms(3) step_commit(1)] by blast
next
  case (step_drop f r fs')
  note e = remove_staged_effect [OF step_drop(3) assms(2) step_drop(2)]
    remove_staged_entries [OF step_drop(3) assms(2) step_drop(2)]
  from totals_entries [OF e(7,9)] e(1,2) step_drop(1) show ?thesis by (simp add: gauges_exact_def)
next
  case (step_probe r fs')
  note e = Probe_effect [OF step_probe(2) assms(2,4)]
  from totals_entries [OF e(3,4)] e(1,2) step_probe(1) show ?thesis by (simp add: gauges_exact_def)
next
  case (step_evict maxUnused r)
  obtain n err where r: "r = (n, err)" by (cases r)
  from Evict_effect [OF step_evict [unfolded r] assms(2)]
  have "cache_ok c (w_fs w')" "same_env (w_fs w) (w_fs w')" "fault_free (w_fs w) \<longrightarrow> err = None" by auto
  then show ?thesis using Evict_gauges [of c maxUnused w n w'] step_evict r assms(2) by auto
next
  case (step_read fs')
  from totals_entries [of c fs' "w_fs w"] same_store_entries [OF step_read(2)] same_storeD(7) [OF step_read(2)]
    same_store_cache_ok [OF step_read(2)] assms(2) step_read(1)
  show ?thesis by (simp add: gauges_exact_def)
next
  case (step_count m)
  with assms(2) show ?thesis by (simp add: gauges_exact_def)
qed

lemma cache_run_invariant:
  assumes "(cache_step sha c)\<^sup>*\<^sup>* w w'" and "cache_ok c (w_fs w)" and "sha_ok sha" and "rand_ok (w_fs w)"
  shows "cache_ok c (w_fs w') \<and> same_env (w_fs w) (w_fs w')
    \<and> (fault_free (w_fs w) \<longrightarrow> gauges_exact c w \<longrightarrow> gauges_exact c w')"
  using assms(1)
proof (induction rule: rtranclp_induct)
  case (step y z)
  from step.IH have y: "cache_ok c (w_fs y)" "same_env (w_fs w) (w_fs y)" by simp_all
  from cache_step_invariant [OF step.hyps(2) y(1) assms(3)] assms(4) rand_ok_env [OF y(2)] fault_free_env [OF y(2)]
    step.IH same_env_trans [OF y(2)]
  show ?case by simp
qed (simp add: assms(2))

lemma SeedMetrics_exact:
  assumes "cache_ok c (w_fs w)" and "fault_free (w_fs w)"
  shows "gauges_exact c (SeedMetrics c w) \<and> same_store (w_fs w) (w_fs (SeedMetrics c w))"
proof -
  from computeSize_exact [OF assms] obtain fs' where s: "same_store (w_fs w) fs'" and
    "computeSize c (w_fs w) = (None, \<lparr>sz_bytes = total_size c (w_fs w), sz_entries = entry_count c (w_fs w)\<rparr>, fs')" by blast
  then have "SeedMetrics c w = \<lparr>w_fs = fs', w_met = met_seed (total_size c (w_fs w)) (entry_count c (w_fs w)) (w_met w)\<rparr>"
    by (simp add: SeedMetrics_def)
  with s show ?thesis
    by (simp add: gauges_exact_def gauges_def met_seed_def total_size_def entry_count_def same_store_entries [OF s])
qed

text \<open>Whatever fails, the walk that computes the size changes nothing.\<close>

lemma walk_list_read_only:
  assumes "walk_list c fileFn dirFn qs (st, fs) = (e, st', fs')"
    and "\<And>p i b x g y g'. fileFn p i b (x, g) = (y, g') \<Longrightarrow> same_store g g'"
  shows "same_store fs fs'"
  using assms(1)
proof (induction qs arbitrary: st fs)
  case (Cons q qs)
  show ?case
  proof (cases "node_at fs q = Some DirNode")
    case True
    obtain r fs1 where t: "syscall fs (\<lambda>fs. (Inr () :: unit result, fs)) = (r, fs1)" by fastforce
    then have s1: "same_store fs fs1" by (auto elim!: syscall_cases)
    from Cons.prems True t obtain st1 where "fs' = fs1 \<or> walk_list c fileFn dirFn qs (st1, fs1) = (e, st', fs')"
      by (cases r) (auto simp: walk_list.simps(2) Let_def)
    with s1 Cons.IH show ?thesis by (blast intro: same_store_trans)
  next
    case False
    obtain r fs1 where t: "os_Stat fs (walk_path (c_root c) q) = (r, fs1)" by fastforce
    note s1 = read_only_calls(1) [OF t]
    show ?thesis
    proof (cases r)
      case (Inl x)
      with Cons t False s1 show ?thesis by (auto simp: walk_list.simps(2) Let_def intro: same_store_trans)
    next
      case (Inr i)
      obtain st2 fs2 where f: "fileFn (walk_path (c_root c) q) i
          (filepath_Dir (walk_path (c_root c) q) = filepath_Join (c_root c) tmpSubdir) (st, fs1) = (st2, fs2)" by fastforce
      from Cons.prems False t Inr f have "walk_list c fileFn dirFn qs (st2, fs2) = (e, st', fs')" by (simp add: walk_list.simps(2) Let_def)
      from Cons.IH [OF this] s1 assms(2) [OF f] show ?thesis by (meson same_store_trans)
    qed
  qed
qed simp

lemma SeedMetrics_read_only: "same_store (w_fs w) (w_fs (SeedMetrics c w))"
proof -
  obtain e st fs1 where cs: "computeSize c (w_fs w) = (e, st, fs1)" by (metis prod.exhaust)
  have walk: "walk_list c size_file d qs (x, g) = (y, x', g') \<Longrightarrow> same_store g g'" for d qs x g y x' g'
    by (erule walk_list_read_only) (auto simp: size_file_def split: if_splits)
  obtain r fs0 where st: "os_Stat (w_fs w) (c_root c) = (r, fs0)" by fastforce
  have "fs1 = fs0 \<or> (\<exists>y. walk_list c size_file (\<lambda>_ st. st) (walk_order fs0 (croot c))
      (\<lparr>sz_bytes = 0, sz_entries = 0\<rparr>, fs0) = (y, st, fs1))"
    using cs st by (auto simp: computeSize_def walkFiles_def split: prod.splits sum.splits option.splits)
  then have "same_store (w_fs w) fs1"
    using read_only_calls(1) [OF st] walk by (blast intro: same_store_trans)
  with cs show ?thesis by (auto simp: SeedMetrics_def split: option.splits)
qed

end
