(* ===== verification/CacheProps.thy ===== *)
theory CacheProps
  imports DiskCache
begin

text \<open>
  The properties of the disk cache, stated of the operations of \<open>DiskCache\<close> for any faults
  of the file system unless \<open>fault_free\<close> is assumed, with witnesses on a small file system.
\<close>

section \<open>Opening a cache\<close>

definition layout :: "string \<Rightarrow> osfs \<Rightarrow> bool" where
  "layout root fs \<longleftrightarrow> root_ok \<lparr>c_root = root\<rparr> \<and> fs_ok fs
     \<and> (\<forall>q n. node_at fs (segs root @ q) = Some n \<longrightarrow> fits q n)"

lemma fits_tmp_dir: "prefix q [tmpSubdir] \<Longrightarrow> fits q DirNode"
  by (auto simp: fits_def prefix_Cons)

lemma cache_New_layout:
  assumes "cache_New root fs = (r, fs')" and "layout root fs"
  shows "layout root fs' \<and> same_env fs fs' \<and> file_at fs' = file_at fs \<and> fs_inodes fs' = fs_inodes fs"
proof -
  have root: "root_ok \<lparr>c_root = root\<rparr>" and ok: "fs_ok fs" using assms(2) by (simp_all add: layout_def)
  from assms(1) obtain u where m: "os_MkdirAll fs (abspath (segs root @ [tmpSubdir])) = (u, fs')"
    using tmp_dir_eq [OF root] by (auto simp: cache_New_def tmp_path_def split: prod.splits sum.splits)
  have s: "segs (abspath (segs root @ [tmpSubdir])) = segs root @ [tmpSubdir]"
    using tmp_path_ok [OF root] by (simp add: tmp_path_def)
  note eff = os_MkdirAll_effect [OF m ok, unfolded s]
  have "fits q n" if "node_at fs' (segs root @ q) = Some n" for q n
  proof -
    from eff(5) [of "segs root @ q"] that
    consider "node_at fs (segs root @ q) = Some n" | "prefix q [tmpSubdir]" "n = DirNode" by auto
    then show ?thesis using assms(2) fits_tmp_dir by cases (auto simp: layout_def)
  qed
  moreover have "file_at fs' = file_at fs"
  proof
    fix p show "file_at fs' p = file_at fs p" using eff(5) [of p] by (auto simp: file_at_def)
  qed
  ultimately show ?thesis using root eff(1-3) by (simp add: layout_def)
qed

lemma cache_New_effect:
  assumes "cache_New root fs = (Inr c, fs')" and "layout root fs"
  shows "c_root c = root \<and> cache_ok c fs' \<and> same_env fs fs' \<and> file_at fs' = file_at fs \<and> fs_inodes fs' = fs_inodes fs"
proof -
  note L = cache_New_layout [OF assms]
  then have root: "root_ok \<lparr>c_root = root\<rparr>" by (simp add: layout_def)
  from assms(1) obtain u where m: "os_MkdirAll fs (abspath (tmp_path \<lparr>c_root = root\<rparr>)) = (Inr u, fs')" and c: "c = \<lparr>c_root = root\<rparr>"
    using tmp_dir_eq [OF root] by (auto simp: cache_New_def split: prod.splits sum.splits)
  have "node_at fs' (tmp_path c) = Some DirNode"
    using os_MkdirAll_effect(6) [OF m] assms(2) tmp_path_ok [OF root] by (simp add: layout_def c)
  with L show ?thesis by (simp add: cache_ok_def layout_def c)
qed

lemma cache_ok_layout: "cache_ok c fs \<Longrightarrow> layout (c_root c) fs"
  by (cases c) (simp add: cache_ok_def layout_def)

text \<open>A cache that is there is found again.\<close>

lemma cache_New_again:
  assumes "cache_ok c fs" and "fault_free fs"
  shows "\<exists>fs'. cache_New (c_root c) fs = (Inr c, fs')"
proof -
  note root = cache_okD(1) [OF assms(1)]
  have "fst (os_MkdirAll fs (abspath (tmp_path c))) = Inr ()"
    using assms(2) cache_ok_root_dir [OF assms(1)] tmp_path_ok [OF root]
    by (intro os_MkdirAll_ok) (simp_all add: fault_free_def)
  then show ?thesis using tmp_dir_eq [OF root] by (auto simp: cache_New_def split: prod.splits sum.splits)
qed

section \<open>Properties\<close>

text \<open>C8: a lookup after a commit answers with the committed bytes for that entry and with what was
  there before for every other; after a failed commit every entry is as before.\<close>

theorem Commit_then_Lookup:
  assumes "cache_ok c (w_fs w)" and "sha_ok sha" and "staged_bytes c w tmp = Some b"
    and "commit_at sha c tmp k w = (r, w1)" and "lookup_at sha c k' w1 = (Inr q, w2)"
  shows "map_option (handle_bytes w2) q =
    (if r = None \<and> entry_addr sha c k' = entry_addr sha c k then Some b
     else cache_entry c w (entry_addr sha c k'))"
  using disk.lookup_after_commit [OF conjI [OF assms(1,2)] assms(3-5)]
  by (simp add: disk.answer_def)

text \<open>A commit that fails, at whatever call, leaves every file where it was with its content, the
  staging file included, and the collectors as they were; one that succeeds moves the staging file.\<close>

lemma Commit_atomic:
  assumes "Commit sha c tmp role ident inner w = (r, w')" and "cache_ok c (w_fs w)" and "staged c (w_fs w) tmp"
    and "sha_ok sha" and "role_ok role"
  shows "cache_ok c (w_fs w') \<and> fs_inodes (w_fs w') = fs_inodes (w_fs w)
    \<and> (case r of
         Some e \<Rightarrow> file_at (w_fs w') = file_at (w_fs w) \<and> w_met w' = w_met w
       | None \<Rightarrow> file_at (w_fs w') = (file_at (w_fs w))(segs (f_Name tmp) := None,
           entry_path sha c role ident inner := Some (f_ino tmp)))"
  using Commit_effect [OF assms] by (cases r) simp_all

text \<open>From a seeded start, through any interleaving of lookups, staging, commits, clean-ups, probes
  and sweeps, the gauges are the number and total size of the committed entries, when no call fails.\<close>

lemma cache_runs_gauges:
  assumes "cache_New root fs = (Inr c, fs1)" and "layout root fs" and "fault_free fs" and "rand_ok fs" and "sha_ok sha"
    and "(cache_step sha c)\<^sup>*\<^sup>* (SeedMetrics c \<lparr>w_fs = fs1, w_met = m\<rparr>) w"
  shows "CacheSizeBytes (w_met w) = total_size c (w_fs w) \<and> CacheEntries (w_met w) = entry_count c (w_fs w)"
proof -
  from cache_New_effect [OF assms(1,2)] have ok: "cache_ok c fs1" and env: "same_env fs fs1" by simp_all
  let ?w = "\<lparr>w_fs = fs1, w_met = m\<rparr>"
  have "fault_free fs1" "rand_ok fs1" using assms(3,4) fault_free_env [OF env] rand_ok_env [OF env] by simp_all
  with SeedMetrics_exact [of c ?w] ok have g: "gauges_exact c (SeedMetrics c ?w)"
    and s: "same_store fs1 (w_fs (SeedMetrics c ?w))" by simp_all
  have "cache_ok c (w_fs (SeedMetrics c ?w))" "rand_ok (w_fs (SeedMetrics c ?w))" "fault_free (w_fs (SeedMetrics c ?w))"
    using same_store_cache_ok [OF s] ok rand_ok_env [OF same_storeD(7) [OF s]] fault_free_env [OF same_storeD(7) [OF s]]
      \<open>fault_free fs1\<close> \<open>rand_ok fs1\<close> by simp_all
  from cache_run_invariant [OF assms(6) this(1) assms(5) this(2)] this(3) g show ?thesis
    by (simp add: gauges_exact_def gauges_def)
qed

text \<open>Through any such run, whatever fails, the layout holds: the root and the staging directory
  stay directories, staging files lie only in the staging directory, entries four levels down.\<close>

lemma cache_runs_layout:
  assumes "cache_New root fs = (Inr c, fs1)" and "layout root fs" and "rand_ok fs" and "sha_ok sha"
    and "(cache_step sha c)\<^sup>*\<^sup>* \<lparr>w_fs = fs1, w_met = m\<rparr> w"
  shows "node_at (w_fs w) (segs root) = Some DirNode \<and> node_at (w_fs w) (segs root @ [tmpSubdir]) = Some DirNode
    \<and> (\<forall>q i. node_at (w_fs w) (segs root @ q) = Some (FileNode i) \<longrightarrow>
         (\<exists>x. q = [tmpSubdir, x]) \<or> length q = 4 \<and> hd q \<noteq> tmpSubdir)"
proof -
  from cache_New_effect [OF assms(1,2)] have c: "c_root c = root" "cache_ok c fs1" "same_env fs fs1" by simp_all
  from cache_run_invariant [OF assms(5) _ assms(4)] c assms(3) rand_ok_env [OF c(3)]
  have ok: "cache_ok c (w_fs w)" by simp
  then have "node_at (w_fs w) (segs root) = Some DirNode"
    using cache_ok_root_dir [OF ok, of "segs root"] by (simp add: c(1) tmp_path_def)
  with cache_okD(3,4) [OF ok] show ?thesis by (fastforce simp: c(1) tmp_path_def fits_def)
qed

text \<open>C26: without faults a sweep removes exactly the files older than the cutoff and the directories left
  empty; the root and the staging directory stay.\<close>

theorem Evict_exact:
  assumes "Evict c maxUnused w = ((n, err), w')" and "cache_ok c (w_fs w)" and "fault_free (w_fs w)"
  defines "old \<equiv> {p. prefix (croot c) p \<and> stale (time_Now (w_fs w) - maxUnused) (w_fs w) p}"
  shows "err = None \<and> n = int (card old)
    \<and> (\<forall>p. file_at (w_fs w') p = (if p \<in> old then None else file_at (w_fs w) p))
    \<and> (\<forall>p. prefix (croot c) p \<and> node_at (w_fs w') p = Some DirNode \<longrightarrow>
         p = croot c \<or> p = tmp_path c \<or> has_file_below (w_fs w') p)
    \<and> node_at (w_fs w') (tmp_path c) = Some DirNode"
proof -
  from Evict_effect [OF assms(1,2)] assms(3) obtain R where
    R: "R = old" "err = None" "n = int (card R)" "file_at (w_fs w') = (\<lambda>p. if p \<in> R then None else file_at (w_fs w) p)"
    and ok: "cache_ok c (w_fs w')" and below: "\<forall>p \<in> shard_dirs c (w_fs w'). has_file_below (w_fs w') p"
    unfolding old_def by blast
  have "\<forall>p. prefix (croot c) p \<and> node_at (w_fs w') p = Some DirNode \<longrightarrow>
      p = croot c \<or> p = tmp_path c \<or> has_file_below (w_fs w') p"
    using below by (auto simp: shard_dirs_def)
  with R cache_okD(3) [OF ok] show ?thesis by simp
qed

text \<open>Whatever fails, a sweep only ever removes files older than the cutoff, returns how many, and
  adjusts the collectors only when it ran to the end.\<close>

lemma Evict_safe:
  assumes "Evict c maxUnused w = ((n, err), w')" and "cache_ok c (w_fs w)"
  shows "\<exists>R \<subseteq> {p. prefix (croot c) p \<and> stale (time_Now (w_fs w) - maxUnused) (w_fs w) p}.
      finite R \<and> n = int (card R)
      \<and> (\<forall>p. file_at (w_fs w') p = (if p \<in> R then None else file_at (w_fs w) p))
      \<and> fs_inodes (w_fs w') = fs_inodes (w_fs w)
      \<and> (err \<noteq> None \<longrightarrow> w_met w' = w_met w)"
proof -
  from Evict_effect [OF assms] obtain R where
    R: "R \<subseteq> {p. prefix (croot c) p \<and> stale (time_Now (w_fs w) - maxUnused) (w_fs w) p}"
    "finite R" "n = int (card R)" "file_at (w_fs w') = (\<lambda>p. if p \<in> R then None else file_at (w_fs w) p)"
    "fs_inodes (w_fs w') = fs_inodes (w_fs w)" "err \<noteq> None \<longrightarrow> w_met w' = w_met w"
    by blast
  show ?thesis by (rule exI [of _ R]) (use R in simp)
qed

text \<open>A hit leaves the entry with the time of the lookup.\<close>

lemma Lookup_touches:
  assumes "cache_Lookup sha c role ident inner fs = (Inr (Some (f, fi)), fs1)" and "root_ok c" and "sha_ok sha" and "role_ok role"
    and "fault_free fs" and "mono (fs_time fs)"
  shows "time_Now fs \<le> ino_mtime (fs_inodes fs1 (f_ino f))"
proof -
  have "fs_inodes fs1 (f_ino f) = (fs_inodes fs (f_ino f))\<lparr>ino_mtime := fs_time fs (Suc (Suc (fs_ops fs)))\<rparr>"
    using assms(1,5) cache_Lookup_effect(7) [OF assms(1-4) refl] segs_cache_path [OF assms(2-4), of ident inner]
    by (auto simp: cache_Lookup_def Let_def os_Open_def f_Stat_def os_Chtimes_def syscall_def fault_free_def
        set_mtime_def time_Now_def split: prod.splits)
  then show ?thesis using assms(6) by (simp add: time_Now_def mono_def)
qed

text \<open>An entry that was looked up less than \<open>maxUnused\<close> ago survives the sweep.\<close>

lemma Lookup_protects:
  assumes "cache_ok c (w_fs w)" and "sha_ok sha" and "role_ok role" and "fault_free (w_fs w)" and "mono (fs_time (w_fs w))"
    and "cache_Lookup sha c role ident inner (w_fs w) = (Inr (Some (f, fi)), fs1)"
    and "Evict c maxUnused (w\<lparr>w_fs := fs1\<rparr>) = ((n, err), w')"
    and "time_Now fs1 - maxUnused \<le> time_Now (w_fs w)"
  shows "file_at (w_fs w') (entry_path sha c role ident inner) = Some (f_ino f)"
proof -
  let ?p = "entry_path sha c role ident inner"
  note root = cache_okD(1) [OF assms(1)]
  note e = cache_Lookup_effect [OF assms(6) root assms(2,3)]
  have n1: "node_at fs1 ?p = Some (FileNode (f_ino f))" using e(1) e(7) [OF refl] by simp
  have ok1: "cache_ok c fs1" using assms(1) e(1,4) by (simp add: cache_ok_def)
  have "time_Now (w_fs w) \<le> ino_mtime (fs_inodes fs1 (f_ino f))"
    by (rule Lookup_touches [OF assms(6) root assms(2,3,4,5)])
  then have "\<not> stale (time_Now fs1 - maxUnused) fs1 ?p"
    using assms(8) n1 by (simp add: stale_iff)
  moreover have upd: "w_fs (w\<lparr>w_fs := fs1\<rparr>) = fs1" by simp
  from Evict_effect [OF assms(7), unfolded upd, OF ok1] obtain R where
    "R \<subseteq> {p. prefix (croot c) p \<and> stale (time_Now fs1 - maxUnused) fs1 p}"
    "file_at (w_fs w') = (\<lambda>p. if p \<in> R then None else file_at fs1 p)" by blast
  ultimately have "file_at (w_fs w') ?p = file_at fs1 ?p" by auto
  with n1 show ?thesis by simp
qed

text \<open>A probe that reports success has left no trace; a missing staging directory fails it.\<close>

lemma Probe_readiness:
  assumes "Probe c fs = (r, fs')" and "cache_ok c fs \<and> rand_ok fs \<or> root_ok c \<and> node_at fs (tmp_path c) \<noteq> Some DirNode"
  shows "(r = None \<longrightarrow> node_at fs' = node_at fs) \<and> (node_at fs (tmp_path c) \<noteq> Some DirNode \<longrightarrow> r \<noteq> None)"
proof (cases "node_at fs (tmp_path c) = Some DirNode")
  case True
  with Probe_effect(5) [OF assms(1)] assms(2) show ?thesis by auto
next
  case False
  with assms(2) have root: "root_ok c" by (auto simp: cache_ok_def)
  have "segs (abspath (tmp_path c)) = tmp_path c" using tmp_path_ok [OF root] by simp
  with False have "\<exists>e fs1. NewTemp c fs = (Inl e, fs1)"
    by (auto simp: NewTemp_def os_CreateTemp_def syscall_def tmp_dir_eq [OF root] Let_def split: option.splits)
  with assms(1) False show ?thesis by (auto simp: Probe_def)
qed

text \<open>Two entries share a file only if the roles agree and the hashed texts collide; the key is 64
  hexadecimal digits.\<close>

lemma cache_path_inject:
  assumes "root_ok c" and "sha_ok sha" and "role_ok role" and "role_ok role'"
  shows "(cache_path sha c role ident inner = cache_path sha c role' ident' inner' \<longleftrightarrow>
      role = role' \<and> sha (bytes_of_string (ident @ '':'' @ role @ '':'' @ inner))
        = sha (bytes_of_string (ident' @ '':'' @ role' @ '':'' @ inner')))
    \<and> length (cache_key sha role ident inner) = 64"
proof -
  have "hex_EncodeToString a = hex_EncodeToString b \<longleftrightarrow> a = b" for a b
    by (metis hex_decode_encode option.inject)
  then show ?thesis
    using abspath_inject [OF entry_path_ok [OF assms(1-3), of ident inner] entry_path_ok [OF assms(1,2,4), of ident' inner']]
    by (simp add: cache_path_eq assms entry_path_eq_iff length_cache_key) (simp add: cache_key_def)
qed

text \<open>The hashed text does not separate its parts: distinct pairs of identity and file name can share
  an entry, whatever the hash.\<close>

lemma cache_key_ambiguous:
  "cache_key sha role (ident @ '':'' @ role @ '':'' @ x) inner = cache_key sha role ident (x @ '':'' @ role @ '':'' @ inner)"
  by (simp add: cache_key_def)

lemma Commit_succeeds_lemma:
  assumes "cache_ok c (w_fs w)" and "staged c (w_fs w) tmp" and "sha_ok sha" and "role_ok role" and "fault_free (w_fs w)"
  shows "fst (Commit sha c tmp role ident inner w) = None"
proof -
  note root = cache_okD(1) [OF assms(1)]
  let ?fs = "w_fs w" and ?final = "cache_path sha c role ident inner" and ?e = "entry_path sha c role ident inner"
  let ?fs3 = "os_tick (os_tick (os_tick ?fs))"
  obtain x where x: "segs (f_Name tmp) = tmp_path c @ [x]" "node_at ?fs (tmp_path c @ [x]) = Some (FileNode (f_ino tmp))"
    using stagedD [OF assms(2) root] .
  have nf: "fs_fault ?fs n = None" for n using assms(5) by (simp add: fault_free_def)
  have ok3: "cache_ok c ?fs3"
    using assms(1) same_store_cache_ok [OF same_store_trans [OF same_store_trans [OF same_store_tick same_store_tick] same_store_tick]]
    by blast
  obtain r4 fs4 where m: "os_MkdirAll ?fs3 (filepath_Dir ?final) = (r4, fs4)" by fastforce
  have "node_at ?fs3 q \<noteq> Some (FileNode i)" if "prefix q (segs (filepath_Dir ?final))" for q i
  proof
    assume n: "node_at ?fs3 q = Some (FileNode i)"
    let ?k = "cache_key sha role ident inner"
    have "prefix q (croot c @ [role, take 2 ?k, take 2 (drop 2 ?k)])"
      using that segs_Dir_cache_path [OF root assms(3,4)] by (simp add: entry_path_def Let_def butlast_append)
    then have "prefix q (croot c) \<or> (\<exists>r. q = croot c @ r \<and> r \<noteq> [] \<and> prefix r [role, take 2 ?k, take 2 (drop 2 ?k)])"
      unfolding prefix_append by (metis append_Nil2 prefix_order.refl)
    then consider "prefix q (croot c)" | r where "q = croot c @ r" "r \<noteq> []" "prefix r [role, take 2 ?k, take 2 (drop 2 ?k)]"
      by blast
    then show False
    proof cases
      case 1
      then have "prefix q (tmp_path c)" by (simp add: tmp_path_def)
      from cache_ok_root_dir [OF ok3 this] n show False by simp
    next
      case 2
      from cache_okD(4) [OF ok3, of r "FileNode i"] n 2(1) have "fits r (FileNode i)" by simp
      moreover have "hd r = role" "length r \<le> 3"
        using 2(2,3) prefix_length_le [OF 2(3)] by (auto simp: prefix_Cons)
      ultimately show False using assms(4) by (auto simp: fits_def role_ok_def)
    qed
  qed
  then have r4: "r4 = Inr ()" using os_MkdirAll_ok [of ?fs3 "filepath_Dir ?final"] m nf by simp
  note e = shard_dir_effect [OF m ok3 assms(3,4)]
  obtain r5 fs5 where st: "os_Stat fs4 ?final = (r5, fs5)" by fastforce
  note S = same_storeD [OF read_only_calls(1) [OF st]]
  have env: "same_env ?fs fs5" using e(2) S(7) by (meson same_env_trans same_storeD(7) same_store_tick)
  have "node_at fs5 (segs (f_Name tmp)) = Some (FileNode (f_ino tmp))"
    using e(7) [of "segs (f_Name tmp)"] x S(1) by simp
  moreover have "node_at fs5 ?e \<noteq> Some DirNode" using entry_not_dir [OF e(1) assms(4)] S(1) by simp
  moreover have "node_at fs5 (butlast ?e) = Some DirNode" using e(6) r4 S(1) by simp
  moreover have "fs_fault fs5 (fs_ops fs5) = None" using env nf by (simp add: same_env_def)
  ultimately have rn: "fst (os_Rename fs5 (f_Name tmp) ?final) = Inr ()"
    using segs_cache_path [OF root assms(3,4)] by (simp add: os_Rename_def syscall_def)
  obtain fs6 where rn': "os_Rename fs5 (f_Name tmp) ?final = (Inr (), fs6)"
    using rn by (cases "os_Rename fs5 (f_Name tmp) ?final") auto
  show ?thesis
    using nf m r4 st rn' by (simp add: Commit_def Let_def f_Sync_def f_Stat_def f_Close_def syscall_def)
qed

text \<open>When no call fails, committing a staging file succeeds and a lookup of the entry hits.\<close>

lemma Commit_succeeds:
  assumes "cache_ok c (w_fs w)" and "staged c (w_fs w) tmp" and "sha_ok sha" and "role_ok role" and "fault_free (w_fs w)"
    and "Commit sha c tmp role ident inner w = (r, w')"
  shows "r = None \<and> (\<exists>fi fs2. cache_Lookup sha c role ident inner (w_fs w') = (Inr (Some
      (\<lparr>f_Name = cache_path sha c role ident inner, f_ino = f_ino tmp, f_pos = 0\<rparr>, fi)), fs2)
      \<and> fi_Size fi = int (length (ino_data (fs_inodes (w_fs w) (f_ino tmp)))))"
proof -
  have r: "r = None" using Commit_succeeds_lemma [OF assms(1-5)] assms(6) by (metis fst_conv)
  note eff = Commit_effect [OF assms(6,1,2,3,4)]
  let ?e = "entry_path sha c role ident inner"
  have "file_at (w_fs w') ?e = Some (f_ino tmp)" using eff(5) [OF r] by simp
  then have "node_at (w_fs w') ?e = Some (FileNode (f_ino tmp))" by simp
  moreover have "fault_free (w_fs w')" using assms(5) fault_free_env [OF eff(2)] by simp
  ultimately show ?thesis
    using cache_Lookup_total [of "w_fs w'" c sha role ident inner] cache_okD(1) [OF eff(1)] assms(3,4) r eff(3)
    by (cases "cache_Lookup sha c role ident inner (w_fs w')") (simp add: node_info_def)
qed

section \<open>Witnesses\<close>

definition sha_ex :: "bytes \<Rightarrow> bytes" where
  "sha_ex b = take 32 (b @ replicate 32 0)"

definition ex_cache :: cache where
  "ex_cache = \<lparr>c_root = ''/c''\<rparr>"

definition ex_fs0 :: osfs where
  "ex_fs0 = \<lparr>fs_nodes = [([], DirNode), ([''c''], DirNode)],
     fs_inodes = (\<lambda>_. \<lparr>ino_data = [1, 2], ino_mtime = 5\<rparr>), fs_next = 1, fs_ops = 0, fs_fault = (\<lambda>_. None),
     fs_time = int, fs_rand = (\<lambda>_. [''7''])\<rparr>"

definition ex_fs :: osfs where
  "ex_fs = ex_fs0\<lparr>fs_nodes := [([], DirNode), ([''c''], DirNode), ([''c'', ''tmp''], DirNode),
     ([''c'', ''tmp'', ''staging-1''], FileNode 0)]\<rparr>"

definition ex_tmp :: osfile where
  "ex_tmp = \<lparr>f_Name = ''/c/tmp/staging-1'', f_ino = 0, f_pos = 2\<rparr>"

definition ex_met :: metrics where
  "ex_met = zero_metrics"

definition ex_world :: world where
  "ex_world = \<lparr>w_fs = ex_fs, w_met = ex_met\<rparr>"

lemma ex_root: "croot ex_cache = [''c'']" "root_ok ex_cache" "tmp_path ex_cache = [''c'', ''tmp'']"
  by (simp_all add: ex_cache_def segs_def root_ok_def abspath_def seg_ok_def tmp_path_def tmpSubdir_def)

lemma sha_ok_ex: "sha_ok sha_ex"
  by (auto simp: sha_ok_def sha_ex_def min_def)

lemma layout_ex: "layout ''/c'' ex_fs0"
  by (auto simp: layout_def ex_fs0_def fs_ok_def parents_ok_def inodes_ok_def fits_def root_ok_def seg_ok_def segs_def
      abspath_def split: if_splits)

lemma ex_env: "fault_free ex_fs" "rand_ok ex_fs" "fault_free ex_fs0" "rand_ok ex_fs0"
  by (simp_all add: ex_fs_def ex_fs0_def fault_free_def rand_ok_def)

lemma cache_ok_ex: "cache_ok ex_cache ex_fs"
  by (auto simp: cache_ok_def ex_root ex_fs_def ex_fs0_def fs_ok_def parents_ok_def inodes_ok_def fits_def seg_ok_def
      tmpSubdir_def split: if_splits)

lemma staged_ex: "staged ex_cache ex_fs ex_tmp" "staged_bytes ex_cache ex_world ex_tmp = Some [1, 2]"
proof -
  show s: "staged ex_cache ex_fs ex_tmp"
    unfolding staged_def
    by (rule exI [of _ "''staging-1''"]) (simp add: ex_root ex_tmp_def ex_fs_def ex_fs0_def seg_ok_def abspath_def)
  then show "staged_bytes ex_cache ex_world ex_tmp = Some [1, 2]"
    using staged_bytes_iff [OF ex_root(2), of ex_world ex_tmp] by (simp add: ex_world_def ex_tmp_def ex_fs_def ex_fs0_def)
qed

lemma role_ok_objects: "role_ok ''objects''"
  using role_ok_name [of RoleObjects] by simp

definition ex_committed :: world where
  "ex_committed = snd (Commit sha_ex ex_cache ex_tmp ''objects'' ''a'' ''b'' ex_world)"

lemma ex_commit: "Commit sha_ex ex_cache ex_tmp ''objects'' ''a'' ''b'' ex_world = (None, ex_committed)"
  using Commit_succeeds_lemma [of ex_cache ex_world ex_tmp sha_ex "''objects''" "''a''" "''b''"]
  by (simp add: ex_world_def cache_ok_ex staged_ex(1) sha_ok_ex role_ok_objects ex_env prod_eq_iff ex_committed_def)

lemma ex_world_fs [simp]: "w_fs ex_world = ex_fs"
  by (simp add: ex_world_def)

lemma Commit_succeeds_witness:
  "\<exists>f fi fs2. cache_Lookup sha_ex ex_cache ''objects'' ''a'' ''b'' (w_fs ex_committed) = (Inr (Some (f, fi)), fs2) \<and> fi_Size fi = 2"
proof -
  have "ino_data (fs_inodes ex_fs (f_ino ex_tmp)) = [1, 2]" by (simp add: ex_fs_def ex_fs0_def)
  with Commit_succeeds [OF _ _ sha_ok_ex role_ok_objects _ ex_commit] cache_ok_ex staged_ex(1) ex_env(1)
  obtain fi fs2 where "cache_Lookup sha_ex ex_cache ''objects'' ''a'' ''b'' (w_fs ex_committed) = (Inr (Some
      (\<lparr>f_Name = cache_path sha_ex ex_cache ''objects'' ''a'' ''b'', f_ino = f_ino ex_tmp, f_pos = 0\<rparr>, fi)), fs2)"
    and "fi_Size fi = 2" by auto
  then show ?thesis by blast
qed

lemma Commit_then_Lookup_witness:
  "\<exists>q w2. lookup_at sha_ex ex_cache (RoleObjects, ''a'', ''b'') ex_committed = (Inr q, w2)
    \<and> map_option (handle_bytes w2) q = Some [1, 2]"
proof -
  have com: "commit_at sha_ex ex_cache ex_tmp (RoleObjects, ''a'', ''b'') ex_world = (None, ex_committed)"
    using ex_commit by (simp add: commit_at_def)
  note eff = Commit_effect [OF ex_commit _ _ sha_ok_ex role_ok_objects]
  have "cache_ok ex_cache (w_fs ex_committed)" "fault_free (w_fs ex_committed)"
    using eff(1,2) cache_ok_ex staged_ex(1) ex_env(1) fault_free_env by auto
  then have "is_ok (fst (cache_Lookup sha_ex ex_cache ''objects'' ''a'' ''b'' (w_fs ex_committed)))"
    using cache_Lookup_total [OF _ ex_root(2) sha_ok_ex role_ok_objects] entry_not_dir [OF _ role_ok_objects]
    by (auto split: option.splits node.splits)
  then obtain q w2 where l: "lookup_at sha_ex ex_cache (RoleObjects, ''a'', ''b'') ex_committed = (Inr q, w2)"
    by (cases "cache_Lookup sha_ex ex_cache ''objects'' ''a'' ''b'' (w_fs ex_committed)")
      (auto simp: lookup_at_def is_ok_def split: sum.splits)
  with Commit_then_Lookup [OF _ sha_ok_ex staged_ex(2) com l] cache_ok_ex show ?thesis by auto
qed

lemma ex_cache_New: "cache_New ''/c'' ex_fs0 = (Inr ex_cache, snd (cache_New ''/c'' ex_fs0))"
proof -
  have s: "segs ''/c'' = [''c'']" by (simp add: segs_def)
  have "segs (filepath_Join ''/c'' tmpSubdir) = [''c'', ''tmp'']"
    using tmp_dir_eq [OF ex_root(2)] segs_abspath [OF conjunct1 [OF tmp_path_ok [OF ex_root(2)]]]
    by (simp add: ex_cache_def [symmetric] ex_root) (simp add: ex_cache_def)
  then show ?thesis
    by (simp add: cache_New_def os_MkdirAll_def Let_def ex_fs0_def ancestors_def ex_cache_def fun_eq_iff)
qed

lemma cache_runs_gauges_witness:
  "CacheEntries (w_met (SeedMetrics ex_cache \<lparr>w_fs = snd (cache_New ''/c'' ex_fs0), w_met = ex_met\<rparr>)) = 0"
proof -
  let ?fs1 = "snd (cache_New ''/c'' ex_fs0)"
  note new = ex_cache_New
  let ?w = "SeedMetrics ex_cache \<lparr>w_fs = ?fs1, w_met = ex_met\<rparr>"
  have "CacheEntries (w_met ?w) = entry_count ex_cache (w_fs ?w)"
    using cache_runs_gauges [OF new layout_ex ex_env(3,4) sha_ok_ex, of ex_met ?w] by simp
  moreover from cache_New_effect [OF new layout_ex] have "cache_ok ex_cache ?fs1" "same_env ex_fs0 ?fs1"
    and f1: "file_at ?fs1 = file_at ex_fs0" by simp_all
  with SeedMetrics_exact [of ex_cache "\<lparr>w_fs = ?fs1, w_met = ex_met\<rparr>"] fault_free_env [of ex_fs0 ?fs1] ex_env(3)
  have "same_store ?fs1 (w_fs ?w)" by simp
  then have "entry_paths ex_cache (w_fs ?w) = entry_paths ex_cache ?fs1" by (rule same_store_entries)
  moreover have "entry_paths ex_cache ?fs1 = {}"
    unfolding entry_paths_def f1 by (auto simp: ex_fs0_def split: if_splits)
  ultimately show ?thesis by (simp add: entry_count_def)
qed

lemma Commit_atomic_witness:
  "file_at (w_fs ex_committed) [''c'', ''tmp'', ''staging-1''] = None"
proof -
  have s: "segs (f_Name ex_tmp) = [''c'', ''tmp'', ''staging-1'']" by (simp add: ex_tmp_def segs_def)
  have "entry_path sha_ex ex_cache ''objects'' ''a'' ''b'' \<noteq> [''c'', ''tmp'', ''staging-1'']"
    by (simp add: entry_path_def Let_def ex_root)
  then show ?thesis
    using Commit_atomic [OF ex_commit _ _ sha_ok_ex role_ok_objects] s
    by (simp add: cache_ok_ex staged_ex(1))
qed

lemma cache_runs_layout_witness:
  "\<exists>c fs1. cache_New ''/c'' ex_fs0 = (Inr c, fs1) \<and> node_at fs1 [''c'', ''tmp''] = Some DirNode"
proof -
  have s: "segs ''c'' = [''c'']" by (simp add: segs_def)
  have "fs_fault ex_fs0 (fs_ops ex_fs0) = None" by (simp add: ex_fs0_def)
  moreover have "node_at ex_fs0 q \<noteq> Some (FileNode i)" for q i by (simp add: ex_fs0_def)
  ultimately have "fst (os_MkdirAll ex_fs0 (filepath_Join ''/c'' tmpSubdir)) = Inr ()" by (intro os_MkdirAll_ok)
  then obtain c fs1 where new: "cache_New ''/c'' ex_fs0 = (Inr c, fs1)"
    by (cases "os_MkdirAll ex_fs0 (filepath_Join ''/c'' tmpSubdir)") (auto simp: cache_New_def)
  from cache_runs_layout [OF new layout_ex ex_env(4) sha_ok_ex, of ex_met "\<lparr>w_fs = fs1, w_met = ex_met\<rparr>"] new
  show ?thesis by (simp add: s tmpSubdir_def)
qed

lemma ex_stale: "stale 10 ex_fs p \<longleftrightarrow> p = [''c'', ''tmp'', ''staging-1'']"
  by (auto simp: stale_iff ex_fs_def ex_fs0_def split: if_splits)

lemma ex_now: "time_Now ex_fs - (- 10) = 10"
  by (simp add: time_Now_def ex_fs_def ex_fs0_def)

lemma ex_evict: "Evict ex_cache (- 10) ex_world =
    ((fst (fst (Evict ex_cache (- 10) ex_world)), snd (fst (Evict ex_cache (- 10) ex_world))),
     snd (Evict ex_cache (- 10) ex_world))"
  by simp

lemma Evict_exact_witness: "fst (Evict ex_cache (- 10) ex_world) = (1, None)"
proof -
  have "{p. prefix (croot ex_cache) p \<and> stale (time_Now (w_fs ex_world) - (- 10)) (w_fs ex_world) p}
      = {[''c'', ''tmp'', ''staging-1'']}"
    unfolding ex_world_fs ex_now by (auto simp: ex_stale ex_root)
  with Evict_exact [OF ex_evict] cache_ok_ex ex_env(1) show ?thesis by (simp add: prod_eq_iff)
qed

lemma Evict_safe_witness:
  "file_at (w_fs (snd (Evict ex_cache (- 10) ex_world))) [''c'', ''tmp'', ''staging-2''] = None"
proof -
  have "file_at ex_fs [''c'', ''tmp'', ''staging-2''] = None" by (simp add: file_at_def ex_fs_def ex_fs0_def)
  moreover from Evict_safe [OF ex_evict] cache_ok_ex obtain R where
    "\<forall>p. file_at (w_fs (snd (Evict ex_cache (- 10) ex_world))) p = (if p \<in> R then None else file_at ex_fs p)"
    unfolding ex_world_fs by blast
  ultimately show ?thesis by metis
qed

lemma Probe_readiness_witness: "fst (Probe ex_cache ex_fs0) \<noteq> None"
proof -
  have "node_at ex_fs0 [''c'', ''tmp''] \<noteq> Some DirNode" by (simp add: ex_fs0_def)
  with Probe_readiness [of ex_cache ex_fs0 "fst (Probe ex_cache ex_fs0)" "snd (Probe ex_cache ex_fs0)"] ex_root
  show ?thesis by simp
qed

lemma cache_path_inject_witness:
  "cache_path sha_ex ex_cache ''objects'' ''a'' ''b'' \<noteq> cache_path sha_ex ex_cache ''cab_synth'' ''a'' ''b''"
  using cache_path_inject [OF ex_root(2) sha_ok_ex role_ok_objects, of "''cab_synth''" "''a''" "''b''" "''a''" "''b''"]
    role_ok_name [of RoleCabSynth] by simp

lemma Lookup_protects_witness:
  "\<exists>f fi fs1. cache_Lookup sha_ex ex_cache ''objects'' ''a'' ''b'' (w_fs ex_committed) = (Inr (Some (f, fi)), fs1)
    \<and> file_at (w_fs (snd (Evict ex_cache 3 (ex_committed\<lparr>w_fs := fs1\<rparr>))))
         (entry_path sha_ex ex_cache ''objects'' ''a'' ''b'') = Some (f_ino f)"
proof -
  note eff = Commit_effect [OF ex_commit _ _ sha_ok_ex role_ok_objects]
  have ok: "cache_ok ex_cache (w_fs ex_committed)" and env: "same_env ex_fs (w_fs ex_committed)"
    and files: "file_at (w_fs ex_committed) (entry_path sha_ex ex_cache ''objects'' ''a'' ''b'') = Some (f_ino ex_tmp)"
    using eff cache_ok_ex staged_ex(1) by auto
  have ff: "fault_free (w_fs ex_committed)" "mono (fs_time (w_fs ex_committed))"
    using env ex_env(1) fault_free_env [OF env] by (simp_all add: same_env_def ex_fs_def ex_fs0_def mono_def)
  from files have "node_at (w_fs ex_committed) (entry_path sha_ex ex_cache ''objects'' ''a'' ''b'') = Some (FileNode (f_ino ex_tmp))"
    by simp
  with cache_Lookup_total [OF ff(1) ex_root(2) sha_ok_ex role_ok_objects, of "''a''" "''b''"]
  obtain f fi fs1 where l: "cache_Lookup sha_ex ex_cache ''objects'' ''a'' ''b'' (w_fs ex_committed) = (Inr (Some (f, fi)), fs1)"
    by (cases "cache_Lookup sha_ex ex_cache ''objects'' ''a'' ''b'' (w_fs ex_committed)") auto
  have "fs_ops fs1 = fs_ops (w_fs ex_committed) + 3"
    using l ff(1) by (auto simp: cache_Lookup_def Let_def os_Open_def f_Stat_def os_Chtimes_def syscall_def fault_free_def
        set_mtime_def split: prod.splits option.splits node.splits if_splits)
  moreover have "fs_time (w_fs ex_committed) = int" using env by (simp add: same_env_def ex_fs_def ex_fs0_def)
  moreover have "same_env (w_fs ex_committed) fs1"
    using cache_Lookup_effect(3) [OF l ex_root(2) sha_ok_ex role_ok_objects] .
  ultimately have "time_Now fs1 - 3 \<le> time_Now (w_fs ex_committed)" by (simp add: time_Now_def same_env_def)
  moreover obtain n err w' where e: "Evict ex_cache 3 (ex_committed\<lparr>w_fs := fs1\<rparr>) = ((n, err), w')"
    by (metis prod.collapse)
  ultimately have "file_at (w_fs w') (entry_path sha_ex ex_cache ''objects'' ''a'' ''b'') = Some (f_ino f)"
    using Lookup_protects [OF ok sha_ok_ex role_ok_objects ff l e] by simp
  moreover have "snd (Evict ex_cache 3 (ex_committed\<lparr>w_fs := fs1\<rparr>)) = w'" using e by (simp only: snd_conv)
  ultimately show ?thesis using l by blast
qed

end
