(* ===== verification/Staging.thy ===== *)
theory Staging
  imports CacheProps
begin

text \<open>
  The shape every producer of a cache entry shares: a staging file is created, filled through
  a writer, and committed or discarded. The lemmas say what each stage does to the entries
  of the cache and to the files on disk, so that the object service composes them.
\<close>

section \<open>Parts of the world\<close>

definition on_fs :: "(osfs \<Rightarrow> 'a \<times> osfs) \<Rightarrow> world \<Rightarrow> 'a \<times> world" where
  "on_fs f w = (case f (w_fs w) of (r, fs') \<Rightarrow> (r, w\<lparr>w_fs := fs'\<rparr>))"

definition on_met :: "(metrics \<Rightarrow> metrics) \<Rightarrow> world \<Rightarrow> world" where
  "on_met f w = w\<lparr>w_met := f (w_met w)\<rparr>"

definition on_file :: "osfile \<Rightarrow> (wfile \<Rightarrow> 'a \<times> wfile) \<Rightarrow> world \<Rightarrow> 'a \<times> osfile \<times> world" where
  "on_file f body w = (case with_writer (w_fs w) f body of (r, f', fs') \<Rightarrow> (r, f', w\<lparr>w_fs := fs'\<rparr>))"

text \<open>The deferred clean-up of a staging file that was not committed; both errors are dropped.\<close>

definition discard :: "osfile \<Rightarrow> world \<Rightarrow> world" where
  "discard tmp w = snd (on_fs (\<lambda>fs. os_Remove fs (f_Name tmp)) (snd (on_fs (\<lambda>fs. f_Close fs tmp) w)))"

lemma on_fsE:
  assumes "on_fs f w = (r, w')"
  obtains fs' where "f (w_fs w) = (r, fs')" and "w' = w\<lparr>w_fs := fs'\<rparr>"
  using assms by (auto simp: on_fs_def split: prod.splits)

lemma on_met_fs [simp]: "w_fs (on_met f w) = w_fs w" "w_met (on_met f w) = f (w_met w)"
  by (simp_all add: on_met_def)

lemma cache_entry_met [simp]: "cache_entry c (on_met f w) = cache_entry c w"
  by (rule ext) (simp add: cache_entry_def)

section \<open>Runs that leave the entries alone\<close>

definition ready :: "(bytes \<Rightarrow> bytes) \<Rightarrow> cache \<Rightarrow> world \<Rightarrow> bool" where
  "ready sha c w \<longleftrightarrow> cache_ok c (w_fs w) \<and> sha_ok sha \<and> rand_ok (w_fs w)"

abbreviation in_cache :: "cache \<Rightarrow> path \<Rightarrow> bool" where
  "in_cache c p \<equiv> prefix (croot c) p \<and> butlast p \<noteq> tmp_path c"

definition quiet :: "(bytes \<Rightarrow> bytes) \<Rightarrow> cache \<Rightarrow> world \<Rightarrow> world \<Rightarrow> bool" where
  "quiet sha c w w' \<longleftrightarrow> (cache_step sha c)\<^sup>*\<^sup>* w w'
     \<and> (\<forall>p. in_cache c p \<longrightarrow> file_at (w_fs w') p = file_at (w_fs w) p
          \<and> (\<forall>i. file_at (w_fs w) p = Some i \<longrightarrow>
               ino_data (fs_inodes (w_fs w') i) = ino_data (fs_inodes (w_fs w) i)))"

lemma readyD:
  assumes "ready sha c w"
  shows "cache_ok c (w_fs w)" and "sha_ok sha" and "rand_ok (w_fs w)" and "root_ok c"
  using assms cache_okD(1) by (auto simp: ready_def)

lemma ready_steps:
  assumes "ready sha c w" and "(cache_step sha c)\<^sup>*\<^sup>* w w'"
  shows "ready sha c w'" and "same_env (w_fs w) (w_fs w')"
    and "fault_free (w_fs w) \<Longrightarrow> fault_free (w_fs w')"
  using cache_run_invariant [OF assms(2)] assms(1) rand_ok_env [of "w_fs w" "w_fs w'"] fault_free_env [of "w_fs w" "w_fs w'"]
  by (auto simp: ready_def)

lemma quiet_refl [simp]: "quiet sha c w w"
  by (simp add: quiet_def)

lemma quiet_trans [trans]: "quiet sha c a b \<Longrightarrow> quiet sha c b d \<Longrightarrow> quiet sha c a d"
  unfolding quiet_def by (metis rtranclp_trans)

lemma quiet_steps: "quiet sha c w w' \<Longrightarrow> (cache_step sha c)\<^sup>*\<^sup>* w w'"
  by (simp add: quiet_def)

lemma quietD:
  assumes "quiet sha c w w'" and "in_cache c p"
  shows "file_at (w_fs w') p = file_at (w_fs w) p"
    and "file_at (w_fs w) p = Some i \<Longrightarrow> ino_data (fs_inodes (w_fs w') i) = ino_data (fs_inodes (w_fs w) i)"
  using assms unfolding quiet_def by blast+

lemma quiet_entry: "quiet sha c w w' \<Longrightarrow> cache_entry c w' = cache_entry c w"
  by (rule ext) (auto simp: cache_entry_def content_at_file quietD simp del: file_at_Some split: option.splits
    intro!: option.map_cong0 elim: quietD)

lemmas quiet_ready = ready_steps [OF _ quiet_steps]

lemma quietI:
  assumes "cache_step sha c w w'"
    and "\<And>p. in_cache c p \<Longrightarrow> file_at (w_fs w') p = file_at (w_fs w) p"
    and "\<And>p i. in_cache c p \<Longrightarrow> file_at (w_fs w) p = Some i \<Longrightarrow>
      ino_data (fs_inodes (w_fs w') i) = ino_data (fs_inodes (w_fs w) i)"
  shows "quiet sha c w w'"
  using assms by (auto simp: quiet_def simp del: file_at_Some)

lemma quiet_met: "gauges (f (w_met w)) = gauges (w_met w) \<Longrightarrow> quiet sha c w (on_met f w)"
  unfolding on_met_def by (rule quietI) (auto intro: step_count)

lemma quiet_read:
  assumes "same_store (w_fs w) fs'"
  shows "quiet sha c w (w\<lparr>w_fs := fs'\<rparr>)"
  using same_storeD(2) [OF assms] same_store_entries(3) [OF assms]
  by (intro quietI step_read [OF assms]) simp_all

section \<open>The stages\<close>

lemma Lookup_quiet:
  assumes "on_fs (cache_Lookup sha c role ident inner) w = (r, w')" and "ready sha c w" and "role_ok role"
  defines "e \<equiv> entry_path sha c role ident inner"
  shows "quiet sha c w w'" and "file_at (w_fs w') = file_at (w_fs w)"
    and "r = Inr (Some (f, fi)) \<Longrightarrow> file_at (w_fs w) e = Some (f_ino f) \<and> f_pos f = 0
      \<and> fi_Size fi = int (length (ino_data (fs_inodes (w_fs w) (f_ino f))))"
    and "r = Inr None \<Longrightarrow> file_at (w_fs w) e = None"
    and "fault_free (w_fs w) \<Longrightarrow> is_ok r"
proof -
  note root = readyD(4) [OF assms(2)]
  from assms(1) obtain fs' where l: "cache_Lookup sha c role ident inner (w_fs w) = (r, fs')"
    and w': "w' = w\<lparr>w_fs := fs'\<rparr>" by (rule on_fsE)
  note e = cache_Lookup_effect [OF l root readyD(2) [OF assms(2)] assms(3)]
  show f: "file_at (w_fs w') = file_at (w_fs w)" by (simp add: w' fun_eq_iff file_at_def e(1))
  show "quiet sha c w w'"
    using f e(6) unfolding w' by (intro quietI step_lookup [OF assms(3) l]) simp_all
  show "r = Inr (Some (f, fi)) \<Longrightarrow> file_at (w_fs w) e = Some (f_ino f) \<and> f_pos f = 0
      \<and> fi_Size fi = int (length (ino_data (fs_inodes (w_fs w) (f_ino f))))"
    using e(7) by (simp add: assms(4))
  show "r = Inr None \<Longrightarrow> file_at (w_fs w) e = None"
    using e(8) by (simp add: assms(4) file_at_def)
  show "is_ok r" if "fault_free (w_fs w)"
    using cache_Lookup_total [OF that root readyD(2) [OF assms(2)] assms(3) entry_not_dir [OF readyD(1) [OF assms(2)] assms(3)], of ident inner]
      l by (auto split: option.splits node.splits)
qed

lemma in_cache_not_tmp: "in_cache c p \<Longrightarrow> p \<noteq> tmp_path c @ [x]"
  by auto

lemma NewTemp_quiet:
  assumes "on_fs (NewTemp c) w = (r, w')" and "ready sha c w"
  shows "quiet sha c w w'" and "r = Inl e \<Longrightarrow> same_store (w_fs w) (w_fs w')"
    and "r = Inr f \<Longrightarrow> staged c (w_fs w') f \<and> f_pos f = 0 \<and> ino_data (fs_inodes (w_fs w') (f_ino f)) = []
      \<and> file_at (w_fs w) (segs (f_Name f)) = None
      \<and> file_at (w_fs w') = (file_at (w_fs w))(segs (f_Name f) := Some (f_ino f))"
proof -
  from assms(1) obtain fs' where n: "NewTemp c (w_fs w) = (r, fs')" and w': "w' = w\<lparr>w_fs := fs'\<rparr>" by (rule on_fsE)
  note e = NewTemp_effect [OF n readyD(1,3) [OF assms(2)]]
  show s: "r = Inl e \<Longrightarrow> same_store (w_fs w) (w_fs w')" for e using e(3) w' by simp
  have new: "staged c fs' f \<and> f_pos f = 0 \<and> ino_data (fs_inodes fs' (f_ino f)) = []
      \<and> file_at (w_fs w) (segs (f_Name f)) = None \<and> f_ino f = fs_next (w_fs w)
      \<and> file_at fs' = (file_at (w_fs w))(segs (f_Name f) := Some (f_ino f))
      \<and> fs_inodes fs' = (fs_inodes (w_fs w))(f_ino f := \<lparr>ino_data = [], ino_mtime = time_Now (w_fs w)\<rparr>)"
    if "r = Inr f" for f
    using e(4) [OF that] by (simp add: fun_eq_iff file_at_def)
  then show "r = Inr f \<Longrightarrow> staged c (w_fs w') f \<and> f_pos f = 0 \<and> ino_data (fs_inodes (w_fs w') (f_ino f)) = []
      \<and> file_at (w_fs w) (segs (f_Name f)) = None
      \<and> file_at (w_fs w') = (file_at (w_fs w))(segs (f_Name f) := Some (f_ino f))" for f
    by (simp add: w')
  show "quiet sha c w w'"
  proof (cases r)
    case (Inl x)
    from quiet_read [OF s [OF this]] show ?thesis by (simp add: w')
  next
    case (Inr f)
    note f = new [OF Inr]
    obtain x where x: "segs (f_Name f) = tmp_path c @ [x]"
      using stagedD [OF conjunct1 [OF f] readyD(4) [OF assms(2)]] by blast
    show ?thesis unfolding w'
    proof (rule quietI [OF step_temp [OF n]])
      fix p assume p: "in_cache c p"
      with f x show "file_at (w_fs (w\<lparr>w_fs := fs'\<rparr>)) p = file_at (w_fs w) p" by auto
      fix i assume "file_at (w_fs w) p = Some i"
      then have "i < fs_next (w_fs w)" using fs_okD(4) [OF cache_okD(2) [OF readyD(1) [OF assms(2)]]] by simp
      with f show "ino_data (fs_inodes (w_fs (w\<lparr>w_fs := fs'\<rparr>)) i) = ino_data (fs_inodes (w_fs w) i)" by simp
    qed
  qed
qed

lemma on_file_quiet:
  assumes "on_file f body w = (r, f', w')" and "ready sha c w" and "staged c (w_fs w) f" and "keeps_env body"
  shows "quiet sha c w w'" and "staged c (w_fs w') f'" and "file_at (w_fs w') = file_at (w_fs w)"
    and "segs (f_Name f') = segs (f_Name f)" and "f_ino f' = f_ino f" and "w_met w' = w_met w"
    and "r = fst (body (wfile_of (w_fs w) f))"
    and "ino_data (fs_inodes (w_fs w') (f_ino f)) = wf_buf (snd (body (wfile_of (w_fs w) f)))"
proof -
  from assms(1) obtain fs' where wr: "with_writer (w_fs w) f body = (r, f', fs')" and w': "w' = w\<lparr>w_fs := fs'\<rparr>"
    by (auto simp: on_file_def split: prod.splits)
  let ?v = "snd (body (wfile_of (w_fs w) f))"
  have env: "wf_fault ?v = fs_fault (w_fs w)" "fs_ops (w_fs w) \<le> wf_ops ?v"
    using assms(4) [unfolded keeps_env_def wf_env_def, rule_format, of "wfile_of (w_fs w) f"] by (simp_all add: wfile_of_def)
  note e = with_writer_effect [OF wr env]
  show "segs (f_Name f') = segs (f_Name f)" "f_ino f' = f_ino f" "w_met w' = w_met w" "r = fst (body (wfile_of (w_fs w) f))"
    "ino_data (fs_inodes (w_fs w') (f_ino f)) = wf_buf ?v" using e(4,5,8,9) by (simp_all add: w')
  show f: "file_at (w_fs w') = file_at (w_fs w)" by (simp add: w' fun_eq_iff file_at_def e(1))
  show "staged c (w_fs w') f'" using assms(3) staged_cong [OF e(1,5,4)] by (simp add: w')
  have fs': "fs' = (w_fs w)\<lparr>fs_inodes := (fs_inodes (w_fs w))(f_ino f := \<lparr>ino_data = wf_buf ?v, ino_mtime = fs_time (w_fs w) (wf_ops ?v)\<rparr>),
      fs_ops := fs_ops (w_fs w) + (wf_ops ?v - fs_ops (w_fs w))\<rparr>"
    using wr env(2) by (auto simp: with_writer_def store_wfile_def split: prod.splits)
  have step: "cache_step sha c w w'" unfolding w' fs' by (rule step_write [OF assms(3)])
  show "quiet sha c w w'"
  proof (rule quietI [OF step])
    fix p assume p: "in_cache c p"
    show "file_at (w_fs w') p = file_at (w_fs w) p" by (simp add: f)
    fix i assume i: "file_at (w_fs w) p = Some i"
    then have "p \<in> entry_paths c (w_fs w)" using p by (simp add: entry_paths_def)
    from staged_not_entry [OF readyD(1) [OF assms(2)] assms(3) this] i have "i \<noteq> f_ino f" by auto
    then show "ino_data (fs_inodes (w_fs w') i) = ino_data (fs_inodes (w_fs w) i)" using e(7) by (simp add: w')
  qed
qed

lemma discard_quiet:
  assumes "ready sha c w" and "staged c (w_fs w) f"
  shows "quiet sha c w (discard f w)" and "w_met (discard f w) = w_met w"
    and "fault_free (w_fs w) \<Longrightarrow> file_at (w_fs (discard f w)) = (file_at (w_fs w))(segs (f_Name f) := None)"
proof -
  obtain rc fs1 where cl: "f_Close (w_fs w) f = (rc, fs1)" by fastforce
  obtain rr fs2 where rm: "os_Remove fs1 (f_Name f) = (rr, fs2)" by fastforce
  have d: "discard f w = w\<lparr>w_fs := fs2\<rparr>" by (simp add: discard_def on_fs_def cl rm)
  note s = read_only_calls(5) [OF cl]
  note S = same_storeD [OF s] same_store_entries [OF s]
  have ok: "cache_ok c fs1" "staged c fs1 f"
    using readyD(1) [OF assms(1)] assms(2) same_store_cache_ok [OF s] staged_cong [OF S(1) refl refl] by simp_all
  note e = remove_staged_effect [OF rm ok]
  obtain x where x: "segs (f_Name f) = tmp_path c @ [x]" using stagedD [OF ok(2) readyD(4) [OF assms(1)]] by blast
  show "w_met (discard f w) = w_met w" by (simp add: d)
  show "file_at (w_fs (discard f w)) = (file_at (w_fs w))(segs (f_Name f) := None)" if "fault_free (w_fs w)"
  proof -
    have "fs_fault fs1 (fs_ops fs1) = None" using that fault_free_env [OF S(7)] by (simp add: fault_free_def)
    from e(6) [OF this] e(4) show ?thesis by (simp add: d S(11))
  qed
  have "quiet sha c w (w\<lparr>w_fs := fs1\<rparr>)" by (rule quiet_read [OF s])
  also have "quiet sha c (w\<lparr>w_fs := fs1\<rparr>) (w\<lparr>w_fs := fs2\<rparr>)"
  proof -
    have "cache_step sha c (w\<lparr>w_fs := fs1\<rparr>) ((w\<lparr>w_fs := fs1\<rparr>)\<lparr>w_fs := fs2\<rparr>)"
      by (rule step_drop [of _ _ f]) (simp_all add: ok rm)
    then show ?thesis using e(3,4) x by (intro quietI) (auto simp del: file_at_Some)
  qed
  finally show "quiet sha c w (discard f w)" by (simp only: d)
qed

lemma Commit_stage:
  assumes "Commit sha c f role ident inner w = (r, w')" and "ready sha c w" and "staged c (w_fs w) f" and "role_ok role"
  defines "e \<equiv> entry_path sha c role ident inner"
  shows "(cache_step sha c)\<^sup>*\<^sup>* w w'"
    and "r \<noteq> None \<Longrightarrow> quiet sha c w w' \<and> staged c (w_fs w') f \<and> file_at (w_fs w') = file_at (w_fs w) \<and> w_met w' = w_met w"
    and "r = None \<Longrightarrow> file_at (w_fs w') = (file_at (w_fs w))(segs (f_Name f) := None, e := Some (f_ino f))"
    and "r = None \<Longrightarrow> cache_entry c w' = (cache_entry c w)(e := Some (ino_data (fs_inodes (w_fs w) (f_ino f))))"
    and "fs_inodes (w_fs w') = fs_inodes (w_fs w)"
    and "fault_free (w_fs w) \<Longrightarrow> r = None"
proof -
  note eff = Commit_effect [OF assms(1) readyD(1) [OF assms(2)] assms(3) readyD(2) [OF assms(2)] assms(4)]
  have step: "cache_step sha c w w'" by (rule step_commit [OF assms(4,3,1)])
  then show "(cache_step sha c)\<^sup>*\<^sup>* w w'" by simp
  show "fs_inodes (w_fs w') = fs_inodes (w_fs w)" by (rule eff(3))
  show "quiet sha c w w' \<and> staged c (w_fs w') f \<and> file_at (w_fs w') = file_at (w_fs w) \<and> w_met w' = w_met w" if "r \<noteq> None"
    using eff(3) eff(4) [OF that] by (auto intro!: quietI [OF step] simp del: file_at_Some)
  show f: "r = None \<Longrightarrow> file_at (w_fs w') = (file_at (w_fs w))(segs (f_Name f) := None, e := Some (f_ino f))"
    using eff(5) by (simp add: assms(5))
  show "r = None" if "fault_free (w_fs w)"
    using Commit_succeeds_lemma [OF readyD(1) [OF assms(2)] assms(3) readyD(2) [OF assms(2)] assms(4) that] assms(1)
    by (metis fst_conv)
  assume r: "r = None"
  obtain x where x: "segs (f_Name f) = tmp_path c @ [x]" using stagedD [OF assms(3) readyD(4) [OF assms(2)]] by blast
  have "prefix (croot c) e" "butlast e \<noteq> tmp_path c"
    by (auto simp: assms(5) entry_path_def Let_def tmp_path_def butlast_append)
  with f [OF r] eff(3) x show "cache_entry c w' = (cache_entry c w)(e := Some (ino_data (fs_inodes (w_fs w) (f_ino f))))"
    by (auto simp: fun_eq_iff cache_entry_def content_at_file simp del: file_at_Some)
qed

section \<open>The two ends of a staging file\<close>

text \<open>A staging file in use: made in \<open>w1\<close>, since then only written to.\<close>

definition in_use :: "(bytes \<Rightarrow> bytes) \<Rightarrow> cache \<Rightarrow> world \<Rightarrow> world \<Rightarrow> osfile \<Rightarrow> bool" where
  "in_use sha c w1 w f \<longleftrightarrow> ready sha c w1 \<and> quiet sha c w1 w \<and> staged c (w_fs w) f
     \<and> file_at (w_fs w1) (segs (f_Name f)) = None
     \<and> file_at (w_fs w) = (file_at (w_fs w1))(segs (f_Name f) := Some (f_ino f))"

lemma in_use_new:
  assumes "on_fs (NewTemp c) w1 = (Inr f, w)" and "ready sha c w1"
  shows "in_use sha c w1 w f" and "f_pos f = 0" and "ino_data (fs_inodes (w_fs w) (f_ino f)) = []"
  using NewTemp_quiet [OF assms] assms(2) by (simp_all add: in_use_def)

lemma in_use_ready: "in_use sha c w1 w f \<Longrightarrow> ready sha c w \<and> (fault_free (w_fs w1) \<longrightarrow> fault_free (w_fs w))"
  using quiet_ready by (auto simp: in_use_def)

lemma in_use_write:
  assumes "on_file f body w = (r, f', w')" and "in_use sha c w1 w f" and "keeps_env body"
  shows "in_use sha c w1 w' f'" and "f_ino f' = f_ino f" and "r = fst (body (wfile_of (w_fs w) f))"
    and "ino_data (fs_inodes (w_fs w') (f_ino f')) = wf_buf (snd (body (wfile_of (w_fs w) f)))"
proof -
  have s: "staged c (w_fs w) f" using assms(2) by (simp add: in_use_def)
  note o = on_file_quiet [OF assms(1) conjunct1 [OF in_use_ready [OF assms(2)]] s assms(3)]
  show "in_use sha c w1 w' f'"
    using assms(2) o quiet_trans [of sha c w1 w w'] by (simp add: in_use_def)
  show "f_ino f' = f_ino f" "r = fst (body (wfile_of (w_fs w) f))"
    "ino_data (fs_inodes (w_fs w') (f_ino f')) = wf_buf (snd (body (wfile_of (w_fs w) f)))" using o by simp_all
qed

lemma in_use_quiet:
  assumes "in_use sha c w1 w f" and "quiet sha c w w'" and "fs_nodes (w_fs w') = fs_nodes (w_fs w)"
  shows "in_use sha c w1 w' f"
proof -
  have "file_at (w_fs w') = file_at (w_fs w)" using assms(3) by (simp add: fun_eq_iff file_at_def)
  with assms(1) quiet_trans [OF _ assms(2)] staged_cong [OF assms(3) refl refl] show ?thesis by (simp add: in_use_def)
qed

lemma in_use_discard:
  assumes "in_use sha c w1 w f"
  shows "quiet sha c w1 (discard f w)" and "w_met (discard f w) = w_met w"
    and "fault_free (w_fs w1) \<Longrightarrow> file_at (w_fs (discard f w)) = file_at (w_fs w1)"
proof -
  from assms have "staged c (w_fs w) f" by (simp add: in_use_def)
  note d = discard_quiet [OF conjunct1 [OF in_use_ready [OF assms]] this]
  show "quiet sha c w1 (discard f w)" using assms d(1) quiet_trans by (auto simp: in_use_def)
  show "w_met (discard f w) = w_met w" by (rule d(2))
  show "file_at (w_fs (discard f w)) = file_at (w_fs w1)" if "fault_free (w_fs w1)"
    using d(3) in_use_ready [OF assms] that assms by (auto simp: in_use_def)
qed

lemma in_use_commit:
  assumes "Commit sha c f role ident inner w = (r, w')" and "in_use sha c w1 w f" and "role_ok role"
  defines "e \<equiv> entry_path sha c role ident inner"
  shows "r \<noteq> None \<Longrightarrow> in_use sha c w1 w' f \<and> w_met w' = w_met w"
    and "fault_free (w_fs w1) \<Longrightarrow> r = None"
    and "(cache_step sha c)\<^sup>*\<^sup>* w1 w'"
    and "r = None \<Longrightarrow> file_at (w_fs w') = (file_at (w_fs w1))(e := Some (f_ino f))"
    and "r = None \<Longrightarrow> cache_entry c w' = (cache_entry c w1)(e := Some (ino_data (fs_inodes (w_fs w) (f_ino f))))"
proof -
  have s: "staged c (w_fs w) f" and q: "quiet sha c w1 w" using assms(2) by (simp_all add: in_use_def)
  note c = Commit_stage [OF assms(1) conjunct1 [OF in_use_ready [OF assms(2)]] s assms(3)]
  show "in_use sha c w1 w' f \<and> w_met w' = w_met w" if "r \<noteq> None"
    using c(2) [OF that] assms(2) quiet_trans [OF q] by (simp add: in_use_def)
  show "fault_free (w_fs w1) \<Longrightarrow> r = None" using c(6) in_use_ready [OF assms(2)] by blast
  show "(cache_step sha c)\<^sup>*\<^sup>* w1 w'" using quiet_steps [OF q] c(1) by (rule rtranclp_trans)
  show "file_at (w_fs w') = (file_at (w_fs w1))(e := Some (f_ino f))" if "r = None"
    using c(3) [OF that] assms(2) by (auto simp: in_use_def assms(4) fun_eq_iff)
  show "cache_entry c w' = (cache_entry c w1)(e := Some (ino_data (fs_inodes (w_fs w) (f_ino f))))" if "r = None"
    using c(4) [OF that] quiet_entry [OF q] by (simp add: assms(4))
qed

section \<open>Staging succeeds without faults\<close>

text \<open>\<open>os.CreateTemp\<close> gives up only after many taken names; here each of its calls meets a free one.\<close>

definition fresh_names :: "cache \<Rightarrow> osfs \<Rightarrow> bool" where
  "fresh_names c fs \<longleftrightarrow> (\<forall>n. \<exists>x \<in> set (fs_rand fs n). file_at fs (tmp_path c @ [tmpPattern @ x]) = None)"

lemma fresh_names_mono:
  assumes "fresh_names c fs" and "same_env fs fs'"
    and "\<And>x. file_at fs' (tmp_path c @ [x]) = file_at fs (tmp_path c @ [x])"
  shows "fresh_names c fs'"
  using assms by (simp add: fresh_names_def same_env_def del: file_at_Some)

lemma fresh_names_cong: "same_env fs fs' \<Longrightarrow> file_at fs' = file_at fs \<Longrightarrow> fresh_names c fs' = fresh_names c fs"
  by (simp add: fresh_names_def same_env_def del: file_at_Some)

lemma NewTemp_succeeds:
  assumes "ready sha c w" and "fault_free (w_fs w)" and "fresh_names c (w_fs w)" and "on_fs (NewTemp c) w = (r, w')"
  obtains f where "r = Inr f"
proof -
  let ?fs = "w_fs w"
  note ok = readyD [OF assms(1)]
  let ?names = "map (\<lambda>x. filepath_Join (abspath (tmp_path c)) (tmpPattern @ x)) (fs_rand ?fs (fs_ops ?fs))"
  from assms(3) obtain x where x: "x \<in> set (fs_rand ?fs (fs_ops ?fs))" "file_at ?fs (tmp_path c @ [tmpPattern @ x]) = None"
    unfolding fresh_names_def by blast
  have sx: "seg_ok (tmpPattern @ x)" using ok(3) x(1) by (auto simp: rand_ok_def seg_ok_def tmpPattern_def)
  have nm: "filepath_Join (abspath (tmp_path c)) (tmpPattern @ x) = abspath (tmp_path c @ [tmpPattern @ x])"
    using tmp_path_ok [OF ok(4)] sx by (intro filepath_Join_abspath) auto
  have "node_at ?fs (tmp_path c @ [tmpPattern @ x]) = None"
  proof (cases "node_at ?fs (tmp_path c @ [tmpPattern @ x])")
    case (Some n)
    then have "fits [tmpSubdir, tmpPattern @ x] n" using cache_okD(4) [OF ok(1)] by (simp add: tmp_path_def)
    with Some x(2) show ?thesis by (cases n) (auto simp: fits_def file_at_def)
  qed
  then have free: "node_at (os_tick ?fs) (segs (filepath_Join (abspath (tmp_path c)) (tmpPattern @ x))) = None"
    using segs_tmp_name [OF ok(4) sx] by (simp add: nm)
  have "find (\<lambda>p. node_at (os_tick ?fs) (segs p) = None) ?names \<noteq> None"
    using x(1) free by (auto simp: find_None_iff)
  then obtain p where p: "find (\<lambda>p. node_at (os_tick ?fs) (segs p) = None) ?names = Some p" by blast
  have "node_at (os_tick ?fs) (segs (abspath (tmp_path c))) = Some DirNode"
    using cache_okD(3) [OF ok(1)] tmp_path_ok [OF ok(4)] by simp
  with p assms(2) tmp_dir_eq [OF ok(4)] have "\<exists>f fs'. NewTemp c ?fs = (Inr f, fs')"
    by (simp add: NewTemp_def os_CreateTemp_def syscall_def fault_free_def Let_def del: os_tick_simps)
  with assms(4) that show thesis by (auto simp: on_fs_def)
qed

section \<open>Producing an entry\<close>

text \<open>
  The contract of a producer of the entry \<open>e\<close>: with an error every entry is as before, and
  without faults no file is left behind and the run was not \<open>smooth\<close>; without an error the
  entry, and nothing else, holds bytes as \<open>made\<close> says.
\<close>

definition produced :: "(bytes \<Rightarrow> bytes) \<Rightarrow> cache \<Rightarrow> path \<Rightarrow> (bytes \<Rightarrow> bool) \<Rightarrow> bool \<Rightarrow> world \<Rightarrow> goerr option \<Rightarrow> world \<Rightarrow> bool" where
  "produced sha c e made smooth w r w' \<longleftrightarrow>
     (if r \<noteq> None then quiet sha c w w' \<and> (fault_free (w_fs w) \<longrightarrow> file_at (w_fs w') = file_at (w_fs w) \<and> \<not> smooth)
      else (cache_step sha c)\<^sup>*\<^sup>* w w'
        \<and> (\<exists>d i. made d \<and> cache_entry c w' = (cache_entry c w)(e := Some d)
             \<and> file_at (w_fs w') = (file_at (w_fs w))(e := Some i)))"

lemma produced_steps: "produced sha c e made smooth w r w' \<Longrightarrow> (cache_step sha c)\<^sup>*\<^sup>* w w'"
  by (auto simp: produced_def quiet_steps split: if_splits)

lemma produced_error:
  assumes "quiet sha c w w'" and "fault_free (w_fs w) \<Longrightarrow> file_at (w_fs w') = file_at (w_fs w)"
    and "fault_free (w_fs w) \<Longrightarrow> \<not> smooth" and "r \<noteq> None"
  shows "produced sha c e made smooth w r w'"
  using assms by (simp add: produced_def)

lemma produced_after:
  assumes "quiet sha c w w1" and "file_at (w_fs w1) = file_at (w_fs w)" and "ready sha c w"
    and "produced sha c e made smooth w1 r w'"
  shows "produced sha c e made smooth w r w'"
  using assms(4) quiet_trans [OF assms(1)] quiet_ready(3) [OF assms(3,1)] rtranclp_trans [OF quiet_steps [OF assms(1)]]
  by (auto simp: produced_def assms(2) quiet_entry [OF assms(1)] simp del: file_at_Some split: if_splits)

lemma produced_discard:
  assumes "in_use sha c w1 v f" and "fault_free (w_fs w1) \<Longrightarrow> \<not> smooth" and "r \<noteq> None"
  shows "produced sha c e made smooth w1 r (discard f v)"
  using in_use_discard(1,3) [OF assms(1)] assms(2,3) by (intro produced_error)

lemma produced_commit:
  assumes "in_use sha c w1 v f" and "Commit sha c f role ident inner v = (rc, v')" and "role_ok role"
    and "made (ino_data (fs_inodes (w_fs v) (f_ino f)))"
    and "case rc of None \<Rightarrow> r = None \<and> w' = v' | Some e \<Rightarrow> r \<noteq> None \<and> w' = discard f v'"
  shows "produced sha c (entry_path sha c role ident inner) made smooth w1 r w'"
proof (cases rc)
  case None
  with in_use_commit [OF assms(2,1,3)] assms(4,5) show ?thesis by (auto simp: produced_def simp del: file_at_Some)
next
  case (Some e)
  note C = in_use_commit [OF assms(2,1,3)]
  from produced_discard [OF conjunct1 [OF C(1)], where r = r and made = made] C(2) Some assms(5) show ?thesis by auto
qed

text \<open>A staging file that cannot be made.\<close>

lemma produced_no_temp:
  assumes "on_fs (NewTemp c) w = (Inl x, w')" and "ready sha c w" and "smooth \<Longrightarrow> fresh_names c (w_fs w)" and "r \<noteq> None"
  shows "produced sha c e made smooth w r w'"
proof (rule produced_error [OF NewTemp_quiet(1) [OF assms(1,2)] _ _ assms(4)])
  show "file_at (w_fs w') = file_at (w_fs w)"
    by (rule same_store_entries(3) [OF NewTemp_quiet(2) [OF assms(1,2) refl]])
  show "\<not> smooth" if "fault_free (w_fs w)"
    using NewTemp_succeeds [OF assms(2) that assms(3) assms(1)] by blast
qed

end
