(* ===== verification/Cab.thy ===== *)
theory Cab
  imports GoIO
begin

text \<open>
  Package \<open>cab\<close>: the MSZIP block writer of \<open>mszip.go\<close> and the streaming cabinet writer of
  \<open>writer.go\<close>, with the byte image a successful write must leave (\<open>cab_image\<close>), the
  reference extractor of \<open>writer_test.go\<close> (\<open>extractCAB\<close>) and the round trip between them.

  Compression itself (\<open>compress/flate\<close>) is the parameter \<open>flate_lib\<close>. The block buffers the
  code reuses between calls are not modelled: each returned payload is consumed before
  the next call.
\<close>

section \<open>Constants (constants.go)\<close>

definition headerSignature :: string where
  "headerSignature = ''MSCF''"

definition versionMajor :: byte where
  "versionMajor = 1"

definition versionMinor :: byte where
  "versionMinor = 3"

definition compressionMSZIP :: "16 word" where
  "compressionMSZIP = 1"

definition attribArchive :: "16 word" where
  "attribArchive = 0x20"

definition cfHeaderSize :: nat where
  "cfHeaderSize = 36"

definition cfFolderSize :: nat where
  "cfFolderSize = 8"

definition cfFileFixedSize :: nat where
  "cfFileFixedSize = 16"

definition cfDataHeaderLen :: nat where
  "cfDataHeaderLen = 8"

definition storedHeaderLen :: nat where
  "storedHeaderLen = 5"

definition deflateStoredFinalByte :: byte where
  "deflateStoredFinalByte = 1"

definition offCbCabinet :: nat where
  "offCbCabinet = 8"

definition offCCFData :: nat where
  "offCCFData = cfHeaderSize + 4"

definition maxBlockUncompressed :: nat where
  "maxBlockUncompressed = 32768"

definition maxBlocks :: nat where
  "maxBlocks = 0xFFFF"

definition maxFolderUncompessed :: int where
  "maxFolderUncompessed = int maxBlocks * int maxBlockUncompressed"

definition dosDate :: "16 word" where
  "dosDate = 0x0021"

definition dosTime :: "16 word" where
  "dosTime = 0"

definition mszipSignature :: bytes where
  "mszipSignature = bytes_of_string ''CK''"

lemmas cab_consts = versionMajor_def versionMinor_def compressionMSZIP_def attribArchive_def
  cfHeaderSize_def cfFolderSize_def cfFileFixedSize_def cfDataHeaderLen_def storedHeaderLen_def
  deflateStoredFinalByte_def offCbCabinet_def offCCFData_def maxBlockUncompressed_def maxBlocks_def
  maxFolderUncompessed_def dosDate_def dosTime_def

section \<open>MSZIP blocks (mszip.go)\<close>

text \<open>
  A \<open>flate.Writer\<close> with an empty history, fed one chunk: whether \<open>Write\<close> fails, and what
  \<open>Close\<close> leaves in the sink.
\<close>

record flate_lib =
  fl_Write_err :: "bytes \<Rightarrow> goerr option"
  fl_Close :: "bytes \<Rightarrow> bytes result"

definition writeStored :: "bytes \<Rightarrow> bytes" where
  "writeStored data =
     deflateStoredFinalByte # put_uint16 (word_of_nat (length data))
       @ put_uint16 (not (word_of_nat (length data))) @ data"

definition mszip_block :: "flate_lib \<Rightarrow> bytes \<Rightarrow> bytes result" where
  "mszip_block fl data =
     (case fl_Write_err fl data of
        Some e \<Rightarrow> Inl (Wrap ''deflating block'' e)
      | None \<Rightarrow>
        (case fl_Close fl data of
           Inl e \<Rightarrow> Inl (Wrap ''finishing deflate block'' e)
         | Inr deflated \<Rightarrow>
           (if length deflated > storedHeaderLen + length data
            then Inr (mszipSignature @ writeStored data)
            else Inr (mszipSignature @ deflated))))"

section \<open>The writer (writer.go)\<close>

definition encodeName :: "string \<Rightarrow> bytes result" where
  "encodeName name =
     (if name = '''' then Inl (NewError ''cab: empty file name'')
      else if list_ex (\<lambda>c. (of_char c :: nat) < 0x20 \<or> (of_char c :: nat) > 0x7e) name
      then Inl (NewError ''cab: file name has a non-printable-ASCII byte'')
      else Inr (bytes_of_string name @ [0]))"

text \<open>The three fixed structures, as the byte arrays the code fills.\<close>

definition header_bytes :: "nat \<Rightarrow> bytes" where
  "header_bytes coffFiles =
     bytes_of_string headerSignature @ replicate 12 0
     @ put_uint32 (word_of_nat coffFiles) @ replicate 4 0
     @ [versionMinor, versionMajor] @ put_uint16 1 @ put_uint16 1 @ replicate 6 0"

definition writeHeader :: "errWriter \<Rightarrow> nat \<Rightarrow> errWriter" where
  "writeHeader w coffFiles = ew_write w (header_bytes coffFiles)"

definition folder_bytes :: "nat \<Rightarrow> bytes" where
  "folder_bytes firstDataOffset =
     put_uint32 (word_of_nat firstDataOffset) @ replicate 2 0 @ put_uint16 compressionMSZIP"

definition writeFolder :: "errWriter \<Rightarrow> nat \<Rightarrow> errWriter" where
  "writeFolder w firstDataOffset = ew_write w (folder_bytes firstDataOffset)"

definition file_bytes :: "int \<Rightarrow> bytes \<Rightarrow> bytes" where
  "file_bytes sz name =
     put_uint32 (word_of_int sz) @ replicate 6 0 @ put_uint16 dosDate @ put_uint16 dosTime
     @ put_uint16 attribArchive @ name"

definition writeFile :: "errWriter \<Rightarrow> int \<Rightarrow> bytes \<Rightarrow> errWriter" where
  "writeFile w sz name = ew_write w (file_bytes sz name)"

definition readChunk :: "reader \<Rightarrow> nat \<Rightarrow> (bytes \<times> bool) result \<times> reader" where
  "readChunk r n =
     (case io_ReadFull r n of
        (bs, RfNil, r') \<Rightarrow> (Inr (bs, False), r')
      | (bs, RfEOF, r') \<Rightarrow> (Inr ([], True), r')
      | (bs, RfUnexpectedEOF, r') \<Rightarrow> (Inr (bs, True), r')
      | (bs, RfOther, r') \<Rightarrow> (Inl (Wrap ''reading input'' (EnvError ''read'')), r'))"

definition data_header :: "nat \<Rightarrow> nat \<Rightarrow> bytes" where
  "data_header cbData n = put_uint32 0 @ put_uint16 (word_of_nat cbData) @ put_uint16 (word_of_nat n)"

text \<open>The body of the loop of \<open>streamBody\<close>, after the chunk has been read.\<close>

definition emitBlock :: "flate_lib \<Rightarrow> errWriter \<Rightarrow> 16 word \<Rightarrow> int \<Rightarrow> bytes
    \<Rightarrow> (16 word \<times> int) result \<times> errWriter" where
  "emitBlock fl w blocks tot chunk =
     (if length chunk > 0 \<or> blocks = 0 then
        (case mszip_block fl chunk of
           Inl e \<Rightarrow> (Inl e, w)
         | Inr payload \<Rightarrow>
           (if blocks = word_of_nat maxBlocks then (Inl CabTooLarge, w)
            else
              let cbData = length payload;
                  w1 = ew_write w (data_header cbData (length chunk));
                  w2 = ew_write w1 payload
              in case ew_err w2 of
                   Some e \<Rightarrow> (Inl e, w2)
                 | None \<Rightarrow> (Inr (blocks + 1, tot + int (cfDataHeaderLen + cbData)), w2)))
      else (Inr (blocks, tot), w))"

lemma readChunk_rest:
  "readChunk r n = (Inr (chunk, False), r') \<Longrightarrow> 0 < n \<Longrightarrow> length (rd_rest r') < length (rd_rest r)"
  by (auto simp: readChunk_def io_ReadFull_def Let_def split: if_splits read_end.splits)

function streamBody :: "flate_lib \<Rightarrow> errWriter \<Rightarrow> reader \<Rightarrow> 16 word \<Rightarrow> int \<Rightarrow> int \<Rightarrow> int
    \<Rightarrow> (16 word \<times> int) result \<times> errWriter" where
  "streamBody fl w r blocks tot seen usize =
     (case readChunk r maxBlockUncompressed of
        (Inl e, r') \<Rightarrow> (Inl e, w)
      | (Inr (chunk, eof), r') \<Rightarrow>
        (let seen' = seen + int (length chunk) in
         case emitBlock fl w blocks tot chunk of
           (Inl e, w') \<Rightarrow> (Inl e, w')
         | (Inr (blocks', tot'), w') \<Rightarrow>
           (if eof then
              (if seen' \<noteq> usize then (Inl (Wrap ''read/declared'' CabSizeMismatch), w')
               else (Inr (blocks', tot'), w'))
            else streamBody fl w' r' blocks' tot' seen' usize)))"
  by pat_completeness auto
termination
proof (relation "measure (\<lambda>(fl, w, r, _). length (rd_rest r))", goal_cases)
  case (2 fl w r blocks tot seen usize x r' y chunk eof seen' z w' p blocks' tot')
  then show ?case
    using readChunk_rest [of r maxBlockUncompressed chunk r']
    by (cases eof) (simp_all add: maxBlockUncompressed_def)
qed simp

declare streamBody.simps [simp del]

text \<open>\<open>fmt.Errorf\<close> around the error of one call of \<open>patch\<close>.\<close>

definition patch :: "wfile \<Rightarrow> int \<Rightarrow> 16 word \<Rightarrow> goerr option \<times> wfile" where
  "patch out tot blocks =
     (case wf_SeekStart out offCbCabinet of
        (Some e, f1) \<Rightarrow> (Some (Wrap ''seeking to cbCabinet field'' e), f1)
      | (None, f1) \<Rightarrow>
     (case wf_Write f1 (put_uint32 (word_of_int tot)) of
        (Some e, f2) \<Rightarrow> (Some (Wrap ''patching cbCabinet'' e), f2)
      | (None, f2) \<Rightarrow>
     (case wf_SeekStart f2 offCCFData of
        (Some e, f3) \<Rightarrow> (Some (Wrap ''seeking to cCFData field'' e), f3)
      | (None, f3) \<Rightarrow>
     (case wf_Write f3 (put_uint16 blocks) of
        (Some e, f4) \<Rightarrow> (Some (Wrap ''patching cCFData'' e), f4)
      | (None, f4) \<Rightarrow>
     (case wf_SeekEnd f4 of
        (Some e, f5) \<Rightarrow> (Some (Wrap ''seeking to end'' e), f5)
      | (None, f5) \<Rightarrow> (None, f5))))))"

definition cab_Write :: "flate_lib \<Rightarrow> wfile \<Rightarrow> string \<Rightarrow> int \<Rightarrow> reader \<Rightarrow> goerr option \<times> wfile" where
  "cab_Write fl out innerFilename uncompressedSize r =
     (if uncompressedSize < 0 \<or> uncompressedSize > maxFolderUncompessed then (Some CabTooLarge, out)
      else case encodeName innerFilename of
        Inl e \<Rightarrow> (Some e, out)
      | Inr name \<Rightarrow>
        (let cffileSize = cfFileFixedSize + length name;
             coffFiles = cfHeaderSize + cfFolderSize;
             firstDataOffset = coffFiles + cffileSize;
             w0 = \<lparr>ew_w = out, ew_err = None\<rparr>;
             w1 = writeHeader w0 coffFiles;
             w2 = writeFolder w1 firstDataOffset;
             w3 = writeFile w2 uncompressedSize name
         in case ew_err w3 of
              Some e \<Rightarrow> (Some e, ew_w w3)
            | None \<Rightarrow>
              (case streamBody fl w3 r 0 (int firstDataOffset) 0 uncompressedSize of
                 (Inl e, w4) \<Rightarrow> (Some e, ew_w w4)
               | (Inr (blocks, tot), w4) \<Rightarrow> patch (ew_w w4) tot blocks)))"

section \<open>The image of a cabinet\<close>

text \<open>The payload in 32 KiB pieces; an empty payload still has one (empty) block.\<close>

function chunks :: "bytes \<Rightarrow> bytes list" where
  "chunks d = (if d = [] then [] else take maxBlockUncompressed d # chunks (drop maxBlockUncompressed d))"
  by pat_completeness auto
termination
  by (relation "measure length") (simp_all add: maxBlockUncompressed_def)

declare chunks.simps [simp del]

definition cab_chunks :: "bytes \<Rightarrow> bytes list" where
  "cab_chunks d = (if d = [] then [[]] else chunks d)"

definition block_of :: "flate_lib \<Rightarrow> bytes \<Rightarrow> bytes" where
  "block_of fl chunk = (case mszip_block fl chunk of Inr p \<Rightarrow> p | Inl _ \<Rightarrow> [])"

definition cfdata :: "flate_lib \<Rightarrow> bytes \<Rightarrow> bytes" where
  "cfdata fl chunk = data_header (length (block_of fl chunk)) (length chunk) @ block_of fl chunk"

definition cab_body :: "flate_lib \<Rightarrow> bytes \<Rightarrow> bytes" where
  "cab_body fl d = concat (map (cfdata fl) (cab_chunks d))"

definition cab_size :: "flate_lib \<Rightarrow> string \<Rightarrow> bytes \<Rightarrow> nat" where
  "cab_size fl name d = 61 + length name + length (cab_body fl d)"

text \<open>The image: the three structures with the back-patched fields filled in, then the blocks.\<close>

definition cab_image :: "flate_lib \<Rightarrow> string \<Rightarrow> bytes \<Rightarrow> bytes" where
  "cab_image fl name d =
     bytes_of_string headerSignature @ replicate 4 0 @ put_uint32 (word_of_nat (cab_size fl name d))
     @ replicate 4 0 @ put_uint32 44 @ replicate 4 0
     @ [versionMinor, versionMajor] @ put_uint16 1 @ put_uint16 1 @ replicate 6 0
     @ put_uint32 (word_of_nat (61 + length name)) @ put_uint16 (word_of_nat (length (cab_chunks d)))
     @ put_uint16 compressionMSZIP
     @ file_bytes (int (length d)) (bytes_of_string name @ [0])
     @ cab_body fl d"

subsection \<open>Chunks\<close>

lemma chunks_Nil [simp]: "chunks [] = []"
  by (subst chunks.simps) simp

lemma chunks_nonempty: "d \<noteq> [] \<Longrightarrow>
    chunks d = take maxBlockUncompressed d # chunks (drop maxBlockUncompressed d)"
  by (subst chunks.simps) simp

lemma chunks_last: "d \<noteq> [] \<Longrightarrow> length d \<le> maxBlockUncompressed \<Longrightarrow> chunks d = [d]"
  by (simp add: chunks_nonempty)

lemma concat_chunks [simp]: "concat (chunks d) = d"
  by (induction d rule: chunks.induct) (subst chunks.simps, auto)

lemma concat_cab_chunks [simp]: "concat (cab_chunks d) = d"
  by (simp add: cab_chunks_def)

lemma chunks_le: "c \<in> set (chunks d) \<Longrightarrow> length c \<le> maxBlockUncompressed"
proof (induction d rule: chunks.induct)
  case (1 d)
  then show ?case by (cases "d = []") (auto simp: chunks_nonempty)
qed

lemma cab_chunks_le: "c \<in> set (cab_chunks d) \<Longrightarrow> length c \<le> maxBlockUncompressed"
  by (auto simp: cab_chunks_def chunks_le split: if_splits)

lemma length_chunks_le: "length d \<le> n * maxBlockUncompressed \<Longrightarrow> length (chunks d) \<le> n"
proof (induction d arbitrary: n rule: chunks.induct)
  case (1 d)
  show ?case
  proof (cases "d = []")
    case False
    with "1.prems" obtain m where n: "n = Suc m" by (cases n) auto
    with "1.prems" have "length (drop maxBlockUncompressed d) \<le> m * maxBlockUncompressed" by simp
    with 1 False n show ?thesis by (simp add: chunks_nonempty)
  qed simp
qed

lemma length_chunks_ge: "length d \<le> length (chunks d) * maxBlockUncompressed"
proof (induction d rule: chunks.induct)
  case (1 d)
  then show ?case by (cases "d = []") (auto simp: chunks_nonempty)
qed

subsection \<open>Blocks never expand\<close>

lemma length_mszipSignature [simp]: "length mszipSignature = 2"
  by (simp add: mszipSignature_def)

lemma length_writeStored [simp]: "length (writeStored d) = 5 + length d"
  by (simp add: writeStored_def)

lemma mszip_block_length:
  assumes "mszip_block fl d = Inr p"
  shows "length p \<le> 7 + length d"
  using assms
  by (auto simp: mszip_block_def storedHeaderLen_def split: option.splits sum.splits if_splits)

lemma block_of_length: "length (block_of fl d) \<le> 7 + length d"
  by (auto simp: block_of_def split: sum.splits dest: mszip_block_length)

lemma length_data_header [simp]: "length (data_header a b) = 8"
  by (simp add: data_header_def)

lemma length_cfdata: "length (cfdata fl c) = 8 + length (block_of fl c)"
  by (simp add: cfdata_def)

lemma cfdata_length_le: "c \<in> set (cab_chunks d) \<Longrightarrow> length (cfdata fl c) \<le> 32783"
  using cab_chunks_le [of c d] block_of_length [of fl c]
  by (simp add: length_cfdata maxBlockUncompressed_def)

lemma sum_list_le: "(\<And>x. x \<in> set xs \<Longrightarrow> f x \<le> k) \<Longrightarrow> sum_list (map f xs) \<le> length xs * (k :: nat)"
  by (induction xs) (simp, fastforce)

lemma cab_body_length: "length (cab_body fl d) \<le> length (cab_chunks d) * 32783"
proof -
  have "length (cab_body fl d) = sum_list (map (\<lambda>c. length (cfdata fl c)) (cab_chunks d))"
    by (simp add: cab_body_def length_concat comp_def)
  also have "\<dots> \<le> length (cab_chunks d) * 32783"
    by (rule sum_list_le) (rule cfdata_length_le)
  finally show ?thesis .
qed

section \<open>What a successful write leaves\<close>

lemma word_of_maxBlocks: "blocks \<noteq> word_of_nat maxBlocks \<Longrightarrow> unat (blocks + 1 :: 16 word) = Suc (unat blocks)"
proof -
  assume "blocks \<noteq> word_of_nat maxBlocks"
  moreover have "(word_of_nat maxBlocks :: 16 word) = -1"
    by (simp add: maxBlocks_def)
  ultimately have "blocks + 1 \<noteq> 0" by (simp add: eq_neg_iff_add_eq_0)
  then show ?thesis by (metis add.commute unatSuc)
qed

definition pending :: "16 word \<Rightarrow> bytes \<Rightarrow> bytes list" where
  "pending blocks rest = (if rest = [] \<and> blocks = 0 then [[]] else chunks rest)"

lemma emitBlock_ok:
  assumes "emitBlock fl w blocks tot chunk = (Inr (blocks', tot'), w')"
    and "chunk \<noteq> [] \<or> blocks = 0" and "ew_err w = None" and "at_end (ew_w w)"
  shows "is_ok (mszip_block fl chunk)" and "unat blocks' = Suc (unat blocks)"
    and "tot' = tot + int (length (cfdata fl chunk))"
    and "wf_buf (ew_w w') = wf_buf (ew_w w) @ cfdata fl chunk"
    and "ew_err w' = None" and "at_end (ew_w w')"
proof -
  from assms(1,2) obtain payload where p: "mszip_block fl chunk = Inr payload"
    by (auto simp: emitBlock_def split: sum.splits)
  let ?w1 = "ew_write w (data_header (length payload) (length chunk))"
  let ?w2 = "ew_write ?w1 payload"
  from assms(1,2) p have nb: "blocks \<noteq> word_of_nat maxBlocks" and e: "ew_err ?w2 = None"
    and w': "w' = ?w2" "blocks' = blocks + 1" "tot' = tot + int (cfDataHeaderLen + length payload)"
    by (auto simp: emitBlock_def Let_def split: if_splits option.splits)
  have e1: "ew_err ?w1 = None"
    using e by (auto simp: ew_write_def split: option.splits prod.splits)
  note w1 = ew_write_ok [OF e1 assms(4)]
  note w2 = ew_write_ok [OF e w1(3)]
  show "is_ok (mszip_block fl chunk)" by (simp add: p)
  show "unat blocks' = Suc (unat blocks)" using nb by (simp add: w' word_of_maxBlocks)
  show "tot' = tot + int (length (cfdata fl chunk))"
    by (simp add: w' length_cfdata block_of_def p cfDataHeaderLen_def)
  show "wf_buf (ew_w w') = wf_buf (ew_w w) @ cfdata fl chunk"
    using w1(2) w2(2) by (simp add: w' cfdata_def block_of_def p)
  show "ew_err w' = None" "at_end (ew_w w')" using e w2(3) by (simp_all add: w')
qed

lemma readChunk_cases:
  assumes "readChunk r maxBlockUncompressed = (Inr (chunk, eof), r')"
  shows "chunk = take maxBlockUncompressed (rd_rest r)" and "rd_rest r' = drop maxBlockUncompressed (rd_rest r)"
    and "rd_end r' = rd_end r" and "eof \<longleftrightarrow> length (rd_rest r) < maxBlockUncompressed"
    and "eof \<Longrightarrow> rd_end r = AtEOF"
  using assms
  by (auto simp: readChunk_def io_ReadFull_def Let_def split: if_splits read_end.splits)

text \<open>
  A successful \<open>streamBody\<close> has read its input to the end, found the declared length,
  appended one CFDATA block per piece, and counted blocks and bytes exactly.
\<close>

definition stream_post :: "flate_lib \<Rightarrow> errWriter \<Rightarrow> reader \<Rightarrow> 16 word \<Rightarrow> int \<Rightarrow> int \<Rightarrow> int
    \<Rightarrow> 16 word \<Rightarrow> int \<Rightarrow> errWriter \<Rightarrow> bool" where
  "stream_post fl w r blocks tot seen usize blocks' tot' w' \<longleftrightarrow>
     (let cs = pending blocks (rd_rest r); body = concat (map (cfdata fl) cs) in
      rd_end r = AtEOF \<and> usize = seen + int (length (rd_rest r))
      \<and> list_all (\<lambda>c. is_ok (mszip_block fl c)) cs
      \<and> unat blocks' = unat blocks + length cs \<and> tot' = tot + int (length body)
      \<and> wf_buf (ew_w w') = wf_buf (ew_w w) @ body \<and> ew_err w' = None \<and> at_end (ew_w w'))"

lemma streamBody_ok:
  assumes "streamBody fl w r blocks tot seen usize = (Inr (blocks', tot'), w')"
    and "ew_err w = None" and "at_end (ew_w w)"
  shows "stream_post fl w r blocks tot seen usize blocks' tot' w'"
  using assms
proof (induction fl w r blocks tot seen usize rule: streamBody.induct)
  case (1 fl w r blocks tot seen usize)
  note sb = "1.prems"(1) [unfolded streamBody.simps [of fl w r blocks tot seen usize]]
  from sb obtain chunk eof r' where rc: "readChunk r maxBlockUncompressed = (Inr (chunk, eof), r')"
    by (auto split: prod.splits sum.splits)
  note c = readChunk_cases [OF rc]
  from sb rc obtain b1 t1 w1 where em: "emitBlock fl w blocks tot chunk = (Inr (b1, t1), w1)"
    by (auto simp: Let_def split: prod.splits sum.splits)
  note rest = sb [unfolded rc, simplified Let_def, simplified, unfolded em, simplified]
  show ?case
  proof (cases eof)
    case True
    with c have len: "length (rd_rest r) < maxBlockUncompressed" and chunk: "chunk = rd_rest r"
      by simp_all
    from rest True have fin: "usize = seen + int (length chunk)" "blocks' = b1" "tot' = t1" "w' = w1"
      by (auto split: if_splits)
    show ?thesis
    proof (cases "chunk \<noteq> [] \<or> blocks = 0")
      case em1: True
      note e = emitBlock_ok [OF em em1 "1.prems"(2,3)]
      have "pending blocks (rd_rest r) = [chunk]"
        using em1 len by (auto simp: pending_def chunk chunks_last)
      with e fin c(5) True show ?thesis
        by (simp add: stream_post_def Let_def chunk)
    next
      case False
      then have "pending blocks (rd_rest r) = []" by (simp add: pending_def chunk)
      moreover from em False have "b1 = blocks" "t1 = tot" "w1 = w"
        by (auto simp: emitBlock_def)
      ultimately show ?thesis
        using fin c(5) True "1.prems"(2,3) chunk False by (simp add: stream_post_def Let_def)
    qed
  next
    case False
    with c have len: "maxBlockUncompressed \<le> length (rd_rest r)" by simp
    then have ne: "rd_rest r \<noteq> []" "chunk \<noteq> []"
      using c(1) by (auto simp: maxBlockUncompressed_def)
    note e = emitBlock_ok [OF em disjI1 [OF ne(2)] "1.prems"(2,3)]
    from rest False have rec: "streamBody fl w1 r' b1 t1 (seen + int (length chunk)) usize
        = (Inr (blocks', tot'), w')" by simp
    from "1.IH" [OF rc [symmetric] refl refl refl em [symmetric] refl refl False rec e(5,6)]
    have IH: "stream_post fl w1 r' b1 t1 (seen + int (length chunk)) usize blocks' tot' w'" .
    have "b1 \<noteq> 0" using e(2) by (metis nat.distinct(1) unsigned_0)
    then have "pending b1 (rd_rest r') = chunks (drop maxBlockUncompressed (rd_rest r))"
      by (simp add: pending_def c(2))
    moreover have "pending blocks (rd_rest r) = chunk # chunks (drop maxBlockUncompressed (rd_rest r))"
      using ne by (simp add: pending_def chunks_nonempty c(1))
    moreover have "length (rd_rest r) = length chunk + length (rd_rest r')"
      using len by (simp add: c)
    ultimately show ?thesis
      using IH e(1-4) c(3) by (simp add: stream_post_def Let_def)
  qed
qed

text \<open>Conversely it succeeds when nothing fails, the length is as declared and the blocks fit.\<close>

definition no_faults :: "wfile \<Rightarrow> bool" where
  "no_faults f \<longleftrightarrow> (\<forall>i. wf_fault f i = None)"

definition flate_total :: "flate_lib \<Rightarrow> bool" where
  "flate_total fl \<longleftrightarrow> (\<forall>d. length d \<le> maxBlockUncompressed \<longrightarrow> is_ok (mszip_block fl d))"

lemma emitBlock_succeeds:
  assumes "flate_total fl" and "length chunk \<le> maxBlockUncompressed" and "no_faults (ew_w w)"
    and "ew_err w = None" and "unat blocks < maxBlocks \<or> (chunk = [] \<and> blocks \<noteq> 0)"
  obtains blocks' tot' w' where "emitBlock fl w blocks tot chunk = (Inr (blocks', tot'), w')"
    and "no_faults (ew_w w')" and "ew_err w' = None"
proof (cases "chunk \<noteq> [] \<or> blocks = 0")
  case False
  then have "emitBlock fl w blocks tot chunk = (Inr (blocks, tot), w)"
    by (simp add: emitBlock_def)
  with that assms(3,4) show ?thesis by blast
next
  case True
  from assms(1,2) obtain payload where p: "mszip_block fl chunk = Inr payload"
    unfolding flate_total_def by (cases "mszip_block fl chunk") auto
  have nb: "blocks \<noteq> word_of_nat maxBlocks"
    using assms(5) True by (auto simp: maxBlocks_def)
  let ?w1 = "ew_write w (data_header (length payload) (length chunk))"
  have w1: "ew_err ?w1 = None" "\<forall>i. wf_fault (ew_w ?w1) i = None"
    using ew_write_no_fault [of w] assms(3,4) by (simp_all add: no_faults_def)
  have w2: "ew_err (ew_write ?w1 payload) = None" "\<forall>i. wf_fault (ew_w (ew_write ?w1 payload)) i = None"
    using ew_write_no_fault [OF w1(2,1)] by simp_all
  have "emitBlock fl w blocks tot chunk =
      (Inr (blocks + 1, tot + int (cfDataHeaderLen + length payload)), ew_write ?w1 payload)"
    using True p nb w2(1) by (auto simp: emitBlock_def Let_def)
  with that w2 show ?thesis by (simp add: no_faults_def)
qed

lemma readChunk_at_eof:
  assumes "rd_end r = AtEOF"
  obtains chunk eof r' where "readChunk r n = (Inr (chunk, eof), r')"
proof -
  from assms have "\<exists>chunk eof r'. readChunk r n = (Inr (chunk, eof), r')"
    by (cases "n \<le> length (rd_rest r)"; cases "rd_rest r = []")
      (auto simp: readChunk_def io_ReadFull_def Let_def)
  with that show ?thesis by blast
qed

lemma streamBody_succeeds:
  assumes "flate_total fl" and "no_faults (ew_w w)" and "ew_err w = None" and "at_end (ew_w w)"
    and "rd_end r = AtEOF" and "usize = seen + int (length (rd_rest r))"
    and "unat blocks + length (pending blocks (rd_rest r)) \<le> maxBlocks"
  shows "is_ok (fst (streamBody fl w r blocks tot seen usize))"
  using assms
proof (induction fl w r blocks tot seen usize rule: streamBody.induct)
  case (1 fl w r blocks tot seen usize)
  obtain chunk eof r' where rc: "readChunk r maxBlockUncompressed = (Inr (chunk, eof), r')"
    using readChunk_at_eof [OF "1.prems"(5)] .
  note c = readChunk_cases [OF rc]
  have len: "length chunk \<le> maxBlockUncompressed" by (simp add: c(1))
  have "unat blocks < maxBlocks \<or> (chunk = [] \<and> blocks \<noteq> 0)"
    using "1.prems"(7) by (cases "rd_rest r = []") (auto simp: pending_def chunks_nonempty c(1) split: if_splits)
  from emitBlock_succeeds [OF "1.prems"(1) len "1.prems"(2,3) this]
  obtain b1 t1 w1 where em: "emitBlock fl w blocks tot chunk = (Inr (b1, t1), w1)"
    and w1: "no_faults (ew_w w1)" "ew_err w1 = None" .
  show ?case
  proof (cases eof)
    case True
    with c have "chunk = rd_rest r" by simp
    with True rc em "1.prems"(6) show ?thesis
      by (simp add: streamBody.simps [of fl w r] Let_def)
  next
    case False
    with c have lr: "maxBlockUncompressed \<le> length (rd_rest r)" by simp
    then have ne: "rd_rest r \<noteq> []" "chunk \<noteq> []" using c(1) by (auto simp: maxBlockUncompressed_def)
    note e = emitBlock_ok [OF em disjI1 [OF ne(2)] "1.prems"(3,4)]
    have "b1 \<noteq> 0" using e(2) by (metis nat.distinct(1) unsigned_0)
    then have "unat b1 + length (pending b1 (rd_rest r')) \<le> maxBlocks"
      using "1.prems"(7) ne e(2) by (simp add: pending_def c(2) chunks_nonempty)
    moreover have "usize = seen + int (length chunk) + int (length (rd_rest r'))"
      using "1.prems"(6) lr by (simp add: c)
    ultimately have "is_ok (fst (streamBody fl w1 r' b1 t1 (seen + int (length chunk)) usize))"
      using "1.IH" [OF rc [symmetric] refl refl refl em [symmetric] refl refl False]
        "1.prems"(1,5) w1 e(6) c(3) by simp
    with False rc em show ?thesis
      by (simp add: streamBody.simps [of fl w r] Let_def)
  qed
qed

subsection \<open>The whole writer\<close>

definition layout_prefix :: "int \<Rightarrow> bytes \<Rightarrow> bytes" where
  "layout_prefix usize name =
     header_bytes 44 @ folder_bytes (60 + length name) @ file_bytes usize name"

lemma encodeName_Inr: "encodeName s = Inr n \<Longrightarrow> n = bytes_of_string s @ [0]"
  by (auto simp: encodeName_def split: if_splits)

lemma length_layout [simp]:
  "length (header_bytes c) = 36" "length (folder_bytes o1) = 8" "length (file_bytes u n) = 16 + length n"
  by (simp_all add: header_bytes_def folder_bytes_def file_bytes_def headerSignature_def)

text \<open>Back-patching the two fields of the laid-out bytes.\<close>

lemma patch_ok:
  assumes "patch f tot blocks = (None, f')" and "40 < length (wf_buf f)"
  shows "wf_buf f' = overwrite_at (overwrite_at (wf_buf f) 8 (put_uint32 (word_of_int tot))) 40 (put_uint16 blocks)"
    and "at_end f'"
  using assms
  by (auto simp: patch_def wf_SeekStart_def wf_SeekEnd_def wf_Write_def wf_write_raw_def Let_def
      offCbCabinet_def offCCFData_def cfHeaderSize_def at_end_def split: option.splits prod.splits)

lemma patch_no_faults: "no_faults f \<Longrightarrow> fst (patch f tot blocks) = None"
  by (simp add: patch_def wf_SeekStart_def wf_SeekEnd_def wf_Write_def wf_write_raw_def no_faults_def)

lemma patched_layout:
  assumes "n = bytes_of_string name @ [0]" and "unat nb = length (cab_chunks d)"
    and "tot = int (cab_size fl name d)"
  shows "overwrite_at (overwrite_at (layout_prefix (int (length d)) n @ cab_body fl d) 8 (put_uint32 (word_of_int tot)))
      40 (put_uint16 nb) = cab_image fl name d"
proof -
  let ?sig = "bytes_of_string headerSignature @ replicate 4 (0 :: byte)"
  let ?mid = "replicate 4 0 @ put_uint32 (word_of_nat 44) @ replicate 4 0 @ [versionMinor, versionMajor]
    @ put_uint16 1 @ put_uint16 1 @ replicate 6 0 @ put_uint32 (word_of_nat (60 + length n))"
  let ?tail = "put_uint16 compressionMSZIP @ file_bytes (int (length d)) n @ cab_body fl d"
  have r12: "replicate 12 (0 :: byte) = replicate 4 0 @ replicate 4 0 @ replicate 4 0"
    by (simp add: numeral_eq_Suc)
  have "layout_prefix (int (length d)) n @ cab_body fl d = ?sig @ replicate 4 0 @ ?mid @ replicate 2 0 @ ?tail"
    by (simp add: layout_prefix_def header_bytes_def folder_bytes_def r12)
  moreover have "overwrite_at (?sig @ replicate 4 0 @ ?mid @ replicate 2 0 @ ?tail) 8 (put_uint32 (word_of_int tot))
      = ?sig @ put_uint32 (word_of_int tot) @ ?mid @ replicate 2 0 @ ?tail"
    using overwrite_at_mid [of "replicate 4 0" "put_uint32 (word_of_int tot)" ?sig]
    by (simp add: headerSignature_def)
  moreover have "overwrite_at ((?sig @ put_uint32 (word_of_int tot) @ ?mid) @ replicate 2 0 @ ?tail) 40 (put_uint16 nb)
      = (?sig @ put_uint32 (word_of_int tot) @ ?mid) @ put_uint16 nb @ ?tail"
    using overwrite_at_mid [of "replicate 2 0" "put_uint16 nb" "?sig @ put_uint32 (word_of_int tot) @ ?mid"]
    by (simp add: headerSignature_def)
  moreover have "(word_of_nat (length (cab_chunks d)) :: 16 word) = nb"
    by (simp flip: assms(2))
  ultimately show ?thesis
    by (simp add: cab_image_def assms(1,3))
qed

lemma pending_0 [simp]: "pending 0 d = cab_chunks d"
  by (simp add: pending_def cab_chunks_def)

lemma cab_Write_layout:
  assumes "encodeName name = Inr n" and "0 \<le> usize" and "usize \<le> maxFolderUncompessed"
  shows "cab_Write fl out name usize r =
    (let w3 = writeFile (writeFolder (writeHeader \<lparr>ew_w = out, ew_err = None\<rparr> 44) (60 + length n)) usize n in
     case ew_err w3 of Some e \<Rightarrow> (Some e, ew_w w3)
     | None \<Rightarrow> (case streamBody fl w3 r 0 (int (60 + length n)) 0 usize of
         (Inl e, w4) \<Rightarrow> (Some e, ew_w w4) | (Inr (blocks, tot), w4) \<Rightarrow> patch (ew_w w4) tot blocks))"
proof -
  have e: "cfHeaderSize + cfFolderSize + (cfFileFixedSize + length n) = 60 + length n"
    and f: "cfHeaderSize + cfFolderSize = 44"
    by (simp_all add: cab_consts)
  show ?thesis
    unfolding cab_Write_def Let_def assms(1) sum.case e unfolding f using assms(2,3) by simp
qed

lemma layout_writes_ok:
  assumes w3: "w3 = writeFile (writeFolder (writeHeader \<lparr>ew_w = out, ew_err = None\<rparr> 44) (60 + length n)) usize n"
    and "ew_err w3 = None" and "wf_buf out = []" and "wf_pos out = 0"
  shows "wf_buf (ew_w w3) = layout_prefix usize n" and "at_end (ew_w w3)"
proof -
  let ?w1 = "writeHeader \<lparr>ew_w = out, ew_err = None\<rparr> 44"
  let ?w2 = "writeFolder ?w1 (60 + length n)"
  have prev: "ew_err e = None" if "ew_err (ew_write e p) = None" for e :: errWriter and p
    using that by (auto simp: ew_write_def split: option.splits prod.splits)
  have e2: "ew_err ?w2 = None" and e1: "ew_err ?w1 = None"
    using assms(2) prev unfolding w3 writeFile_def writeFolder_def by blast+
  have "at_end (ew_w \<lparr>ew_w = out, ew_err = None\<rparr>)" using assms(3,4) by (simp add: at_end_def)
  from ew_write_ok [OF e1 [unfolded writeHeader_def] this]
  have w1: "wf_buf (ew_w ?w1) = header_bytes 44" "at_end (ew_w ?w1)"
    using assms(3) by (simp_all add: writeHeader_def)
  from ew_write_ok [OF e2 [unfolded writeFolder_def] w1(2)]
  have w2: "wf_buf (ew_w ?w2) = header_bytes 44 @ folder_bytes (60 + length n)" "at_end (ew_w ?w2)"
    using w1(1) by (simp_all add: writeFolder_def)
  from ew_write_ok [OF assms(2) [unfolded w3 writeFile_def] w2(2)] w2(1)
  show "wf_buf (ew_w w3) = layout_prefix usize n" and "at_end (ew_w w3)"
    by (simp_all add: w3 writeFile_def layout_prefix_def)
qed

lemma cab_Write_SuccessD:
  assumes "cab_Write fl out name usize r = (None, out')" and "wf_buf out = []" and "wf_pos out = 0"
  shows "wf_buf out' = cab_image fl name (rd_rest r)" and "int (length (rd_rest r)) = usize"
    and "rd_end r = AtEOF" and "is_ok (encodeName name)" and "at_end out'"
    and "length (cab_chunks (rd_rest r)) \<le> maxBlocks" and "usize \<le> maxFolderUncompessed"
    and "list_all (\<lambda>c. is_ok (mszip_block fl c)) (cab_chunks (rd_rest r))"
proof -
  from assms(1) obtain n where n: "encodeName name = Inr n" and u: "0 \<le> usize" "usize \<le> maxFolderUncompessed"
    by (auto simp: cab_Write_def split: if_splits sum.splits)
  let ?w3 = "writeFile (writeFolder (writeHeader \<lparr>ew_w = out, ew_err = None\<rparr> 44) (60 + length n)) usize n"
  note W = assms(1) [unfolded cab_Write_layout [OF n u] Let_def]
  have e3: "ew_err ?w3 = None" using W by (cases "ew_err ?w3") simp_all
  note lay = layout_writes_ok [OF refl e3 assms(2,3)]
  obtain res w4 where sb: "streamBody fl ?w3 r 0 (int (60 + length n)) 0 usize = (res, w4)" by fastforce
  from W e3 sb obtain nb tot where res: "res = Inr (nb, tot)" and p: "patch (ew_w w4) tot nb = (None, out')"
    by (cases res) (auto split: prod.splits)
  from streamBody_ok [OF sb [unfolded res] e3 lay(2)]
  have post: "stream_post fl ?w3 r 0 (int (60 + length n)) 0 usize nb tot w4" .
  from post show "int (length (rd_rest r)) = usize" "rd_end r = AtEOF"
    and "list_all (\<lambda>c. is_ok (mszip_block fl c)) (cab_chunks (rd_rest r))"
    by (simp_all add: stream_post_def Let_def)
  show "is_ok (encodeName name)" by (simp add: n)
  show "usize \<le> maxFolderUncompessed" by (rule u(2))
  from post have buf: "wf_buf (ew_w w4) = layout_prefix usize n @ cab_body fl (rd_rest r)"
    and nb: "unat nb = length (cab_chunks (rd_rest r))"
    and tot: "tot = int (60 + length n) + int (length (cab_body fl (rd_rest r)))"
    by (simp_all add: stream_post_def Let_def lay(1) cab_body_def)
  have "unat nb < 65536" using unsigned_less [of nb] by simp
  with nb show "length (cab_chunks (rd_rest r)) \<le> maxBlocks" by (simp add: maxBlocks_def)
  have long: "40 < length (wf_buf (ew_w w4))" by (simp add: buf layout_prefix_def)
  show "at_end out'" by (rule patch_ok(2) [OF p long])
  have "tot = int (cab_size fl name (rd_rest r))"
    using encodeName_Inr [OF n] tot by (simp add: cab_size_def)
  from patched_layout [OF encodeName_Inr [OF n] nb this] patch_ok(1) [OF p long]
    buf \<open>int (length (rd_rest r)) = usize\<close>
  show "wf_buf out' = cab_image fl name (rd_rest r)" by simp
qed

section \<open>Reading a cabinet back (writer_test.go)\<close>

text \<open>
  The reference extractor of the tests: it reads the offsets, counts and sizes the writer
  stored and inflates each CK block by itself. \<open>None\<close> where the test fails or a slice is
  out of range. \<open>infl\<close> is a DEFLATE decoder.
\<close>

fun extract_blocks :: "(bytes \<Rightarrow> bytes option) \<Rightarrow> bytes \<Rightarrow> nat \<Rightarrow> nat \<Rightarrow> bytes option" where
  "extract_blocks infl data off 0 = Some []"
| "extract_blocks infl data off (Suc n) =
     (if length data < off + cfDataHeaderLen then None
      else let cbData = get_uint16 data (off + 4); cbUncomp = get_uint16 data (off + 6);
          block = take cbData (drop (off + cfDataHeaderLen) data)
        in if length data < off + cfDataHeaderLen + cbData \<or> take 2 block \<noteq> mszipSignature then None
        else case infl (drop (length mszipSignature) block) of
          None \<Rightarrow> None
        | Some out \<Rightarrow>
            (if length out < cbUncomp then None
             else case extract_blocks infl data (off + cfDataHeaderLen + cbData) n of
                None \<Rightarrow> None
              | Some rest \<Rightarrow> Some (take cbUncomp out @ rest)))"

definition extractCAB :: "(bytes \<Rightarrow> bytes option) \<Rightarrow> bytes \<Rightarrow> (string \<times> bytes) option" where
  "extractCAB infl data =
     (if length data < 44 then None
      else let coffFiles = get_uint32 data 16; coffCabStart = get_uint32 data 36;
          cCFData = get_uint16 data 40; nameStart = coffFiles + cfFileFixedSize
        in if get_uint16 data 42 \<noteq> unat compressionMSZIP \<or> length data < nameStart
              \<or> 0 \<notin> set (drop nameStart data) then None
        else let cbFile = get_uint32 data coffFiles;
            name = string_of_bytes (takeWhile (\<lambda>b. b \<noteq> 0) (drop nameStart data))
          in case extract_blocks infl data coffCabStart cCFData of
               None \<Rightarrow> None
             | Some payload \<Rightarrow> if cbFile = length payload then Some (name, payload) else None)"

text \<open>
  What the writer relies on of DEFLATE: its stream and the stored block decode to the
  chunk they were made from.
\<close>

definition codec_ok :: "flate_lib \<Rightarrow> (bytes \<Rightarrow> bytes option) \<Rightarrow> bool" where
  "codec_ok fl infl \<longleftrightarrow>
     (\<forall>d. length d \<le> maxBlockUncompressed \<longrightarrow>
        infl (writeStored d) = Some d \<and> (\<forall>s. fl_Close fl d = Inr s \<longrightarrow> infl s = Some d))"

subsection \<open>Reading fields at fixed offsets\<close>

lemma get_uint16_drop: "i + 1 < length bs \<Longrightarrow> get_uint16 bs i = get_uint16 (drop i bs) 0"
  by (simp add: get_uint16_def)

lemma get_uint32_drop: "i + 3 < length bs \<Longrightarrow> get_uint32 bs i = get_uint32 (drop i bs) 0"
  by (simp add: get_uint32_def)

lemma get_uint16_put [simp]: "get_uint16 (put_uint16 w @ bs) 0 = unat w"
  using get_put_uint16 [of w] by (simp add: get_uint16_def nth_append)

lemma get_uint32_put [simp]: "get_uint32 (put_uint32 w @ bs) 0 = unat w"
  using get_put_uint32 [of w] by (simp add: get_uint32_def nth_append)

lemma unat_word16: "n < 65536 \<Longrightarrow> unat (word_of_nat n :: 16 word) = n"
  by (simp add: unat_of_nat take_bit_nat_eq_self)

lemma unat_word32: "n < 4294967296 \<Longrightarrow> unat (word_of_nat n :: 32 word) = n"
  by (simp add: unat_of_nat take_bit_nat_eq_self)

lemma mszip_block_signature:
  assumes "mszip_block fl d = Inr p"
  obtains s where "p = mszipSignature @ s" and "s = writeStored d \<or> fl_Close fl d = Inr s"
  using assms by (auto simp: mszip_block_def split: option.splits sum.splits if_splits)

text \<open>One block, anywhere in the file.\<close>

lemma extract_blocks_cfdata:
  assumes "codec_ok fl infl" and "is_ok (mszip_block fl c)" and "length c \<le> maxBlockUncompressed"
    and "extract_blocks infl (pre @ cfdata fl c @ post) (length pre + length (cfdata fl c)) n = Some rest"
  shows "extract_blocks infl (pre @ cfdata fl c @ post) (length pre) (Suc n) = Some (c @ rest)"
proof -
  let ?p = "block_of fl c" and ?data = "pre @ cfdata fl c @ post"
  from assms(2) have ok: "mszip_block fl c = Inr ?p"
    by (auto simp: block_of_def is_ok_def split: sum.splits)
  then obtain s where p: "?p = mszipSignature @ s" and s: "s = writeStored c \<or> fl_Close fl c = Inr s"
    by (rule mszip_block_signature)
  from s assms(1,3) have infl: "infl s = Some c" by (auto simp: codec_ok_def)
  have small: "length ?p < 65536" "length c < 65536"
    using block_of_length [of fl c] assms(3) by (simp_all add: maxBlockUncompressed_def)
  have "drop (length pre + 4) ?data
      = put_uint16 (word_of_nat (length ?p)) @ put_uint16 (word_of_nat (length c)) @ ?p @ post"
    by (simp add: cfdata_def data_header_def)
  then have a: "get_uint16 ?data (length pre + 4) = length ?p"
    by (subst get_uint16_drop) (simp_all add: cfdata_def unat_word16 small)
  have "drop (length pre + 6) ?data = put_uint16 (word_of_nat (length c)) @ ?p @ post"
    by (simp add: cfdata_def data_header_def)
  then have b: "get_uint16 ?data (length pre + 6) = length c"
    by (subst get_uint16_drop) (simp_all add: cfdata_def unat_word16 small)
  have c: "take (length ?p) (drop (length pre + cfDataHeaderLen) ?data) = ?p"
    by (simp add: cfdata_def cfDataHeaderLen_def)
  have e: "length pre + cfDataHeaderLen + length ?p = length pre + length (cfdata fl c)"
    by (simp add: length_cfdata cfDataHeaderLen_def)
  have f: "\<not> length ?data < length pre + cfDataHeaderLen"
    "\<not> length ?data < length pre + length (cfdata fl c)"
    by (simp_all add: length_cfdata cfDataHeaderLen_def)
  have p2: "take 2 ?p = mszipSignature" "drop (length mszipSignature) ?p = s" by (simp_all add: p)
  define data where "data = ?data"
  note folded = a b c f assms(4)
  show ?thesis
    using infl folded [folded data_def] p2 by (simp add: e Let_def del: take_take flip: data_def)
qed

lemma extract_blocks_all:
  assumes "codec_ok fl infl" and "list_all (\<lambda>c. is_ok (mszip_block fl c)) cs"
    and "\<forall>c \<in> set cs. length c \<le> maxBlockUncompressed"
  shows "extract_blocks infl (pre @ concat (map (cfdata fl) cs) @ post) (length pre) (length cs)
    = Some (concat cs)"
  using assms(2,3)
proof (induction cs arbitrary: pre)
  case (Cons c cs)
  let ?data = "pre @ cfdata fl c @ concat (map (cfdata fl) cs) @ post"
  from Cons.IH [of "pre @ cfdata fl c"] Cons.prems
  have "extract_blocks infl ?data (length pre + length (cfdata fl c)) (length cs) = Some (concat cs)"
    by simp
  from extract_blocks_cfdata [OF assms(1) _ _ this] Cons.prems show ?case by simp
qed simp

lemma length_cab_image: "length (cab_image fl name d) = cab_size fl name d"
  by (simp add: cab_image_def cab_size_def headerSignature_def)

lemma cab_size_less:
  assumes "length (cab_chunks d) \<le> maxBlocks" and "length name < 2 ^ 30"
  shows "cab_size fl name d < 4294967296"
proof -
  have "length (cab_body fl d) \<le> maxBlocks * 32783"
    using cab_body_length [of fl d] mult_le_mono1 [OF assms(1), of 32783] by linarith
  with assms(2) show ?thesis by (simp add: cab_size_def maxBlocks_def)
qed

lemma payload_less:
  assumes "length (cab_chunks d) \<le> maxBlocks"
  shows "length d < 4294967296"
proof -
  have "length d \<le> length (cab_chunks d) * maxBlockUncompressed"
    using length_chunks_ge [of d] by (auto simp: cab_chunks_def)
  also have "\<dots> \<le> maxBlocks * maxBlockUncompressed" by (rule mult_le_mono1 [OF assms])
  finally show ?thesis by (simp add: maxBlocks_def maxBlockUncompressed_def)
qed

text \<open>The image as what precedes and follows each field.\<close>

lemma drop_image:
  "drop 8 (cab_image fl name d) = put_uint32 (word_of_nat (cab_size fl name d)) @ drop 12 (cab_image fl name d)"
  "drop 16 (cab_image fl name d) = put_uint32 44 @ drop 20 (cab_image fl name d)"
  "drop 36 (cab_image fl name d) = put_uint32 (word_of_nat (61 + length name)) @ drop 40 (cab_image fl name d)"
  "drop 40 (cab_image fl name d) = put_uint16 (word_of_nat (length (cab_chunks d))) @ drop 42 (cab_image fl name d)"
  "drop 42 (cab_image fl name d) = put_uint16 compressionMSZIP @ drop 44 (cab_image fl name d)"
  "drop 44 (cab_image fl name d) = put_uint32 (word_of_nat (length d)) @ drop 48 (cab_image fl name d)"
  "drop 60 (cab_image fl name d) = bytes_of_string name @ 0 # cab_body fl d"
  by (simp_all add: cab_image_def headerSignature_def file_bytes_def)

text \<open>
  The fields a reader navigates by: total size, offset of the CFFILE entry, offset of the
  data, block count, compression type, uncompressed size.
\<close>

lemma cab_image_fields:
  assumes "length (cab_chunks d) \<le> maxBlocks" and "length name < 2 ^ 30"
  shows "get_uint32 (cab_image fl name d) 8 = length (cab_image fl name d)"
    and "get_uint32 (cab_image fl name d) 16 = 44"
    and "get_uint32 (cab_image fl name d) 36 = 61 + length name"
    and "get_uint16 (cab_image fl name d) 40 = length (cab_chunks d)"
    and "get_uint16 (cab_image fl name d) 42 = unat compressionMSZIP"
    and "get_uint32 (cab_image fl name d) 44 = length d"
proof -
  note size = cab_size_less [OF assms, of fl]
  have long: "61 \<le> length (cab_image fl name d)" by (simp add: length_cab_image cab_size_def)
  show "get_uint32 (cab_image fl name d) 8 = length (cab_image fl name d)"
    using long by (subst get_uint32_drop) (simp_all add: drop_image unat_word32 size length_cab_image)
  show "get_uint32 (cab_image fl name d) 16 = 44"
    using long by (subst get_uint32_drop) (simp_all add: drop_image)
  have "61 + length name < 4294967296" using assms(2) by simp
  from unat_word32 [OF this] show "get_uint32 (cab_image fl name d) 36 = 61 + length name"
    using long by (subst get_uint32_drop) (simp_all only: drop_image get_uint32_put)
  have "length (cab_chunks d) < 65536" using assms(1) by (simp add: maxBlocks_def)
  then show "get_uint16 (cab_image fl name d) 40 = length (cab_chunks d)"
    using long by (subst get_uint16_drop) (simp_all add: drop_image unat_word16)
  show "get_uint16 (cab_image fl name d) 42 = unat compressionMSZIP"
    using long by (subst get_uint16_drop) (simp_all add: drop_image)
  show "get_uint32 (cab_image fl name d) 44 = length d"
    using long payload_less [OF assms(1)] by (subst get_uint32_drop) (simp_all add: drop_image unat_word32)
qed

lemma valid_name_no_NUL:
  assumes "is_ok (encodeName name)"
  shows "0 \<notin> set (bytes_of_string name)"
proof
  assume "0 \<in> set (bytes_of_string name)"
  then obtain c where c: "c \<in> set name" "byte_of_char c = 0" by (auto simp: bytes_of_string_def)
  then have "(of_char c :: nat) = 0" by (metis unat_byte_of_char unsigned_0)
  with c(1) assms show False by (fastforce simp: encodeName_def list_ex_iff split: if_splits)
qed

lemma cab_image_split: "cab_image fl name d = take (61 + length name) (cab_image fl name d) @ cab_body fl d"
proof -
  have "drop (61 + length name) (cab_image fl name d) = drop (length name + 1) (drop 60 (cab_image fl name d))"
    by simp
  also have "\<dots> = cab_body fl d" unfolding drop_image by simp
  finally show ?thesis by (metis append_take_drop_id)
qed

lemma extract_image:
  assumes "codec_ok fl infl" and "list_all (\<lambda>c. is_ok (mszip_block fl c)) (cab_chunks d)"
    and "length (cab_chunks d) \<le> maxBlocks" and "length name < 2 ^ 30" and "is_ok (encodeName name)"
  shows "extractCAB infl (cab_image fl name d) = Some (name, d)"
proof -
  let ?img = "cab_image fl name d" and ?pre = "take (61 + length name) (cab_image fl name d)"
  note fields = cab_image_fields [OF assms(3,4), of fl]
  have long: "61 + length name \<le> length ?img" by (simp add: length_cab_image cab_size_def)
  then have "length ?pre = 61 + length name" by simp
  moreover have "extract_blocks infl (?pre @ concat (map (cfdata fl) (cab_chunks d)) @ []) (length ?pre)
      (length (cab_chunks d)) = Some (concat (cab_chunks d))"
    using assms(1,2) cab_chunks_le by (intro extract_blocks_all) auto
  ultimately have blocks: "extract_blocks infl ?img (61 + length name) (length (cab_chunks d)) = Some d"
    using cab_image_split [of fl name d] by (simp add: cab_body_def)
  have start: "drop (44 + cfFileFixedSize) ?img = bytes_of_string name @ 0 # cab_body fl d"
    using drop_image(7) [of fl name d] by (simp add: cfFileFixedSize_def)
  have "takeWhile (\<lambda>b. b \<noteq> 0) (drop (44 + cfFileFixedSize) ?img) = bytes_of_string name"
    unfolding start using valid_name_no_NUL [OF assms(5)] by (subst takeWhile_append2) auto
  moreover have "0 \<in> set (drop (44 + cfFileFixedSize) ?img)" unfolding start by simp
  moreover have "\<not> length ?img < 44" "\<not> length ?img < 44 + cfFileFixedSize"
    using long by (simp_all add: cfFileFixedSize_def)
  ultimately show ?thesis
    using blocks fields by (simp add: extractCAB_def Let_def)
qed

text \<open>No operation changes which operations fail, and all are counted.\<close>

lemma ew_write_env: "wf_env (ew_w e) (ew_w (ew_write e p))"
  by (cases "wf_Write (ew_w e) p") (auto simp: ew_write_def dest: wf_calls_env split: option.splits)

lemma emitBlock_env: "emitBlock fl w b t c = (x, w') \<Longrightarrow> wf_env (ew_w w) (ew_w w')"
  using wf_env_trans [OF ew_write_env ew_write_env]
  by (auto simp: emitBlock_def Let_def split: if_splits sum.splits option.splits)

text \<open>The writes still to come before the block counter stops the loop.\<close>

definition block_room :: "16 word \<Rightarrow> nat" where
  "block_room b = 2 * (65535 - unat b)"

lemma ew_write_ops: "wf_ops (ew_w (ew_write e p)) \<le> Suc (wf_ops (ew_w e))"
  by (auto simp: ew_write_def wf_Write_def wf_write_raw_def Let_def split: option.splits)

lemma emitBlock_room:
  assumes "emitBlock fl w b t c = (x, w')"
  shows "wf_ops (ew_w w') + (case x of Inl e \<Rightarrow> 0 | Inr (b', t') \<Rightarrow> block_room b') \<le> wf_ops (ew_w w) + block_room b"
proof (cases "b = word_of_nat maxBlocks")
  case True
  with assms show ?thesis by (auto simp: emitBlock_def maxBlocks_def split: sum.splits if_splits)
next
  case False
  then have "unat b \<noteq> 65535" using False word_unat_eq_iff [of b 65535] by (auto simp: maxBlocks_def)
  moreover have "unat b < 65536" using unsigned_less [of b] by simp
  ultimately have "unat (b + 1) = Suc (unat b)" "unat b < 65535" by (simp_all add: unat_word_ariths)
  then have r: "block_room b = block_room (b + 1) + 2" by (simp add: block_room_def)
  have "wf_ops (ew_w (ew_write (ew_write w p) q)) \<le> wf_ops (ew_w w) + 2" for p q
    using ew_write_ops [of "ew_write w p" q] ew_write_ops [of w p] by linarith
  then have "wf_ops (ew_w (ew_write (ew_write w p) q)) \<le> wf_ops (ew_w w) + 2 + n" for p q n
    using trans_le_add1 by blast
  from this [of _ _ 0] this [of _ _ "block_room (b + 1)"] assms r show ?thesis
    by (auto simp: emitBlock_def Let_def add_ac split: sum.splits if_splits option.splits)
qed

lemma streamBody_steps: "streamBody fl w r b t s u = (x, w') \<Longrightarrow>
    wf_env (ew_w w) (ew_w w') \<and> wf_ops (ew_w w') \<le> wf_ops (ew_w w) + block_room b"
proof (induction fl w r b t s u rule: streamBody.induct)
  case (1 fl w r blocks tot seen usize)
  note sb = "1.prems" [unfolded streamBody.simps [of fl w r blocks tot seen usize]]
  show ?case
  proof (cases "\<exists>e r'. readChunk r maxBlockUncompressed = (Inl e, r')")
    case True
    with sb show ?thesis by auto
  next
    case False
    then obtain chunk eof r' where rc: "readChunk r maxBlockUncompressed = (Inr (chunk, eof), r')"
      by (metis old.sum.exhaust surj_pair)
    obtain y w1 where em: "emitBlock fl w blocks tot chunk = (y, w1)" by fastforce
    note w1 = emitBlock_env [OF em] emitBlock_room [OF em]
    show ?thesis
    proof (cases y)
      case (Inl e)
      with sb rc em w1 show ?thesis by (simp add: Let_def)
    next
      case (Inr bt)
      then obtain b1 t1 where em1: "emitBlock fl w blocks tot chunk = (Inr (b1, t1), w1)"
        using em by (cases bt) simp
      show ?thesis
      proof (cases eof)
        case True
        with sb rc em1 w1 show ?thesis by (simp add: Let_def split: if_splits)
      next
        case False
        with sb rc em1 have "streamBody fl w1 r' b1 t1 (seen + int (length chunk)) usize = (x, w')"
          by (simp add: Let_def)
        from "1.IH" [OF rc [symmetric] refl refl refl em1 [symmetric] refl refl False this]
        have "wf_env (ew_w w1) (ew_w w')" "wf_ops (ew_w w') \<le> wf_ops (ew_w w1) + block_room b1" by simp_all
        with wf_env_trans [OF w1(1)] w1(2) em em1 show ?thesis by auto
      qed
    qed
  qed
qed

lemmas streamBody_env = streamBody_steps [THEN conjunct1]

lemma patch_env: "patch f tot blocks = (r, f') \<Longrightarrow> wf_env f f'"
  unfolding patch_def by (auto dest!: wf_calls_env simp: wf_env_def split: prod.splits option.splits)

lemma wf_calls_ops:
  "wf_Write f p = (r, f') \<Longrightarrow> wf_ops f' = Suc (wf_ops f)"
  "wf_SeekStart f n = (r, f') \<Longrightarrow> wf_ops f' = Suc (wf_ops f)"
  "wf_SeekEnd f = (r, f') \<Longrightarrow> wf_ops f' = Suc (wf_ops f)"
  by (auto simp: wf_Write_def wf_SeekStart_def wf_SeekEnd_def wf_write_raw_def Let_def split: option.splits)

lemma patch_ops: "wf_ops (snd (patch f tot blocks)) \<le> wf_ops f + 5"
  unfolding patch_def by (auto dest!: wf_calls_ops split: prod.splits option.splits)

lemma cab_Write_env: "keeps_env (\<lambda>out. cab_Write fl out name usize r)"
  unfolding keeps_env_def
proof
  fix out
  show "wf_env out (snd (cab_Write fl out name usize r))"
  proof (cases "encodeName name")
    case (Inr n)
    let ?w3 = "writeFile (writeFolder (writeHeader \<lparr>ew_w = out, ew_err = None\<rparr> 44) (60 + length n)) usize n"
    have w3: "wf_env out (ew_w ?w3)"
      using ew_write_env [of "\<lparr>ew_w = out, ew_err = None\<rparr>"] unfolding writeFile_def writeFolder_def writeHeader_def
      by (metis errWriter.select_convs(1) ew_write_env wf_env_trans)
    obtain x w4 where sb: "streamBody fl ?w3 r 0 (int (60 + length n)) 0 usize = (x, w4)" by fastforce
    note w4 = wf_env_trans [OF w3 streamBody_env [OF sb]]
    have "wf_env out (snd (patch (ew_w w4) tot b))" for tot b
      by (rule wf_env_trans [OF w4 patch_env [OF surjective_pairing]])
    with w3 w4 sb Inr show ?thesis
      by (auto simp: cab_Write_def Let_def cab_consts split: option.splits sum.splits prod.splits)
  qed (simp add: cab_Write_def)
qed

lemma cab_Write_succeeds:
  assumes "no_faults out" and "flate_total fl" and "wf_buf out = []" and "wf_pos out = 0"
    and R: "is_ok (encodeName name) \<and> rd_end r = AtEOF \<and> usize = int (length (rd_rest r))
      \<and> usize \<le> maxFolderUncompessed"
  shows "fst (cab_Write fl out name usize r) = None"
proof -
  from R obtain n where n: "encodeName name = Inr n" by (cases "encodeName name") auto
  let ?w0 = "\<lparr>ew_w = out, ew_err = None\<rparr>"
  let ?w3 = "writeFile (writeFolder (writeHeader ?w0 44) (60 + length n)) usize n"
  have w0: "\<forall>i. wf_fault (ew_w ?w0) i = None" "ew_err ?w0 = None"
    using assms(1) by (simp_all add: no_faults_def)
  note w1 = ew_write_no_fault [OF w0, of "header_bytes 44", THEN conjunct2]
    ew_write_no_fault [OF w0, of "header_bytes 44", THEN conjunct1]
  note w2 = ew_write_no_fault [OF w1, of "folder_bytes (60 + length n)", THEN conjunct2]
    ew_write_no_fault [OF w1, of "folder_bytes (60 + length n)", THEN conjunct1]
  have w3: "ew_err ?w3 = None" "no_faults (ew_w ?w3)"
    using ew_write_no_fault [OF w2, of "file_bytes usize n"]
    by (simp_all add: writeHeader_def writeFolder_def writeFile_def no_faults_def)
  note lay = layout_writes_ok [OF refl w3(1) assms(3,4)]
  have "length (chunks (rd_rest r)) \<le> maxBlocks"
    using R by (intro length_chunks_le) (simp add: maxFolderUncompessed_def flip: of_nat_mult)
  then have "length (cab_chunks (rd_rest r)) \<le> maxBlocks"
    by (simp add: cab_chunks_def maxBlocks_def)
  then have "is_ok (fst (streamBody fl ?w3 r 0 (int (60 + length n)) 0 usize))"
    using R w3 lay(2) assms(2) by (intro streamBody_succeeds) simp_all
  then obtain nb tot w4 where sb: "streamBody fl ?w3 r 0 (int (60 + length n)) 0 usize = (Inr (nb, tot), w4)"
    by (cases "streamBody fl ?w3 r 0 (int (60 + length n)) 0 usize"; cases "fst (streamBody fl ?w3 r 0 (int (60 + length n)) 0 usize)")
      auto
  have "no_faults (ew_w w4)"
    using streamBody_env [OF sb] w3(2) by (simp add: no_faults_def wf_env_def)
  from patch_no_faults [OF this] show ?thesis
    using cab_Write_layout [OF n, of usize fl out r] R w3(1) sb by (simp add: Let_def)
qed

section \<open>Properties\<close>

text \<open>C22: whatever write or seek fails, success means the file is the cabinet image.\<close>

theorem cab_Write_image:
  assumes "cab_Write fl out name usize r = (None, out')" and "wf_buf out = []" and "wf_pos out = 0"
  shows "wf_buf out' = cab_image fl name (rd_rest r) \<and> usize = int (length (rd_rest r))
    \<and> rd_end r = AtEOF \<and> at_end out'"
  using cab_Write_SuccessD [OF assms] by simp

text \<open>C23: exactly when a write into a fresh file succeeds, when the environment does not fail.\<close>

theorem cab_Write_succeeds_iff:
  assumes "no_faults out" and "flate_total fl" and "wf_buf out = []" and "wf_pos out = 0"
  shows "fst (cab_Write fl out name usize r) = None \<longleftrightarrow>
    is_ok (encodeName name) \<and> rd_end r = AtEOF \<and> usize = int (length (rd_rest r))
    \<and> usize \<le> maxFolderUncompessed"
    (is "?L \<longleftrightarrow> ?R")
proof
  assume ?L
  then obtain out' where "cab_Write fl out name usize r = (None, out')"
    by (metis prod.collapse)
  from cab_Write_SuccessD [OF this assms(3,4)] show ?R by simp
next
  assume ?R
  with assms show ?L by (rule cab_Write_succeeds)
qed

lemma length_cab_chunks: "length (cab_chunks d) = max 1 ((length d + 32767) div 32768)"
proof (cases "d = []")
  case False
  let ?k = "(length d + 32767) div 32768"
  have "length (chunks d) \<le> ?k"
    by (rule length_chunks_le) (simp add: maxBlockUncompressed_def)
  moreover have "?k \<le> length (chunks d)"
    using length_chunks_ge [of d] by (simp add: maxBlockUncompressed_def)
  moreover have "1 \<le> ?k" using False by (cases d) auto
  ultimately show ?thesis using False by (simp add: cab_chunks_def)
qed (simp add: cab_chunks_def)

lemma encodeName_Inl:
  "name = [] \<or> (\<exists>c \<in> set name. \<not> (0x20 \<le> (of_char c :: nat) \<and> (of_char c :: nat) \<le> 0x7e))
    \<Longrightarrow> \<exists>e. encodeName name = Inl e"
  by (fastforce simp: encodeName_def list_ex_iff)

text \<open>C5: the cabinet a successful write leaves decodes, block by block, to the payload and the name.\<close>

theorem cab_Write_roundtrip:
  assumes "cab_Write fl out name usize r = (None, out')" and "wf_buf out = []" and "wf_pos out = 0"
    and "codec_ok fl infl" and "length name < 2 ^ 30"
  shows "extractCAB infl (wf_buf out') = Some (name, rd_rest r)"
  using extract_image [OF assms(4), of "rd_rest r" name] cab_Write_SuccessD [OF assms(1-3)] assms(5)
  by simp

text \<open>The fields a decoder navigates by agree with the file and with each other: total size,
  offset of the file entry, offset of the data, number of blocks (one per 32 KiB, at least one),
  uncompressed size.\<close>

lemma cab_Write_fields:
  assumes "cab_Write fl out name usize r = (None, out')" and "wf_buf out = []" and "wf_pos out = 0"
    and "length name < 2 ^ 30"
  shows "get_uint32 (wf_buf out') 8 = length (wf_buf out')
    \<and> get_uint32 (wf_buf out') 16 = 44
    \<and> get_uint32 (wf_buf out') 36 = 61 + length name
    \<and> get_uint16 (wf_buf out') 40 = max 1 ((nat usize + 32767) div 32768)
    \<and> get_uint32 (wf_buf out') 44 = nat usize"
proof -
  note s = cab_Write_SuccessD [OF assms(1-3)]
  have "length (cab_chunks (rd_rest r)) = max 1 ((nat usize + 32767) div 32768)"
    using s(2) length_cab_chunks [of "rd_rest r"] by auto
  with s cab_image_fields [OF s(6) assms(4), of fl] show ?thesis by auto
qed

text \<open>C37: whatever the reader yields and whatever was declared, a write ends after at most 131078 writes and seeks
  on its output: three structures, two writes for each of at most 65535 blocks, and five calls of the patch.\<close>

theorem cab_Write_bounded:
  "wf_ops (snd (cab_Write fl out name usize r)) \<le> wf_ops out + (3 + 2 * 65535 + 5)"
proof (cases "encodeName name")
  case (Inr n)
  let ?w0 = "\<lparr>ew_w = out, ew_err = None\<rparr>"
  let ?w1 = "writeHeader ?w0 44"
  let ?w2 = "writeFolder ?w1 (60 + length n)"
  let ?w3 = "writeFile ?w2 usize n"
  have "wf_ops (ew_w ?w1) \<le> Suc (wf_ops out)" using ew_write_ops [of ?w0] by (simp add: writeHeader_def)
  moreover have "wf_ops (ew_w ?w2) \<le> Suc (wf_ops (ew_w ?w1))" unfolding writeFolder_def by (rule ew_write_ops)
  moreover have "wf_ops (ew_w ?w3) \<le> Suc (wf_ops (ew_w ?w2))" unfolding writeFile_def by (rule ew_write_ops)
  ultimately have w3: "wf_ops (ew_w ?w3) \<le> wf_ops out + 3" by linarith
  obtain x w4 where sb: "streamBody fl ?w3 r 0 (int (60 + length n)) 0 usize = (x, w4)" by fastforce
  have w4: "wf_ops (ew_w w4) \<le> wf_ops out + (3 + 2 * 65535)"
    using streamBody_steps [OF sb] w3 by (simp add: block_room_def)
  have "wf_ops (snd (patch (ew_w w4) tot b)) \<le> wf_ops out + (3 + 2 * 65535 + 5)" for tot b
    using patch_ops [of "ew_w w4" tot b] w4 by linarith
  with w3 w4 sb Inr show ?thesis
    by (auto simp: cab_Write_def Let_def cab_consts split: option.splits sum.splits prod.splits)
qed (simp add: cab_Write_def)

text \<open>An oversize or negative declared size, or a name that is empty or not printable ASCII,
  is rejected before a byte is written.\<close>

lemma cab_Write_rejects:
  assumes "usize < 0 \<or> usize > 65535 * 32768 \<or> name = []
    \<or> (\<exists>c \<in> set name. \<not> (0x20 \<le> (of_char c :: nat) \<and> (of_char c :: nat) \<le> 0x7e))"
  shows "fst (cab_Write fl out name usize r) \<noteq> None \<and> snd (cab_Write fl out name usize r) = out"
proof (cases "usize < 0 \<or> usize > maxFolderUncompessed")
  case True
  then show ?thesis by (simp add: cab_Write_def)
next
  case False
  with assms have "\<exists>e. encodeName name = Inl e"
    by (intro encodeName_Inl) (auto simp: maxFolderUncompessed_def maxBlocks_def maxBlockUncompressed_def)
  with False show ?thesis by (auto simp: cab_Write_def)
qed

section \<open>Witnesses\<close>

text \<open>A compressor that stores, and the decoder of a single final stored block.\<close>

definition fl_stored :: flate_lib where
  "fl_stored = \<lparr>fl_Write_err = (\<lambda>_. None), fl_Close = (\<lambda>d. Inr (writeStored d))\<rparr>"

definition inflate_stored :: "bytes \<Rightarrow> bytes option" where
  "inflate_stored bs =
     (if length bs < 5 \<or> bs ! 0 \<noteq> 1 then None
      else if length (drop 5 bs) < get_uint16 bs 1 then None
      else Some (take (get_uint16 bs 1) (drop 5 bs)))"

lemma inflate_stored_writeStored:
  assumes "length d \<le> maxBlockUncompressed"
  shows "inflate_stored (writeStored d) = Some d"
proof -
  have d: "drop 1 (writeStored d) = put_uint16 (word_of_nat (length d))
      @ put_uint16 (not (word_of_nat (length d))) @ d"
    and l: "length (writeStored d) = 5 + length d"
    and h: "writeStored d ! 0 = 1"
    by (simp_all add: writeStored_def deflateStoredFinalByte_def)
  have "length d < 65536" using assms by (simp add: maxBlockUncompressed_def)
  then have g: "get_uint16 (writeStored d) 1 = length d"
    using d l by (subst get_uint16_drop) (simp_all add: unat_word16)
  have "drop 5 (writeStored d) = drop 4 (drop 1 (writeStored d))" by simp
  also have "\<dots> = d" unfolding d by simp
  finally show ?thesis using g l h by (simp add: inflate_stored_def)
qed

lemma codec_ok_stored: "codec_ok fl_stored inflate_stored"
  by (auto simp: codec_ok_def fl_stored_def inflate_stored_writeStored)

lemma flate_total_stored: "flate_total fl_stored"
  by (simp add: flate_total_def fl_stored_def mszip_block_def)

definition wf_empty :: wfile where
  "wf_empty = \<lparr>wf_buf = [], wf_pos = 0, wf_ops = 0, wf_fault = (\<lambda>_. None)\<rparr>"

definition rd_abc :: reader where
  "rd_abc = \<lparr>rd_rest = [1, 2, 3], rd_end = AtEOF\<rparr>"

definition cab_abc :: wfile where
  "cab_abc = snd (cab_Write fl_stored wf_empty ''a.pdb'' 3 rd_abc)"

lemma wf_empty_simps: "wf_buf wf_empty = []" "wf_pos wf_empty = 0" "no_faults wf_empty"
  by (simp_all add: wf_empty_def no_faults_def)

lemma cab_abc: "cab_Write fl_stored wf_empty ''a.pdb'' 3 rd_abc = (None, cab_abc)"
proof -
  have "fst (cab_Write fl_stored wf_empty ''a.pdb'' 3 rd_abc) = None"
    by (rule cab_Write_succeeds)
      (simp_all add: wf_empty_simps flate_total_stored encodeName_def rd_abc_def maxFolderUncompessed_def
        maxBlocks_def maxBlockUncompressed_def)
  then show ?thesis by (simp add: cab_abc_def prod_eq_iff)
qed

lemma cab_Write_image_witness: "wf_buf cab_abc = cab_image fl_stored ''a.pdb'' [1, 2, 3]"
  using cab_Write_image [OF cab_abc wf_empty_simps(1,2)] by (simp add: rd_abc_def)

lemma cab_Write_succeeds_iff_witness: "fst (cab_Write fl_stored wf_empty '''' 3 rd_abc) \<noteq> None"
  using cab_Write_succeeds_iff [OF wf_empty_simps(3) flate_total_stored wf_empty_simps(1,2), of "''''" 3 rd_abc]
  by (simp add: encodeName_def)

lemma cab_Write_roundtrip_witness: "extractCAB inflate_stored (wf_buf cab_abc) = Some (''a.pdb'', [1, 2, 3])"
  using cab_Write_roundtrip [OF cab_abc wf_empty_simps(1,2) codec_ok_stored] by (simp add: rd_abc_def)

lemma cab_Write_fields_witness: "get_uint16 (wf_buf cab_abc) 40 = 1"
  using cab_Write_fields [OF cab_abc wf_empty_simps(1,2)] by simp

lemma cab_Write_rejects_witness: "snd (cab_Write fl_stored wf_empty [CHR 0x1f] 3 rd_abc) = wf_empty"
  using cab_Write_rejects [of 3 "[CHR 0x1f]" fl_stored wf_empty rd_abc] by simp

end
