(* ===== verification/Resolver.thy ===== *)
theory Resolver
  imports GoStrings
begin

text \<open>
  Package \<open>resolver\<close>: the request and location types of \<open>resolver.go\<close>, and the Sentry
  resolver of \<open>sentry.go\<close>: the API query, the choice of one debug file among the
  candidates (\<open>pick\<close>, \<open>quality\<close>), and the derivation of the blob key (\<open>storageKey\<close>).

  The HTTP client, the URL library and the JSON decoder are the parameter record
  \<open>sentry_http\<close>; a response body is what decoding it gives (\<open>None\<close> if it does not decode).
\<close>

section \<open>Requests and locations (resolver.go)\<close>

datatype file_type =
    FilePDB | FilePE | FileELFCode | FileELFDebug | FileMachCode | FileMachDebug | FileSourceBundle

fun file_type_string :: "file_type \<Rightarrow> string" where
  "file_type_string FilePDB = ''pdb''"
| "file_type_string FilePE = ''pe''"
| "file_type_string FileELFCode = ''elf_code''"
| "file_type_string FileELFDebug = ''elf_debug''"
| "file_type_string FileMachCode = ''mach_code''"
| "file_type_string FileMachDebug = ''mach_debug''"
| "file_type_string FileSourceBundle = ''sourcebundle''"

record request =
  DebugID :: string
  CodeID :: string
  Filename :: string
  FileType :: file_type

record location =
  Bucket :: string
  Key :: string
  Size :: int
  ContentType :: string

lemma file_type_string_inject [simp]: "file_type_string a = file_type_string b \<longleftrightarrow> a = b"
  by (cases a; cases b) simp_all

lemma file_type_string_no_slash: "CHR ''/'' \<notin> set (file_type_string ft)"
  by (cases ft) simp_all

section \<open>The Sentry resolver (sentry.go)\<close>

record sentry =
  base :: string
  org :: string
  project :: string
  token :: string
  bucket :: string
  keyPrefix :: string

record sentry_options =
  APIURL :: string
  Org :: string
  Project :: string
  Token :: string
  opt_Bucket :: string
  opt_KeyPrefix :: string

definition NewSentry :: "sentry_options \<Rightarrow> sentry" where
  "NewSentry opts = \<lparr>base = TrimRight (APIURL opts) ''/'', org = Org opts, project = Project opts,
     token = Token opts, bucket = opt_Bucket opts, keyPrefix = opt_KeyPrefix opts\<rparr>"

record debugFile =
  df_DebugID :: string
  df_CodeID :: string
  df_ObjectName :: string
  df_SymbolType :: string
  df_SHA1 :: string
  df_Size :: int
  df_Features :: "string list"

definition symbolTypeSourceBundle :: string where
  "symbolTypeSourceBundle = ''sourcebundle''"

definition minSHA1Len :: nat where
  "minSHA1Len = 4"

definition matchesIdentity :: "unicode_tables \<Rightarrow> debugFile \<Rightarrow> request \<Rightarrow> bool" where
  "matchesIdentity uc f req =
     (if DebugID req \<noteq> '''' \<and> EqualFold uc (df_DebugID f) (DebugID req) then True
      else CodeID req \<noteq> '''' \<and> df_CodeID f \<noteq> '''' \<and> EqualFold uc (df_CodeID f) (CodeID req))"

definition df_isSourceBundle :: "unicode_tables \<Rightarrow> debugFile \<Rightarrow> bool" where
  "df_isSourceBundle uc f = EqualFold uc (df_SymbolType f) symbolTypeSourceBundle"

fun wantedFeature :: "file_type \<Rightarrow> string" where
  "wantedFeature FilePDB = ''debug''"
| "wantedFeature FileELFDebug = ''debug''"
| "wantedFeature FileMachDebug = ''debug''"
| "wantedFeature FilePE = ''unwind''"
| "wantedFeature FileELFCode = ''unwind''"
| "wantedFeature FileMachCode = ''unwind''"
| "wantedFeature FileSourceBundle = ''''"

definition quality :: "unicode_tables \<Rightarrow> debugFile \<Rightarrow> request \<Rightarrow> int" where
  "quality uc f req =
     (let feat = wantedFeature (FileType req);
          score = (if feat = '''' \<or> list_ex (\<lambda>s. EqualFold uc s feat) (df_Features f) then 1 else 2)
      in if Filename req \<noteq> '''' \<and> EqualFold uc (df_ObjectName f) (Filename req)
         then score - 1 else score)"

definition pick_cmp :: "unicode_tables \<Rightarrow> request \<Rightarrow> debugFile \<Rightarrow> debugFile \<Rightarrow> int" where
  "pick_cmp uc req a b =
     (let d = quality uc a req - quality uc b req in
      if d \<noteq> 0 then d else Compare (df_SHA1 a) (df_SHA1 b))"

text \<open>The loop of \<open>pick\<close> that collects \<open>matches\<close>.\<close>

fun pick_matches :: "unicode_tables \<Rightarrow> request \<Rightarrow> debugFile list \<Rightarrow> debugFile list" where
  "pick_matches uc req [] = []"
| "pick_matches uc req (f # fs) =
     (let wantSource = (FileType req = FileSourceBundle) in
      if \<not> matchesIdentity uc f req then pick_matches uc req fs
      else if df_isSourceBundle uc f \<noteq> wantSource then pick_matches uc req fs
      else f # pick_matches uc req fs)"

definition pick :: "unicode_tables \<Rightarrow> debugFile list \<Rightarrow> request \<Rightarrow> debugFile option" where
  "pick uc files req =
     (let matches = pick_matches uc req files in
      if matches = [] then None else Some (hd (sort_func (pick_cmp uc req) matches)))"

text \<open>\<open>None\<close>: \<open>sha1[0:2]\<close> or \<open>sha1[2:4]\<close> is out of range and the code panics.\<close>

definition storageKey :: "sentry \<Rightarrow> string \<Rightarrow> string option" where
  "storageKey s sha1 =
     (let pre = (if keyPrefix s \<noteq> ''''
                 then keyPrefix s @ (if \<not> HasSuffix (keyPrefix s) ''/'' then ''/'' else '''')
                 else '''')
      in case (go_slice sha1 0 2, go_slice sha1 2 4) of
           (Some a, Some b) \<Rightarrow> Some (pre @ a @ ''/'' @ b @ ''/'' @ sha1)
         | _ \<Rightarrow> None)"

subsection \<open>The API call\<close>

record http_request =
  hr_endpoint :: string
  hr_query :: "(string \<times> string) list"     \<comment> \<open>in the key order \<open>url.Values.Encode\<close> writes\<close>
  hr_header :: "(string \<times> string) list"

record http_response =
  StatusCode :: nat
  Body :: "debugFile list option"

record sentry_http =
  url_JoinPath :: "string \<Rightarrow> string list \<Rightarrow> string result"
  http_NewRequest :: "http_request \<Rightarrow> unit result"
  client_Do :: "http_request \<Rightarrow> http_response result"

definition dsymsPath :: string where
  "dsymsPath = ''files/dsyms/''"

definition sentry_query :: "request \<Rightarrow> (string \<times> string) list" where
  "sentry_query req =
     (if CodeID req \<noteq> '''' then [(''code_id'', CodeID req)] else [])
     @ (if DebugID req \<noteq> '''' then [(''debug_id'', DebugID req)] else [])"

definition sentry_request :: "sentry \<Rightarrow> string \<Rightarrow> request \<Rightarrow> http_request" where
  "sentry_request s endpoint req = \<lparr>hr_endpoint = endpoint, hr_query = sentry_query req,
     hr_header = [(''Authorization'', ''Bearer '' @ token s), (''Accept'', ''application/json'')]\<rparr>"

definition Sentry_Lookup :: "unicode_tables \<Rightarrow> sentry_http \<Rightarrow> sentry \<Rightarrow> request \<Rightarrow> location result" where
  "Sentry_Lookup uc net s req =
     (case url_JoinPath net (base s) [''projects'', org s, project s, dsymsPath] of
        Inl e \<Rightarrow> Inl (Wrap ''building sentry url'' e)
      | Inr endpoint \<Rightarrow>
        (let httpReq = sentry_request s endpoint req in
         case http_NewRequest net httpReq of
           Inl e \<Rightarrow> Inl (Wrap ''building sentry request'' e)
         | Inr _ \<Rightarrow>
           (case client_Do net httpReq of
              Inl e \<Rightarrow> Inl (Wrap ''querying sentry'' e)
            | Inr resp \<Rightarrow>
              (if StatusCode resp = 404 then Inl ResolverNotFound
               else if StatusCode resp \<noteq> 200 then Inl (NewError ''sentry api'')
               else case Body resp of
                      None \<Rightarrow> Inl (Wrap ''decoding sentry response'' (EnvError ''json''))
                    | Some files \<Rightarrow>
                      (case pick uc files req of
                         None \<Rightarrow> Inl ResolverNotFound
                       | Some best \<Rightarrow>
                         (if length (df_SHA1 best) < minSHA1Len then Inl ResolverNotFound
                          else case storageKey s (df_SHA1 best) of
                                 None \<Rightarrow> Inl (GoPanic ''slice bounds out of range'')
                               | Some k \<Rightarrow>
                                 Inr \<lparr>Bucket = bucket s, Key = k, Size = df_Size best,
                                      ContentType = ''''\<rparr>))))))"

section \<open>Lemmas\<close>

lemma pick_matches_filter:
  "pick_matches uc req fs =
     filter (\<lambda>f. matchesIdentity uc f req \<and> (df_isSourceBundle uc f \<longleftrightarrow> FileType req = FileSourceBundle)) fs"
  by (induction fs) (auto simp: Let_def)

lemma quality_bounds: "0 \<le> quality uc f req \<and> quality uc f req \<le> 2"
  by (simp add: quality_def Let_def)

subsection \<open>The comparison is the order of the ranks\<close>

text \<open>
  A candidate's rank is its quality with ties broken by content hash, ordered
  lexicographically.
\<close>

datatype rank = Rank (rank_quality: int) (rank_sha1: string)

instantiation rank :: linorder
begin

definition less_eq_rank :: "rank \<Rightarrow> rank \<Rightarrow> bool" where
  "less_eq_rank a b \<longleftrightarrow>
     rank_quality a < rank_quality b \<or> (rank_quality a = rank_quality b \<and> rank_sha1 a \<le> rank_sha1 b)"

definition less_rank :: "rank \<Rightarrow> rank \<Rightarrow> bool" where
  "less_rank a b \<longleftrightarrow>
     rank_quality a < rank_quality b \<or> (rank_quality a = rank_quality b \<and> rank_sha1 a < rank_sha1 b)"

instance
  by standard (auto simp: less_eq_rank_def less_rank_def rank.expand)

end

definition rank_of :: "unicode_tables \<Rightarrow> request \<Rightarrow> debugFile \<Rightarrow> rank" where
  "rank_of uc req f = Rank (quality uc f req) (df_SHA1 f)"

lemma pick_cmp_le_iff: "pick_cmp uc req a b \<le> 0 \<longleftrightarrow> rank_of uc req a \<le> rank_of uc req b"
  by (auto simp: pick_cmp_def rank_of_def less_eq_rank_def Compare_le_0_iff Let_def)

lemma pick_cmp_less_iff: "pick_cmp uc req a b < 0 \<longleftrightarrow> rank_of uc req a < rank_of uc req b"
  by (auto simp: pick_cmp_def rank_of_def less_rank_def Compare_less_0_iff Let_def)

lemma pick_cmp_swap: "pick_cmp uc req a b = - pick_cmp uc req b a"
  using Compare_swap [of "df_SHA1 a" "df_SHA1 b"] by (simp add: pick_cmp_def Let_def)

lemma pick_cmp_eq_0_iff: "pick_cmp uc req a b = 0 \<longleftrightarrow> rank_of uc req a = rank_of uc req b"
  by (auto simp: pick_cmp_def rank_of_def Let_def)

interpretation pick_order: sort_cmp "pick_cmp uc req" for uc req
proof
  show "pick_cmp uc req a b < 0 \<longleftrightarrow> pick_cmp uc req b a > 0" for a b
    using pick_cmp_swap [of uc req a b] by linarith
  show "pick_cmp uc req a b \<le> 0 \<Longrightarrow> pick_cmp uc req b c \<le> 0 \<Longrightarrow> pick_cmp uc req a c \<le> 0" for a b c
    by (simp add: pick_cmp_le_iff)
qed

lemma pick_SomeD:
  assumes "pick uc files req = Some f"
  shows "f \<in> set (pick_matches uc req files)"
    and "g \<in> set (pick_matches uc req files) \<Longrightarrow> rank_of uc req f \<le> rank_of uc req g"
proof -
  let ?m = "pick_matches uc req files"
  from assms have "?m \<noteq> []" and f: "f = hd (sort_func (pick_cmp uc req) ?m)"
    by (auto simp: pick_def Let_def split: if_splits)
  from pick_order.sorted_perm_hd_least [OF mset_sort_func pick_order.sorted_sort_func \<open>?m \<noteq> []\<close>]
  show "f \<in> set ?m" and "g \<in> set ?m \<Longrightarrow> rank_of uc req f \<le> rank_of uc req g"
    by (auto simp: f pick_cmp_le_iff)
qed

lemma pick_None_iff: "pick uc files req = None \<longleftrightarrow> pick_matches uc req files = []"
  by (simp add: pick_def Let_def)

subsection \<open>Blob keys\<close>

definition key_prefix_dir :: "sentry \<Rightarrow> string" where
  "key_prefix_dir s =
     (if keyPrefix s = '''' then ''''
      else if HasSuffix (keyPrefix s) ''/'' then keyPrefix s else keyPrefix s @ ''/'')"

lemma storageKey_eq:
  "minSHA1Len \<le> length sha1 \<Longrightarrow>
     storageKey s sha1 = Some (key_prefix_dir s @ take 2 sha1 @ ''/'' @ take 2 (drop 2 sha1) @ ''/'' @ sha1)"
  by (auto simp: storageKey_def key_prefix_dir_def go_slice_def minSHA1Len_def)

lemma storageKey_None_iff: "storageKey s sha1 = None \<longleftrightarrow> length sha1 < minSHA1Len"
  by (auto simp: storageKey_def go_slice_def minSHA1Len_def Let_def split: option.splits)

lemma Sentry_Lookup_InrD:
  assumes "Sentry_Lookup uc net s req = Inr loc"
  obtains endpoint files best where
    "url_JoinPath net (base s) [''projects'', org s, project s, dsymsPath] = Inr endpoint"
    and "client_Do net (sentry_request s endpoint req) = Inr \<lparr>StatusCode = 200, Body = Some files\<rparr>"
    and "pick uc files req = Some best" and "minSHA1Len \<le> length (df_SHA1 best)"
    and "storageKey s (df_SHA1 best) = Some (Key loc)"
    and "Bucket loc = bucket s" and "Size loc = df_Size best"
proof -
  from assms obtain endpoint resp files best k where
    "url_JoinPath net (base s) [''projects'', org s, project s, dsymsPath] = Inr endpoint"
    "client_Do net (sentry_request s endpoint req) = Inr resp" "StatusCode resp = 200"
    "Body resp = Some files" "pick uc files req = Some best" "\<not> length (df_SHA1 best) < minSHA1Len"
    "storageKey s (df_SHA1 best) = Some k"
    "loc = \<lparr>Bucket = bucket s, Key = k, Size = df_Size best, ContentType = ''''\<rparr>"
    by (auto simp: Sentry_Lookup_def Let_def split: result_splits)
  then show ?thesis
    using that [of endpoint files best] by (cases resp) simp
qed

lemmas [go_eval] =
  matchesIdentity_def df_isSourceBundle_def symbolTypeSourceBundle_def quality_def pick_cmp_def
  pick_def storageKey_def minSHA1Len_def dsymsPath_def sentry_query_def
  sentry_request_def Sentry_Lookup_def

section \<open>Properties\<close>

text \<open>The candidates: identity matches, and the right side of the bundle divide.\<close>

definition candidate :: "unicode_tables \<Rightarrow> request \<Rightarrow> debugFile \<Rightarrow> bool" where
  "candidate uc req f \<longleftrightarrow>
     ((DebugID req \<noteq> '''' \<and> EqualFold uc (df_DebugID f) (DebugID req))
       \<or> (CodeID req \<noteq> '''' \<and> df_CodeID f \<noteq> '''' \<and> EqualFold uc (df_CodeID f) (CodeID req)))
     \<and> (df_isSourceBundle uc f \<longleftrightarrow> FileType req = FileSourceBundle)"

lemma set_pick_matches: "f \<in> set (pick_matches uc req files) \<longleftrightarrow> f \<in> set files \<and> candidate uc req f"
  by (auto simp: pick_matches_filter candidate_def matchesIdentity_def)

text \<open>C32: \<open>pick\<close> returns a candidate of least rank, and nothing only when there is no candidate.\<close>

theorem pick_best:
  "case pick uc files req of
     None \<Rightarrow> \<forall>g \<in> set files. \<not> candidate uc req g
   | Some f \<Rightarrow> f \<in> set files \<and> candidate uc req f
       \<and> (\<forall>g \<in> set files. candidate uc req g \<longrightarrow>
            quality uc f req < quality uc g req \<or> (quality uc f req = quality uc g req \<and> df_SHA1 f \<le> df_SHA1 g))"
proof (cases "pick uc files req")
  case None
  then have "pick_matches uc req files = []" by (simp add: pick_None_iff)
  with None show ?thesis using set_pick_matches [of _ uc req files] by auto
next
  case (Some f)
  from pick_SomeD [OF Some] show ?thesis
    by (auto simp: Some set_pick_matches rank_of_def less_eq_rank_def)
qed

text \<open>C33: whatever order the API lists the files in, and whichever sorted permutation the unstable
  sort returns, the same content is chosen.\<close>

theorem pick_deterministic:
  assumes "mset files' = mset files" and "pick uc files req = Some f"
    and "mset ys = mset (pick_matches uc req files')"
    and "sorted_wrt (\<lambda>a b. pick_cmp uc req a b \<le> 0) ys"
  shows "ys \<noteq> [] \<and> df_SHA1 (hd ys) = df_SHA1 f \<and> quality uc (hd ys) req = quality uc f req"
proof -
  let ?m = "pick_matches uc req files"
  have m: "mset (pick_matches uc req files') = mset ?m"
    using assms(1) by (simp add: pick_matches_filter mset_filter)
  from assms(2) have ne: "?m \<noteq> []" and f: "f = hd (sort_func (pick_cmp uc req) ?m)"
    by (auto simp: pick_def Let_def split: if_splits)
  have "pick_cmp uc req (hd ys) f = 0"
    unfolding f by (rule pick_order.sorted_perm_hd_unique [OF _ assms(4) mset_sort_func pick_order.sorted_sort_func ne])
      (simp add: assms(3) m)
  then have "rank_of uc req (hd ys) = rank_of uc req f" by (simp add: pick_cmp_eq_0_iff)
  moreover have "ys \<noteq> []" using assms(3) m ne by auto
  ultimately show ?thesis by (simp add: rank_of_def)
qed

text \<open>A blob key is the prefix directory, two shard levels and the hash; different hashes get
  different keys; only a hash shorter than four bytes has none (the code would panic).\<close>

lemma storageKey_layout:
  "(storageKey s sha1 = None \<longleftrightarrow> length sha1 < minSHA1Len)
   \<and> (storageKey s sha1 = Some k \<longrightarrow>
        k = key_prefix_dir s @ take 2 sha1 @ ''/'' @ take 2 (drop 2 sha1) @ ''/'' @ sha1
        \<and> (storageKey s sha1' = Some k \<longrightarrow> sha1' = sha1))"
proof -
  have shape: "k = key_prefix_dir s @ take 2 x @ ''/'' @ take 2 (drop 2 x) @ ''/'' @ x \<and> minSHA1Len \<le> length x"
    if "storageKey s x = Some k" for x
    using that storageKey_None_iff [of s x] storageKey_eq [of x s] by (cases "length x < minSHA1Len") auto
  have "x = drop (length (key_prefix_dir s) + 6) k" if "storageKey s x = Some k" for x
  proof -
    have "min (length x - 2) 2 = 2" "min (length x) 2 = 2"
      using shape [OF that] by (auto simp: minSHA1Len_def)
    with shape [OF that] show ?thesis by simp
  qed
  with shape show ?thesis using storageKey_None_iff by metis
qed

text \<open>A found location points at the hash of a candidate of the decoded answer.\<close>

lemma Sentry_Lookup_found:
  assumes "Sentry_Lookup uc net s req = Inr loc"
  shows "Bucket loc = bucket s
    \<and> (\<exists>endpoint files f. client_Do net (sentry_request s endpoint req) = Inr \<lparr>StatusCode = 200, Body = Some files\<rparr>
         \<and> f \<in> set files \<and> candidate uc req f \<and> Size loc = df_Size f
         \<and> Key loc = key_prefix_dir s @ take 2 (df_SHA1 f) @ ''/'' @ take 2 (drop 2 (df_SHA1 f)) @ ''/'' @ df_SHA1 f)"
proof -
  from assms obtain endpoint files best where
    c: "client_Do net (sentry_request s endpoint req) = Inr \<lparr>StatusCode = 200, Body = Some files\<rparr>"
    and p: "pick uc files req = Some best" and l: "minSHA1Len \<le> length (df_SHA1 best)"
    and k: "storageKey s (df_SHA1 best) = Some (Key loc)"
    and loc: "Bucket loc = bucket s" "Size loc = df_Size best"
    by (rule Sentry_Lookup_InrD)
  from pick_SomeD(1) [OF p] have "best \<in> set files" "candidate uc req best"
    by (simp_all add: set_pick_matches)
  moreover from k storageKey_eq [OF l, of s] have
    "Key loc = key_prefix_dir s @ take 2 (df_SHA1 best) @ ''/'' @ take 2 (drop 2 (df_SHA1 best)) @ ''/'' @ df_SHA1 best"
    by simp
  ultimately show ?thesis using c loc by blast
qed

text \<open>Once the request is built, a lookup reports \<open>ErrNotFound\<close> exactly when the API answers 404
  or its files hold no candidate with a usable hash; and it never panics.\<close>

lemma Sentry_Lookup_not_found_iff:
  assumes "url_JoinPath net (base s) [''projects'', org s, project s, dsymsPath] = Inr endpoint"
    and "http_NewRequest net (sentry_request s endpoint req) = Inr ()"
    and "\<And>e. client_Do net (sentry_request s endpoint req) = Inl e \<Longrightarrow> \<not> errors_is e ResolverNotFound"
  shows "((\<exists>e. Sentry_Lookup uc net s req = Inl e \<and> errors_is e ResolverNotFound) \<longleftrightarrow>
      (\<exists>code body. client_Do net (sentry_request s endpoint req) = Inr \<lparr>StatusCode = code, Body = body\<rparr>
         \<and> (code = 404 \<or> code = 200 \<and> (\<exists>files. body = Some files
              \<and> (case pick uc files req of None \<Rightarrow> True | Some f \<Rightarrow> length (df_SHA1 f) < 4)))))
    \<and> (\<forall>m. Sentry_Lookup uc net s req \<noteq> Inl (GoPanic m))"
proof (cases "client_Do net (sentry_request s endpoint req)")
  case (Inl e)
  with assms show ?thesis by (simp add: Sentry_Lookup_def Let_def)
next
  case (Inr resp)
  obtain code body where resp: "resp = \<lparr>StatusCode = code, Body = body\<rparr>" by (cases resp)
  show ?thesis
  proof (cases "code = 200 \<and> body \<noteq> None")
    case False
    with assms Inr show ?thesis
      by (cases body) (auto simp: Sentry_Lookup_def Let_def resp)
  next
    case True
    then obtain files where body: "body = Some files" "code = 200" by auto
    show ?thesis
    proof (cases "pick uc files req")
      case None
      with assms Inr body show ?thesis by (simp add: Sentry_Lookup_def Let_def resp)
    next
      case (Some f)
      with assms Inr body storageKey_None_iff [of s "df_SHA1 f"] show ?thesis
        by (cases "storageKey s (df_SHA1 f)") (auto simp: Sentry_Lookup_def Let_def resp minSHA1Len_def)
    qed
  qed
qed

section \<open>Witnesses\<close>

definition ex_request :: request where
  "ex_request = \<lparr>DebugID = ''ab-1'', CodeID = '''', Filename = ''app.pdb'', FileType = FilePDB\<rparr>"

definition ex_file :: debugFile where
  "ex_file = \<lparr>df_DebugID = ''AB-1'', df_CodeID = '''', df_ObjectName = ''app.pdb'', df_SymbolType = ''pdb'',
     df_SHA1 = ''cafe01'', df_Size = 7, df_Features = [''debug'']\<rparr>"

definition ex_file' :: debugFile where
  "ex_file' = ex_file\<lparr>df_SHA1 := ''aaaa01'', df_Features := []\<rparr>"

definition ex_sentry :: sentry where
  "ex_sentry = \<lparr>base = ''u'', org = ''o'', project = ''p'', token = ''t'', bucket = ''b'', keyPrefix = ''k''\<rparr>"

definition ex_net :: "debugFile list \<Rightarrow> sentry_http" where
  "ex_net files = \<lparr>url_JoinPath = (\<lambda>_ _. Inr ''u''), http_NewRequest = (\<lambda>_. Inr ()),
     client_Do = (\<lambda>_. Inr \<lparr>StatusCode = 200, Body = Some files\<rparr>)\<rparr>"

lemmas ex_defs = ex_request_def ex_file_def ex_file'_def ex_sentry_def ex_net_def

lemma pick_ex: "pick ascii_tables [ex_file', ex_file] ex_request = Some ex_file"
  by (simp add: go_eval ex_defs)

lemma Sentry_Lookup_ex:
  "Sentry_Lookup ascii_tables (ex_net [ex_file', ex_file]) ex_sentry ex_request =
     Inr \<lparr>Bucket = ''b'', Key = ''k/ca/fe/cafe01'', Size = 7, ContentType = ''''\<rparr>"
  by (simp add: go_eval ex_defs)

lemma pick_best_witness: "quality ascii_tables ex_file ex_request < quality ascii_tables ex_file' ex_request"
  using pick_best [of "[ex_file', ex_file]" ascii_tables ex_request]
  by (simp add: pick_ex) (simp add: go_eval candidate_def ex_defs)

lemma pick_deterministic_witness: "df_SHA1 (hd [ex_file, ex_file']) = ''cafe01''"
  using pick_deterministic [OF _ pick_ex, of "[ex_file, ex_file']" "[ex_file, ex_file']"]
  by (simp add: go_eval ex_defs)

lemma storageKey_layout_witness: "storageKey ex_sentry ''cafe02'' \<noteq> Some ''k/ca/fe/cafe01''"
  using storageKey_layout [of ex_sentry "''cafe01''" "''k/ca/fe/cafe01''" "''cafe02''"]
  by (simp add: go_eval ex_sentry_def)

lemma Sentry_Lookup_found_witness:
  "\<exists>f. candidate ascii_tables ex_request f \<and> df_Size f = 7"
  using Sentry_Lookup_found [OF Sentry_Lookup_ex] by auto

lemma Sentry_Lookup_not_found_iff_witness:
  "\<exists>e. Sentry_Lookup ascii_tables (ex_net []) ex_sentry ex_request = Inl e \<and> errors_is e ResolverNotFound"
  using Sentry_Lookup_not_found_iff [of "ex_net []" ex_sentry "''u''" ex_request ascii_tables]
  by (simp add: ex_net_def go_eval)

end
