(* ===== verification/Service.thy ===== *)
theory Service
  imports Storage Staging Cab Resolver
begin

text \<open>
  Package \<open>objects\<close>: the service of \<open>service.go\<close> and \<open>synth.go\<close>, which ties the resolver, the
  blob store, the disk cache and the cabinet writer together. Each operation is a function
  of the world (file system and collectors), in the order of the code's calls.

  \<open>singleflight.Group\<close> is the parameter \<open>svc_join\<close>: \<open>None\<close> when this caller executes the
  closure, else the outcome of another caller's call for the same key and the world it
  left. Logging and the measured durations are not modelled.
\<close>

section \<open>Constants (constants.go)\<close>

definition roleObjects :: string where
  "roleObjects = ''objects''"

definition roleRawCompressed :: string where
  "roleRawCompressed = ''raw_compressed''"

definition roleCabSynth :: string where
  "roleCabSynth = ''cab_synth''"

definition labelCompressed :: string where
  "labelCompressed = ''compressed''"

definition cabMagic :: string where
  "cabMagic = ''MSCF''"

definition maxSourceFileSize :: nat where
  "maxSourceFileSize = push_bit 20 64"

section \<open>The service (service.go)\<close>

record service =
  svc_resolver :: "request \<Rightarrow> location result"
  svc_fetcher :: "string \<Rightarrow> string \<Rightarrow> wfile \<Rightarrow> (int \<times> goerr option) \<times> wfile"
  svc_cache :: cache
  svc_sha :: "bytes \<Rightarrow> bytes"
  svc_flate :: flate_lib
  svc_join :: "string \<Rightarrow> world \<Rightarrow> (goerr option \<times> world) option"

text \<open>\<open>objects.New\<close>, with the libraries and the singleflight group as further arguments.\<close>

definition objects_New :: "(request \<Rightarrow> location result)
    \<Rightarrow> (string \<Rightarrow> string \<Rightarrow> wfile \<Rightarrow> (int \<times> goerr option) \<times> wfile) \<Rightarrow> cache
    \<Rightarrow> (bytes \<Rightarrow> bytes) \<Rightarrow> flate_lib \<Rightarrow> (string \<Rightarrow> world \<Rightarrow> (goerr option \<times> world) option) \<Rightarrow> service" where
  "objects_New r f c sha flate join =
     \<lparr>svc_resolver = r, svc_fetcher = f, svc_cache = c, svc_sha = sha, svc_flate = flate, svc_join = join\<rparr>"

text \<open>A file of the cache with its \<open>fs.FileInfo\<close>; \<open>None\<close> is the nil pair.\<close>

type_synonym opened = "(osfile \<times> fileinfo) option"

definition svc_Lookup :: "service \<Rightarrow> string \<Rightarrow> string \<Rightarrow> string \<Rightarrow> world \<Rightarrow> opened result \<times> world" where
  "svc_Lookup s role ident inner = on_fs (cache_Lookup (svc_sha s) (svc_cache s) role ident inner)"

definition cacheKey :: "request \<Rightarrow> string \<times> string" where
  "cacheKey req = (cmp_Or (DebugID req) (CodeID req), file_type_string (FileType req) @ ''/'' @ Filename req)"

definition flightKey :: "string \<Rightarrow> string \<Rightarrow> string \<Rightarrow> string" where
  "flightKey role ident inner = role @ ''|'' @ ident @ ''|'' @ inner"

definition produceOnce :: "service \<Rightarrow> string \<Rightarrow> (world \<Rightarrow> goerr option \<times> world) \<Rightarrow> world
    \<Rightarrow> goerr option \<times> world" where
  "produceOnce s key produce w =
     (case svc_join s key w of
        Some (Some e, w1) \<Rightarrow> (Some (Wrap ''producing cache entry'' e), w1)
      | Some (None, w1) \<Rightarrow> (None, on_met met_coalesced w1)
      | None \<Rightarrow>
          (case produce w of
             (Some e, w1) \<Rightarrow> (Some (Wrap ''producing cache entry'' e), w1)
           | (None, w1) \<Rightarrow> (None, w1)))"

definition download :: "service \<Rightarrow> request \<Rightarrow> world \<Rightarrow> goerr option \<times> world" where
  "download s req w =
     (case svc_resolver s req of
        Inl e \<Rightarrow>
          (if errors_is e ResolverNotFound
           then (Some ObjectsNotFound, on_met (met_resolver ResultNotFound) w)
           else (Some (Wrap ''resolving'' e), on_met (met_resolver ResultError) w))
      | Inr loc \<Rightarrow>
        (let w1 = on_met met_resolver_seconds (on_met (met_resolver ResultOK) w) in
         case on_fs (NewTemp (svc_cache s)) w1 of
           (Inl e, w2) \<Rightarrow> (Some (Wrap ''creating staging file'' e), w2)
         | (Inr tmp, w2) \<Rightarrow>
           (case on_file tmp (svc_fetcher s (Bucket loc) (Key loc)) w2 of
              ((n, Some e), tmp1, w3) \<Rightarrow>
                (if errors_is e StorageNotFound then (Some ObjectsNotFound, discard tmp1 w3)
                 else (Some (Wrap ''fetching object bytes'' e), discard tmp1 (on_met met_storage_error w3)))
            | ((n, None), tmp1, w3) \<Rightarrow>
                (let w4 = on_met (met_fetched n) w3 in
                 case cacheKey req of (ident, inner) \<Rightarrow>
                 case Commit (svc_sha s) (svc_cache s) tmp1 roleObjects ident inner w4 of
                   (Some e, w5) \<Rightarrow> (Some (Wrap ''committing object to cache'' e), discard tmp1 w5)
                 | (None, w5) \<Rightarrow> (None, w5)))))"

definition object :: "service \<Rightarrow> request \<Rightarrow> world \<Rightarrow> opened result \<times> world" where
  "object s req w =
     (case cacheKey req of (ident, inner) \<Rightarrow>
      case svc_Lookup s roleObjects ident inner w of
        (Inl e, w1) \<Rightarrow> (Inl (Wrap ''looking up cached object'' e), w1)
      | (Inr (Some f), w1) \<Rightarrow> (Inr (Some f), on_met (met_lookup roleObjects ResultHit) w1)
      | (Inr None, w1) \<Rightarrow>
        (case produceOnce s (flightKey roleObjects ident inner) (download s req)
            (on_met (met_lookup roleObjects ResultMiss) w1) of
           (Some e, w2) \<Rightarrow> (Inl e, w2)
         | (None, w2) \<Rightarrow>
           (case svc_Lookup s roleObjects ident inner w2 of
              (Inl e, w3) \<Rightarrow> (Inl (Wrap ''opening downloaded object'' e), w3)
            | (Inr f, w3) \<Rightarrow> (Inr f, w3))))"

definition Fetch :: "service \<Rightarrow> request \<Rightarrow> world \<Rightarrow> opened result \<times> world" where
  "Fetch s req w = object s req w"

section \<open>Cabinets (synth.go)\<close>

text \<open>The roles are tried in order; the first hit is returned with its role.\<close>

fun lookup_roles :: "service \<Rightarrow> string list \<Rightarrow> string \<Rightarrow> string \<Rightarrow> world
    \<Rightarrow> ((osfile \<times> fileinfo) \<times> string) option result \<times> world" where
  "lookup_roles s [] ident inner w = (Inr None, w)"
| "lookup_roles s (role # roles) ident inner w =
     (case svc_Lookup s role ident inner w of
        (Inl e, w1) \<Rightarrow> (Inl (Wrap ''looking up cache'' e), w1)
      | (Inr (Some f), w1) \<Rightarrow> (Inr (Some (f, role)), w1)
      | (Inr None, w1) \<Rightarrow> lookup_roles s roles ident inner w1)"

definition lookupCompressed :: "service \<Rightarrow> string \<Rightarrow> string \<Rightarrow> world
    \<Rightarrow> ((osfile \<times> fileinfo) \<times> string) option result \<times> world" where
  "lookupCompressed s = lookup_roles s [roleRawCompressed, roleCabSynth]"

definition startsWithCabMagic :: "reader \<Rightarrow> bool result \<times> reader" where
  "startsWithCabMagic r =
     (case io_ReadFull r (length cabMagic) of
        (magic, RfEOF, r') \<Rightarrow> (Inr False, r')
      | (magic, RfUnexpectedEOF, r') \<Rightarrow> (Inr False, r')
      | (magic, RfOther, r') \<Rightarrow> (Inl (Wrap ''reading object magic'' (EnvError ''read'')), r')
      | (magic, RfNil, r') \<Rightarrow> (Inr (string_of_bytes magic = cabMagic), r'))"

text \<open>The choice of \<open>synthesize\<close>: copy a cabinet, wrap anything else.\<close>

definition synth_fill :: "service \<Rightarrow> request \<Rightarrow> bool \<Rightarrow> fileinfo \<Rightarrow> osfile \<Rightarrow> reader \<Rightarrow> world
    \<Rightarrow> string result \<times> osfile \<times> world" where
  "synth_fill s req isCab info tmp input w =
     (if isCab
      then (case on_file tmp (\<lambda>out. io_Copy out input) w of
              ((_, Some e), tmp1, w5) \<Rightarrow> (Inl (Wrap ''mirroring upstream cabinet'' e), tmp1, w5)
            | ((_, None), tmp1, w5) \<Rightarrow> (Inr roleRawCompressed, tmp1, w5))
      else (case on_file tmp (\<lambda>out. cab_Write (svc_flate s) out (Filename req) (fi_Size info) input) w of
              (Some e, tmp1, w5) \<Rightarrow> (Inl (Wrap ''synthesizing cabinet'' e), tmp1, w5)
            | (None, tmp1, w5) \<Rightarrow> (Inr roleCabSynth, tmp1, on_met (met_synth (fi_Size info)) w5)))"

text \<open>
  \<open>synthesize\<close> with the object open and the staging file made: the object is read from its
  start, the staging file filled and committed.
\<close>

definition synth_staged :: "service \<Rightarrow> request \<Rightarrow> bool \<Rightarrow> fileinfo \<Rightarrow> osfile \<Rightarrow> osfile \<Rightarrow> world \<Rightarrow> goerr option \<times> world" where
  "synth_staged s req isCab info obj tmp w =
     (case on_fs (\<lambda>fs. reader_of fs obj) w of (input, w4) \<Rightarrow>
      case synth_fill s req isCab info tmp input w4 of
        (Inl e, tmp1, w5) \<Rightarrow> (Some e, discard tmp1 w5)
      | (Inr role, tmp1, w5) \<Rightarrow>
        (case cacheKey req of (ident, inner) \<Rightarrow>
         case Commit (svc_sha s) (svc_cache s) tmp1 role ident inner w5 of
           (Some e, w6) \<Rightarrow> (Some (Wrap ''committing cabinet to cache'' e), discard tmp1 w6)
         | (None, w6) \<Rightarrow> (None, w6)))"

text \<open>\<open>synthesize\<close> once the object is open: the magic, the seek back to its start, the staging file.\<close>

definition synthesize_from :: "service \<Rightarrow> request \<Rightarrow> osfile \<Rightarrow> fileinfo \<Rightarrow> world \<Rightarrow> goerr option \<times> world" where
  "synthesize_from s req obj info w =
     (case on_fs (\<lambda>fs. reader_of fs obj) w of (head, w1) \<Rightarrow>
      case fst (startsWithCabMagic head) of
        Inl e \<Rightarrow> (Some e, w1)
      | Inr isCab \<Rightarrow>
      (case f_SeekStart (w_fs w1) obj of
        (Inl e, _, fs2) \<Rightarrow> (Some (Wrap ''rewinding object'' e), w1\<lparr>w_fs := fs2\<rparr>)
      | (Inr _, obj1, fs2) \<Rightarrow>
      (case on_fs (NewTemp (svc_cache s)) (w1\<lparr>w_fs := fs2\<rparr>) of
        (Inl e, w3) \<Rightarrow> (Some (Wrap ''creating staging file'' e), w3)
      | (Inr tmp, w3) \<Rightarrow> synth_staged s req isCab info obj1 tmp w3)))"

text \<open>A nil object (its entry is gone again) fails the read of the magic.\<close>

definition synthesize :: "service \<Rightarrow> request \<Rightarrow> world \<Rightarrow> goerr option \<times> world" where
  "synthesize s req w =
     (case object s req w of
        (Inl e, w1) \<Rightarrow> (Some e, w1)
      | (Inr None, w1) \<Rightarrow> (Some (Wrap ''reading object magic'' (EnvError ''invalid argument'')), w1)
      | (Inr (Some (obj, info)), w1) \<Rightarrow>
          (case synthesize_from s req obj info w1 of
             (r, w2) \<Rightarrow> (r, snd (on_fs (\<lambda>fs. f_Close fs obj) w2))))"

definition FetchCompressed :: "service \<Rightarrow> request \<Rightarrow> world \<Rightarrow> opened result \<times> world" where
  "FetchCompressed s req w =
     (case cacheKey req of (ident, inner) \<Rightarrow>
      case lookupCompressed s ident inner w of
        (Inl e, w1) \<Rightarrow> (Inl e, w1)
      | (Inr (Some (f, role)), w1) \<Rightarrow> (Inr (Some f), on_met (met_lookup role ResultHit) w1)
      | (Inr None, w1) \<Rightarrow>
        (case produceOnce s (flightKey roleCabSynth ident inner) (synthesize s req)
            (on_met (met_lookup labelCompressed ResultMiss) w1) of
           (Some e, w2) \<Rightarrow> (Inl e, w2)
         | (None, w2) \<Rightarrow>
           (case lookupCompressed s ident inner w2 of
              (Inl e, w3) \<Rightarrow> (Inl e, w3)
            | (Inr q, w3) \<Rightarrow> (Inr (map_option fst q), w3))))"

section \<open>Reading the definitions\<close>

lemma role_ok_names [simp]: "role_ok roleObjects" "role_ok roleRawCompressed" "role_ok roleCabSynth"
  by (simp_all add: role_ok_def seg_ok_def tmpSubdir_def roleObjects_def roleRawCompressed_def roleCabSynth_def)

lemma roles_distinct [simp]: "roleObjects \<noteq> roleRawCompressed" "roleObjects \<noteq> roleCabSynth"
    "roleRawCompressed \<noteq> roleCabSynth" "roleRawCompressed \<noteq> roleObjects" "roleCabSynth \<noteq> roleObjects"
    "roleCabSynth \<noteq> roleRawCompressed"
  by (simp_all add: roleObjects_def roleRawCompressed_def roleCabSynth_def)

abbreviation svc_ready :: "service \<Rightarrow> world \<Rightarrow> bool" where
  "svc_ready s \<equiv> ready (svc_sha s) (svc_cache s)"

abbreviation svc_quiet :: "service \<Rightarrow> world \<Rightarrow> world \<Rightarrow> bool" where
  "svc_quiet s \<equiv> quiet (svc_sha s) (svc_cache s)"

abbreviation svc_steps :: "service \<Rightarrow> world \<Rightarrow> world \<Rightarrow> bool" where
  "svc_steps s \<equiv> (cache_step (svc_sha s) (svc_cache s))\<^sup>*\<^sup>*"

abbreviation svc_entries :: "service \<Rightarrow> world \<Rightarrow> path \<Rightarrow> bytes option" where
  "svc_entries s \<equiv> cache_entry (svc_cache s)"

text \<open>The place of a request's entry under a role.\<close>

definition req_entry :: "service \<Rightarrow> string \<Rightarrow> request \<Rightarrow> path" where
  "req_entry s role req = entry_path (svc_sha s) (svc_cache s) role (fst (cacheKey req)) (snd (cacheKey req))"

text \<open>No other caller is working on the same keys; other callers only do what the cache allows.\<close>

definition solo :: "service \<Rightarrow> bool" where
  "solo s \<longleftrightarrow> (\<forall>k w. svc_join s k w = None)"

definition joins_ok :: "service \<Rightarrow> bool" where
  "joins_ok s \<longleftrightarrow> (\<forall>k w r w'. svc_join s k w = Some (r, w') \<longrightarrow> svc_steps s w w')"

lemma solo_joins_ok: "solo s \<Longrightarrow> joins_ok s"
  by (simp add: solo_def joins_ok_def)

lemma req_entry_in_cache: "in_cache (svc_cache s) (req_entry s role req)"
  by (auto simp: req_entry_def entry_path_def Let_def tmp_path_def butlast_append)

lemma req_entry_role: "req_entry s role req = req_entry s role' req' \<Longrightarrow> role = role'"
  by (simp add: req_entry_def entry_path_eq_iff)

lemma svc_Lookup_quiet:
  assumes "svc_Lookup s role (fst (cacheKey req)) (snd (cacheKey req)) w = (r, w')" and "svc_ready s w" and "role_ok role"
  shows "svc_quiet s w w'" and "file_at (w_fs w') = file_at (w_fs w)"
    and "r = Inr (Some (f, fi)) \<Longrightarrow> file_at (w_fs w') (req_entry s role req) = Some (f_ino f) \<and> f_pos f = 0
      \<and> fi_Size fi = int (length (ino_data (fs_inodes (w_fs w') (f_ino f))))
      \<and> svc_entries s w (req_entry s role req) = Some (handle_bytes w' (f, fi))"
    and "r = Inr None \<Longrightarrow> svc_entries s w (req_entry s role req) = None"
    and "fault_free (w_fs w) \<Longrightarrow> is_ok r"
proof -
  note l = Lookup_quiet [OF assms(1) [unfolded svc_Lookup_def] assms(2,3)]
  note e = req_entry_in_cache [of s role req]
  show "svc_quiet s w w'" "file_at (w_fs w') = file_at (w_fs w)" "fault_free (w_fs w) \<Longrightarrow> is_ok r" using l by simp_all
  show "r = Inr None \<Longrightarrow> svc_entries s w (req_entry s role req) = None"
    using l(4) by (simp add: cache_entry_def content_at_file req_entry_def)
  assume r: "r = Inr (Some (f, fi))"
  from l(3) [OF this] have f: "file_at (w_fs w) (req_entry s role req) = Some (f_ino f)" "f_pos f = 0"
    "fi_Size fi = int (length (ino_data (fs_inodes (w_fs w) (f_ino f))))" by (simp_all add: req_entry_def)
  with quietD(2) [OF l(1) e f(1)] l(2) e
  show "file_at (w_fs w') (req_entry s role req) = Some (f_ino f) \<and> f_pos f = 0
      \<and> fi_Size fi = int (length (ino_data (fs_inodes (w_fs w') (f_ino f))))
      \<and> svc_entries s w (req_entry s role req) = Some (handle_bytes w' (f, fi))"
    by (simp add: cache_entry_def content_at_file handle_bytes_def del: file_at_Some)
qed

section \<open>What callers see\<close>

text \<open>The entry of a request now holds the object its location names.\<close>

definition obtained :: "(string \<Rightarrow> string \<Rightarrow> bytes option) \<Rightarrow> service \<Rightarrow> request \<Rightarrow> world \<Rightarrow> world \<Rightarrow> bool" where
  "obtained stored s req w w' \<longleftrightarrow> (\<exists>loc d i. svc_resolver s req = Inr loc \<and> stored (Bucket loc) (Key loc) = Some d
     \<and> svc_entries s w' = (svc_entries s w)(req_entry s roleObjects req := Some d)
     \<and> file_at (w_fs w') = (file_at (w_fs w))(req_entry s roleObjects req := Some i))"

text \<open>When a download must succeed: the object is located and stored, and a staging name is free.\<close>

definition obtainable :: "(string \<Rightarrow> string \<Rightarrow> bytes option) \<Rightarrow> service \<Rightarrow> request \<Rightarrow> world \<Rightarrow> bool" where
  "obtainable stored s req w \<longleftrightarrow> fresh_names (svc_cache s) (w_fs w)
     \<and> (\<exists>loc. svc_resolver s req = Inr loc \<and> stored (Bucket loc) (Key loc) \<noteq> None)"

definition available :: "(string \<Rightarrow> string \<Rightarrow> bytes option) \<Rightarrow> service \<Rightarrow> request \<Rightarrow> world \<Rightarrow> bool" where
  "available stored s req w \<longleftrightarrow> svc_entries s w (req_entry s roleObjects req) \<noteq> None
     \<or> obtainable stored s req w"

text \<open>The handle the object accessor returns.\<close>

definition opens_entry :: "service \<Rightarrow> string \<Rightarrow> request \<Rightarrow> world \<Rightarrow> osfile \<times> fileinfo \<Rightarrow> bool" where
  "opens_entry s role req w f \<longleftrightarrow> file_at (w_fs w) (req_entry s role req) = Some (f_ino (fst f)) \<and> f_pos (fst f) = 0
     \<and> fi_Size (snd f) = int (length (handle_bytes w f))
     \<and> svc_entries s w (req_entry s role req) = Some (handle_bytes w f)"

lemma opens_entry_Lookup:
  assumes "svc_Lookup s role (fst (cacheKey req)) (snd (cacheKey req)) w = (Inr (Some f), w')" and "svc_ready s w" and "role_ok role"
  shows "opens_entry s role req w' f"
proof (cases f)
  case (Pair h fi)
  from svc_Lookup_quiet(3) [OF assms, of h fi] Pair quiet_entry [OF svc_Lookup_quiet(1) [OF assms]] show ?thesis
    by (simp add: opens_entry_def handle_bytes_def)
qed

lemma opens_entry_met [simp]: "opens_entry s role req (on_met g w) f = opens_entry s role req w f"
  by (simp add: opens_entry_def handle_bytes_def cache_entry_def)

lemma produceOnce_steps:
  assumes "produceOnce s key produce w = (r, w')" and "joins_ok s"
    and "\<And>x u. produce w = (x, u) \<Longrightarrow> svc_steps s w u"
  shows "svc_steps s w w'"
proof (cases "svc_join s key w")
  case None
  with assms(1,3) show ?thesis by (auto simp: produceOnce_def split: prod.splits option.splits)
next
  case (Some j)
  then obtain x u where j: "svc_join s key w = Some (x, u)" by (cases j) simp
  then have "svc_steps s w u" using assms(2) by (auto simp: joins_ok_def)
  moreover have "svc_steps s u w'"
    using assms(1) j quiet_steps [OF quiet_met, of met_coalesced u] by (auto simp: produceOnce_def split: option.splits)
  ultimately show ?thesis by (rule rtranclp_trans)
qed

lemma produceOnce_solo:
  "produceOnce s key produce w = (r, w') \<Longrightarrow> solo s \<Longrightarrow> \<exists>x. produce w = (x, w') \<and> (r = None \<longleftrightarrow> x = None)"
  by (auto simp: produceOnce_def solo_def split: prod.splits option.splits)

section \<open>Downloads\<close>

context fetcher
begin

lemma fetch_in_use:
  assumes "on_file f (fetch b k) w = ((n, x), f', w')" and "in_use sha c w1 w f"
    and "f_pos f = 0" and "ino_data (fs_inodes (w_fs w) (f_ino f)) = []"
  shows "in_use sha c w1 w' f'"
    and "x = None \<Longrightarrow> stored b k = Some (ino_data (fs_inodes (w_fs w') (f_ino f')))
      \<and> n = int (length (ino_data (fs_inodes (w_fs w') (f_ino f'))))"
    and "fault_free (w_fs w1) \<Longrightarrow> stored b k \<noteq> None \<Longrightarrow> x = None"
proof -
  let ?v = "wfile_of (w_fs w) f"
  note o = in_use_write [OF assms(1,2) fetch_env]
  show "in_use sha c w1 w' f'" by (rule o(1))
  have nx: "fetch b k ?v = ((n, x), snd (fetch b k ?v))" using o(3) by (simp add: prod_eq_iff)
  have v: "wf_buf ?v = []" "wf_pos ?v = 0" using assms(3,4) by (simp_all add: wfile_of_def)
  show "stored b k = Some (ino_data (fs_inodes (w_fs w') (f_ino f')))
      \<and> n = int (length (ino_data (fs_inodes (w_fs w') (f_ino f'))))" if "x = None"
    using fetch_into_empty [OF nx [unfolded that] v] o(4) by simp
  show "x = None" if "fault_free (w_fs w1)" "stored b k \<noteq> None"
  proof -
    have "fault_free (w_fs w)" using in_use_ready [OF assms(2)] that(1) by blast
    then have "wf_fault ?v i = None" for i by (simp add: wfile_of_def fault_free_def)
    from fetch_succeeds [OF _ this] that(2) nx show ?thesis by (metis fst_conv not_None_eq snd_conv)
  qed
qed

text \<open>
  A download either ends with the stored object as the entry, or with an error and every
  entry as before; without faults a failed one leaves no file behind.
\<close>

lemma download_located:
  assumes "download s req w = (r, w')" and "svc_ready s w" and "svc_fetcher s = fetch" and loc: "svc_resolver s req = Inr loc"
  shows "produced (svc_sha s) (svc_cache s) (req_entry s roleObjects req) (\<lambda>d. stored (Bucket loc) (Key loc) = Some d)
    (fresh_names (svc_cache s) (w_fs w) \<and> stored (Bucket loc) (Key loc) \<noteq> None) w r w'"
    (is "produced ?sha ?c ?e ?made ?smooth w r w'")
proof -
  let ?w1 = "on_met met_resolver_seconds (on_met (met_resolver ResultOK) w)"
  have q1: "svc_quiet s w ?w1" by (rule quiet_trans [OF quiet_met quiet_met]) simp_all
  note ready1 = quiet_ready(1) [OF assms(2) q1]
  obtain rt w2 where nt: "on_fs (NewTemp ?c) ?w1 = (rt, w2)" by fastforce
  have "produced ?sha ?c ?e ?made ?smooth ?w1 r w'"
  proof (cases rt)
    case (Inl e)
    with assms(1) nt loc have "r \<noteq> None" "w' = w2" by (auto simp: download_def Let_def)
    then show ?thesis using produced_no_temp [OF nt [unfolded Inl] ready1] by simp
  next
    case (Inr tmp)
    note u = in_use_new [OF nt [unfolded Inr] ready1]
    obtain n x tmp1 w3 where fw: "on_file tmp (fetch (Bucket loc) (Key loc)) w2 = ((n, x), tmp1, w3)"
      by (metis prod.exhaust)
    note f = fetch_in_use [OF fw u]
    show ?thesis
    proof (cases x)
      case (Some e)
      have u3: "in_use ?sha ?c ?w1 (on_met met_storage_error w3) tmp1"
        by (rule in_use_quiet [OF f(1) quiet_met]) simp_all
      have no: "\<not> ?smooth" if "fault_free (w_fs ?w1)" using f(3) [OF that] Some by (metis option.distinct(1))
      have "r \<noteq> None \<and> (w' = discard tmp1 w3 \<or> w' = discard tmp1 (on_met met_storage_error w3))"
        using assms(1) loc nt Inr fw Some by (auto simp: download_def Let_def assms(3) split: if_splits)
      then show ?thesis using produced_discard [OF f(1) no] produced_discard [OF u3 no] by blast
    next
      case None
      let ?w4 = "on_met (met_fetched n) w3"
      obtain rc w5 where cm: "Commit ?sha ?c tmp1 roleObjects (fst (cacheKey req)) (snd (cacheKey req)) ?w4 = (rc, w5)"
        by fastforce
      have "in_use ?sha ?c ?w1 ?w4 tmp1" by (rule in_use_quiet [OF f(1) quiet_met]) simp_all
      from produced_commit [OF this cm role_ok_names(1), of ?made r w' ?smooth] f(2) [OF None] show ?thesis
        using assms(1) loc nt Inr fw None cm
        by (auto simp: download_def Let_def assms(3) case_prod_unfold req_entry_def split: option.splits)
    qed
  qed
  from produced_after [OF q1 _ assms(2) this] show ?thesis by simp
qed

lemma download_effect:
  assumes "download s req w = (r, w')" and "svc_ready s w" and "svc_fetcher s = fetch"
  shows "produced (svc_sha s) (svc_cache s) (req_entry s roleObjects req)
    (\<lambda>d. \<exists>loc. svc_resolver s req = Inr loc \<and> stored (Bucket loc) (Key loc) = Some d) (obtainable stored s req w) w r w'"
proof (cases "svc_resolver s req")
  case (Inl e)
  then have "r \<noteq> None \<and> (w' = on_met (met_resolver ResultNotFound) w \<or> w' = on_met (met_resolver ResultError) w)"
    using assms(1) by (auto simp: download_def split: if_splits)
  with Inl show ?thesis by (auto intro!: produced_error quiet_met simp: obtainable_def)
next
  case (Inr loc)
  from download_located [OF assms Inr] Inr show ?thesis by (simp add: produced_def obtainable_def)
qed

subsection \<open>The accessor\<close>

lemma object_cases:
  assumes "object s req w = (r, w')" and "svc_ready s w"
  obtains (err) x where "r = Inl x" "svc_quiet s w w'" "file_at (w_fs w') = file_at (w_fs w)" "\<not> fault_free (w_fs w)"
    | (hit) f where "r = Inr (Some f)" "svc_quiet s w w'" "file_at (w_fs w') = file_at (w_fs w)"
        "opens_entry s roleObjects req w' f" "svc_entries s w (req_entry s roleObjects req) \<noteq> None"
    | (miss) v p w2 where "svc_entries s w (req_entry s roleObjects req) = None" "svc_quiet s w v"
        "file_at (w_fs v) = file_at (w_fs w)"
        "produceOnce s (flightKey roleObjects (fst (cacheKey req)) (snd (cacheKey req))) (download s req) v = (p, w2)"
        "p \<noteq> None \<Longrightarrow> \<not> is_ok r \<and> w' = w2"
        "p = None \<Longrightarrow> \<exists>r2. svc_Lookup s roleObjects (fst (cacheKey req)) (snd (cacheKey req)) w2 = (r2, w')
           \<and> (\<forall>f. r = Inr f \<longleftrightarrow> r2 = Inr f)"
proof -
  obtain ident inner where k: "cacheKey req = (ident, inner)" by fastforce
  obtain r1 w1 where l1: "svc_Lookup s roleObjects ident inner w = (r1, w1)" by fastforce
  have L1: "svc_Lookup s roleObjects (fst (cacheKey req)) (snd (cacheKey req)) w = (r1, w1)" using l1 k by simp
  note a = svc_Lookup_quiet [OF L1 assms(2) role_ok_names(1)]
  note run = assms(1) [unfolded object_def k, simplified, unfolded l1]
  consider e where "r1 = Inl e" | g where "r1 = Inr (Some g)" | "r1 = Inr None" by (metis option.exhaust sum.exhaust)
  then show thesis
  proof cases
    case 1
    with run a(1,2,5) show thesis by (intro err) auto
  next
    case 2
    with run have w': "w' = on_met (met_lookup roleObjects ResultHit) w1" and r: "r = Inr (Some g)" by simp_all
    have q: "svc_quiet s w w'" unfolding w' by (rule quiet_trans [OF a(1) quiet_met]) simp
    have "opens_entry s roleObjects req w' g"
      using opens_entry_Lookup [OF L1 [unfolded 2] assms(2) role_ok_names(1)] by (simp add: w')
    moreover have "svc_entries s w (req_entry s roleObjects req) \<noteq> None" using a(3) [of "fst g" "snd g"] 2 by simp
    ultimately show thesis using hit [OF r q] a(2) by (simp add: w')
  next
    case 3
    let ?v = "on_met (met_lookup roleObjects ResultMiss) w1"
    obtain p w2 where po: "produceOnce s (flightKey roleObjects ident inner) (download s req) ?v = (p, w2)" by fastforce
    have q: "svc_quiet s w ?v" by (rule quiet_trans [OF a(1) quiet_met]) simp
    show thesis
    proof (rule miss [OF a(4) [OF 3] q])
      show "file_at (w_fs ?v) = file_at (w_fs w)" using a(2) by simp
      show "produceOnce s (flightKey roleObjects (fst (cacheKey req)) (snd (cacheKey req))) (download s req) ?v = (p, w2)"
        using po by (simp add: k)
      show "\<not> is_ok r \<and> w' = w2" if "p \<noteq> None" using that run by (auto simp: 3 po)
      obtain r2 w3 where l2: "svc_Lookup s roleObjects ident inner w2 = (r2, w3)" by fastforce
      show "\<exists>r2. svc_Lookup s roleObjects (fst (cacheKey req)) (snd (cacheKey req)) w2 = (r2, w')
           \<and> (\<forall>f. r = Inr f \<longleftrightarrow> r2 = Inr f)" if "p = None"
        using that run by (cases r2) (auto simp: 3 po k l2)
    qed
  qed
qed

lemma object_steps:
  assumes "object s req w = (r, w')" and "svc_ready s w" and "svc_fetcher s = fetch" and "joins_ok s"
  shows "svc_steps s w w'" and "r = Inr (Some f) \<Longrightarrow> opens_entry s roleObjects req w' f"
proof -
  from assms(1,2) have "svc_steps s w w' \<and> (r = Inr (Some f) \<longrightarrow> opens_entry s roleObjects req w' f)"
  proof (cases rule: object_cases)
    case (miss v p w2)
    have "svc_steps s v w2"
      using produceOnce_steps [OF miss(4) assms(4)] produced_steps [OF download_effect [OF _ quiet_ready(1) [OF assms(2) miss(2)] assms(3)]]
      by blast
    with quiet_steps [OF miss(2)] have st: "svc_steps s w w2" by (rule rtranclp_trans)
    note rd = ready_steps(1) [OF assms(2) st]
    show ?thesis
    proof (cases p)
      case (Some e)
      with miss(5) st show ?thesis by auto
    next
      case None
      from miss(6) [OF this] obtain r2 where l: "svc_Lookup s roleObjects (fst (cacheKey req)) (snd (cacheKey req)) w2 = (r2, w')"
        "\<forall>f. r = Inr f \<longleftrightarrow> r2 = Inr f" by blast
      from rtranclp_trans [OF st quiet_steps [OF svc_Lookup_quiet(1) [OF l(1) rd role_ok_names(1)]]]
        opens_entry_Lookup [OF _ rd role_ok_names(1), of req f w'] l show ?thesis by simp
    qed
  qed (auto dest: quiet_steps)
  then show "svc_steps s w w'" and "r = Inr (Some f) \<Longrightarrow> opens_entry s roleObjects req w' f" by blast+
qed

text \<open>Alone, the accessor opens the entry that was there or the stored object it has just committed.\<close>

lemma object_miss:
  assumes "svc_quiet s w v" and "file_at (w_fs v) = file_at (w_fs w)" and "svc_ready s w" and "svc_fetcher s = fetch"
    and "download s req v = (x, w2)"
  shows "produced (svc_sha s) (svc_cache s) (req_entry s roleObjects req)
    (\<lambda>d. \<exists>loc. svc_resolver s req = Inr loc \<and> stored (Bucket loc) (Key loc) = Some d) (obtainable stored s req w) w x w2"
proof -
  note rv = quiet_ready [OF assms(3,1)]
  have "obtainable stored s req v = obtainable stored s req w"
    using fresh_names_mono [of "svc_cache s" "w_fs w" "w_fs v"] fresh_names_cong [OF rv(2) assms(2)] by (simp add: obtainable_def)
  with produced_after [OF assms(1,2,3) download_effect [OF assms(5) rv(1) assms(4)]] show ?thesis by simp
qed

lemma object_solo:
  assumes "object s req w = (r, w')" and "svc_ready s w" and "svc_fetcher s = fetch" and "solo s"
  defines "e \<equiv> req_entry s roleObjects req"
  shows "svc_entries s w e \<noteq> None \<Longrightarrow> svc_quiet s w w' \<and> file_at (w_fs w') = file_at (w_fs w)"
    and "svc_entries s w e = None \<Longrightarrow> r = Inr q \<Longrightarrow> obtained stored s req w w'"
    and "svc_entries s w e = None \<Longrightarrow> r = Inl x \<Longrightarrow> svc_quiet s w w' \<or> obtained stored s req w w'"
    and "r \<noteq> Inr None"
    and "fault_free (w_fs w) \<Longrightarrow> r = Inl x \<Longrightarrow> svc_quiet s w w' \<and> file_at (w_fs w') = file_at (w_fs w)"
    and "fault_free (w_fs w) \<Longrightarrow> available stored s req w \<Longrightarrow> is_ok r"
proof -
  let ?q = "svc_quiet s" and ?ff = "fault_free (w_fs w)"
  define same where "same \<longleftrightarrow> ?q w w' \<and> file_at (w_fs w') = file_at (w_fs w)"
  from assms(1,2) have "(same \<and> r \<noteq> Inr None \<and> (?ff \<longrightarrow> is_ok r) \<and> (is_ok r \<longrightarrow> svc_entries s w e \<noteq> None))
    \<or> (svc_entries s w e = None \<and> \<not> is_ok r \<and> ?q w w' \<and> (?ff \<longrightarrow> same \<and> \<not> available stored s req w))
    \<or> (svc_entries s w e = None \<and> obtained stored s req w w' \<and> r \<noteq> Inr None \<and> (?ff \<longrightarrow> is_ok r))"
  proof (cases rule: object_cases)
    case (miss v p w2)
    from produceOnce_solo [OF miss(4) assms(4)] obtain x where dl: "download s req v = (x, w2)" and px: "p = None \<longleftrightarrow> x = None"
      by blast
    note D = object_miss [OF miss(2,3) assms(2,3) dl, folded e_def]
    show ?thesis
    proof (cases x)
      case (Some y)
      with D px miss(1,5) show ?thesis by (auto simp: produced_def same_def available_def e_def)
    next
      case None
      with px miss(6) obtain r2 where l: "svc_Lookup s roleObjects (fst (cacheKey req)) (snd (cacheKey req)) w2 = (r2, w')"
        and r: "\<And>f. r = Inr f \<longleftrightarrow> r2 = Inr f" by blast
      note rd = ready_steps [OF assms(2) produced_steps [OF D]]
      note a = svc_Lookup_quiet [OF l rd(1) role_ok_names(1), folded e_def]
      have ob: "obtained stored s req w w2" using D None by (auto simp: produced_def obtained_def e_def simp del: file_at_Some)
      then have "svc_entries s w2 e \<noteq> None" by (auto simp: obtained_def e_def)
      then have "r2 \<noteq> Inr None" using a(4) by blast
      moreover have "is_ok r = is_ok r2" using r by (cases r2; cases r) auto
      moreover have "obtained stored s req w w'" using ob a(2) quiet_entry [OF a(1)] by (simp add: obtained_def)
      ultimately show ?thesis using a(5) rd(3) r miss(1) by (auto simp: e_def)
    qed
  qed (simp_all add: same_def e_def)
  then show "svc_entries s w e \<noteq> None \<Longrightarrow> ?q w w' \<and> file_at (w_fs w') = file_at (w_fs w)"
    and "svc_entries s w e = None \<Longrightarrow> r = Inr q \<Longrightarrow> obtained stored s req w w'"
    and "svc_entries s w e = None \<Longrightarrow> r = Inl x \<Longrightarrow> ?q w w' \<or> obtained stored s req w w'"
    and "r \<noteq> Inr None"
    and "?ff \<Longrightarrow> r = Inl x \<Longrightarrow> ?q w w' \<and> file_at (w_fs w') = file_at (w_fs w)"
    and "?ff \<Longrightarrow> available stored s req w \<Longrightarrow> is_ok r"
    by (auto simp: same_def)
qed

end

end
