(* ===== verification/Synthesis.thy ===== *)
theory Synthesis
  imports Service
begin

text \<open>
  The compressed form: what \<open>synthesize\<close> and \<open>FetchCompressed\<close> of \<open>synth.go\<close> do to the cache.
  A cabinet in the object cache is mirrored byte for byte, any other object is wrapped.
\<close>

section \<open>The magic\<close>

definition is_cabinet :: "bytes \<Rightarrow> bool" where
  "is_cabinet d \<longleftrightarrow> take 4 d = bytes_of_string cabMagic"

lemma byte_of_char_of_byte [simp]: "byte_of_char (char_of_byte b) = b"
proof -
  have "unat b < 256" using unsigned_less [of b] by simp
  then have "unat b mod 256 = unat b" by simp
  then show ?thesis unfolding byte_of_char_def char_of_byte_def of_char_of by simp
qed

lemma bytes_of_string_of_bytes [simp]: "bytes_of_string (string_of_bytes bs) = bs"
  by (induction bs) (simp_all add: bytes_of_string_def string_of_bytes_def)

lemma string_of_bytes_eq_iff: "string_of_bytes bs = s \<longleftrightarrow> bs = bytes_of_string s"
  by (metis bytes_of_string_of_bytes string_of_bytes_of_string)

lemma length_cabMagic [simp]: "length cabMagic = 4"
  by (simp add: cabMagic_def)

lemma startsWithCabMagic_prefix:
  assumes "startsWithCabMagic r = (Inr b, r')" and "prefix (rd_rest r) d"
    and "rd_end r = AtEOF \<Longrightarrow> rd_rest r = d"
  shows "b \<longleftrightarrow> is_cabinet d"
proof (cases "4 \<le> length (rd_rest r)")
  case True
  from assms(2) obtain y where "d = rd_rest r @ y" by (auto simp: prefix_def)
  with True assms(1) show ?thesis
    by (simp add: startsWithCabMagic_def io_ReadFull_def Let_def is_cabinet_def string_of_bytes_eq_iff)
next
  case False
  then have short: "take 4 (rd_rest r) = rd_rest r" by simp
  from False assms(1) have "rd_end r = AtEOF" "\<not> b"
    by (auto simp: startsWithCabMagic_def io_ReadFull_def Let_def split: read_end.splits if_splits)
  moreover have "\<not> is_cabinet (rd_rest r)"
  proof
    assume "is_cabinet (rd_rest r)"
    then have "length (rd_rest r) = 4" by (simp add: is_cabinet_def short)
    with False show False by simp
  qed
  ultimately show ?thesis using assms(3) by simp
qed

lemma startsWithCabMagic_succeeds: "rd_end r = AtEOF \<Longrightarrow> \<exists>b. fst (startsWithCabMagic r) = Inr b"
  by (auto simp: startsWithCabMagic_def io_ReadFull_def Let_def)

section \<open>Reading the object\<close>

lemma reader_of_start:
  assumes "on_fs (\<lambda>fs. reader_of fs f) w = (r, w')" and "f_pos f = 0"
  shows "same_store (w_fs w) (w_fs w')" and "w' = w\<lparr>w_fs := w_fs w'\<rparr>"
    and "prefix (rd_rest r) (ino_data (fs_inodes (w_fs w) (f_ino f)))"
    and "rd_end r = AtEOF \<Longrightarrow> rd_rest r = ino_data (fs_inodes (w_fs w) (f_ino f))"
    and "fault_free (w_fs w) \<Longrightarrow> rd_end r = AtEOF"
proof -
  from assms(1) obtain fs' where r: "reader_of (w_fs w) f = (r, fs')" and w': "w' = w\<lparr>w_fs := fs'\<rparr>" by (rule on_fsE)
  show "same_store (w_fs w) (w_fs w')" using reader_of_store [OF r] by (simp add: w')
  show "w' = w\<lparr>w_fs := w_fs w'\<rparr>" by (simp add: w')
  show "prefix (rd_rest r) (ino_data (fs_inodes (w_fs w) (f_ino f)))"
    "rd_end r = AtEOF \<Longrightarrow> rd_rest r = ino_data (fs_inodes (w_fs w) (f_ino f))"
    "fault_free (w_fs w) \<Longrightarrow> rd_end r = AtEOF"
    using r assms(2) by (auto simp: reader_of_def Let_def fault_free_def take_is_prefix split: option.splits)
qed

section \<open>Filling the staging file\<close>

definition compressed_role :: "bytes \<Rightarrow> string" where
  "compressed_role d = (if is_cabinet d then roleRawCompressed else roleCabSynth)"

definition compressed_form :: "service \<Rightarrow> request \<Rightarrow> bytes \<Rightarrow> bytes" where
  "compressed_form s req d = (if is_cabinet d then d else cab_image (svc_flate s) (Filename req) d)"

lemma role_ok_compressed [simp]: "role_ok (compressed_role d)"
  by (simp add: compressed_role_def)

text \<open>What a wrap needs to succeed: a valid name, a size in range, and a compressor that works.\<close>

definition wrappable :: "service \<Rightarrow> request \<Rightarrow> bytes \<Rightarrow> bool" where
  "wrappable s req d \<longleftrightarrow> is_cabinet d \<or> (is_ok (encodeName (Filename req)) \<and> flate_total (svc_flate s)
     \<and> int (length d) \<le> maxFolderUncompessed)"

text \<open>What a wrap that succeeded has passed: the checks of the name, of the size and of each block.\<close>

definition cab_made :: "service \<Rightarrow> request \<Rightarrow> bytes \<Rightarrow> bool" where
  "cab_made s req d \<longleftrightarrow> is_cabinet d \<or> (is_ok (encodeName (Filename req)) \<and> length (cab_chunks d) \<le> maxBlocks
     \<and> list_all (\<lambda>c. is_ok (mszip_block (svc_flate s) c)) (cab_chunks d))"

text \<open>Filling as a writer of one file: the error or the role, and what it leaves in the file.\<close>

definition fill_body :: "service \<Rightarrow> request \<Rightarrow> bool \<Rightarrow> fileinfo \<Rightarrow> reader \<Rightarrow> wfile \<Rightarrow> string result \<times> wfile" where
  "fill_body s req isCab info input out =
     (if isCab
      then (case io_Copy out input of
              ((_, Some e), v) \<Rightarrow> (Inl (Wrap ''mirroring upstream cabinet'' e), v)
            | ((_, None), v) \<Rightarrow> (Inr roleRawCompressed, v))
      else (case cab_Write (svc_flate s) out (Filename req) (fi_Size info) input of
              (Some e, v) \<Rightarrow> (Inl (Wrap ''synthesizing cabinet'' e), v)
            | (None, v) \<Rightarrow> (Inr roleCabSynth, v)))"

lemma synth_fill_body:
  "synth_fill s req isCab info tmp input w =
     (case on_file tmp (fill_body s req isCab info input) w of
        (x, tmp1, w5) \<Rightarrow> (x, tmp1, if x = Inr roleCabSynth then on_met (met_synth (fi_Size info)) w5 else w5))"
  by (auto simp: synth_fill_def fill_body_def on_file_def with_writer_def split: prod.splits option.splits)

lemma fill_body_env: "keeps_env (fill_body s req isCab info input)"
  using io_Copy_env [of input] cab_Write_env [of "svc_flate s" "Filename req" "fi_Size info" input]
  by (auto simp: keeps_env_def fill_body_def split: prod.splits option.splits; metis snd_conv)

lemma fill_body_made:
  assumes "fill_body s req (is_cabinet d) info input v = (Inr role, v')" and "wf_buf v = []" and "wf_pos v = 0"
    and "rd_end input = AtEOF \<longrightarrow> rd_rest input = d"
  shows "role = compressed_role d" and "cab_made s req d" and "wf_buf v' = compressed_form s req d"
proof -
  have "role = compressed_role d \<and> cab_made s req d \<and> wf_buf v' = compressed_form s req d"
  proof (cases "is_cabinet d")
    case True
    with assms(1) obtain n where "io_Copy v input = ((n, None), v')" "role = roleRawCompressed"
      by (auto simp: fill_body_def split: prod.splits option.splits)
    with io_Copy_ok [of v input n v'] assms(2-4) True show ?thesis
      by (simp add: at_end_def compressed_role_def compressed_form_def cab_made_def)
  next
    case False
    with assms(1) have w: "cab_Write (svc_flate s) v (Filename req) (fi_Size info) input = (None, v')" "role = roleCabSynth"
      by (auto simp: fill_body_def split: prod.splits option.splits)
    from cab_Write_SuccessD [OF w(1) assms(2,3)] assms(4) w(2) False show ?thesis
      by (simp add: compressed_role_def compressed_form_def cab_made_def)
  qed
  then show "role = compressed_role d" "cab_made s req d" "wf_buf v' = compressed_form s req d" by simp_all
qed

lemma fill_body_succeeds:
  assumes "no_faults v" and "wf_buf v = []" and "wf_pos v = 0" and "rd_end input = AtEOF" and "rd_rest input = d"
    and "fi_Size info = int (length d)" and "wrappable s req d"
  shows "is_ok (fst (fill_body s req (is_cabinet d) info input v))"
proof (cases "is_cabinet d")
  case True
  with io_Copy_succeeds [of v input] assms(1,4) show ?thesis
    by (auto simp: fill_body_def no_faults_def split: prod.splits option.splits)
next
  case False
  with cab_Write_succeeds [OF assms(1) _ assms(2,3), of "svc_flate s" "Filename req" input "fi_Size info"] assms(4-7)
  show ?thesis by (auto simp: fill_body_def wrappable_def split: prod.splits option.splits)
qed

lemma synth_fill_effect:
  assumes "synth_fill s req (is_cabinet d) info tmp input w = (x, tmp1, w')"
    and "in_use (svc_sha s) (svc_cache s) w1 w tmp" and "f_pos tmp = 0"
    and "ino_data (fs_inodes (w_fs w) (f_ino tmp)) = []"
    and "rd_end input = AtEOF \<longrightarrow> rd_rest input = d" and "fi_Size info = int (length d)"
  shows "in_use (svc_sha s) (svc_cache s) w1 w' tmp1"
    and "x = Inr role \<Longrightarrow> role = compressed_role d \<and> cab_made s req d
      \<and> ino_data (fs_inodes (w_fs w') (f_ino tmp1)) = compressed_form s req d"
    and "fault_free (w_fs w1) \<Longrightarrow> rd_end input = AtEOF \<Longrightarrow> wrappable s req d \<Longrightarrow> is_ok x"
proof -
  let ?v = "wfile_of (w_fs w) tmp" and ?b = "fill_body s req (is_cabinet d) info input"
  have v: "wf_buf ?v = []" "wf_pos ?v = 0" using assms(3,4) by (simp_all add: wfile_of_def)
  obtain w5 where of: "on_file tmp ?b w = (x, tmp1, w5)"
    and w': "w' = (if x = Inr roleCabSynth then on_met (met_synth (fi_Size info)) w5 else w5)"
    using assms(1) by (auto simp: synth_fill_body split: prod.splits)
  note o = in_use_write [OF of assms(2) fill_body_env]
  show "in_use (svc_sha s) (svc_cache s) w1 w' tmp1"
    using o(1) in_use_quiet [OF o(1) quiet_met] by (simp add: w')
  have b: "?b ?v = (x, snd (?b ?v))" using o(3) by (simp add: prod_eq_iff)
  show "role = compressed_role d \<and> cab_made s req d
      \<and> ino_data (fs_inodes (w_fs w') (f_ino tmp1)) = compressed_form s req d" if "x = Inr role"
    using fill_body_made [OF b [unfolded that] v assms(5)] o(4) by (simp add: w')
  show "is_ok x" if "fault_free (w_fs w1)" "rd_end input = AtEOF" "wrappable s req d"
  proof -
    have "no_faults ?v" using in_use_ready [OF assms(2)] that(1) by (simp add: wfile_of_def no_faults_def fault_free_def)
    from fill_body_succeeds [OF this v that(2) _ assms(6) that(3)] assms(5) that(2) o(3) show ?thesis by simp
  qed
qed

section \<open>Producing the compressed form\<close>

text \<open>What \<open>synthesize\<close> promises for the object \<open>d\<close>: its compressed form under its role.\<close>

abbreviation form_produced :: "service \<Rightarrow> request \<Rightarrow> bytes \<Rightarrow> bool \<Rightarrow> world \<Rightarrow> goerr option \<Rightarrow> world \<Rightarrow> bool" where
  "form_produced s req d \<equiv> produced (svc_sha s) (svc_cache s) (req_entry s (compressed_role d) req)
     (\<lambda>b. cab_made s req d \<and> b = compressed_form s req d)"

lemma synth_staged_effect:
  assumes "synth_staged s req (is_cabinet d) info obj tmp w = (r, w')"
    and "in_use (svc_sha s) (svc_cache s) w0 w tmp" and "f_pos tmp = 0" and "ino_data (fs_inodes (w_fs w) (f_ino tmp)) = []"
    and "f_pos obj = 0" and "ino_data (fs_inodes (w_fs w) (f_ino obj)) = d" and "fi_Size info = int (length d)"
    and "smooth \<Longrightarrow> wrappable s req d"
  shows "form_produced s req d smooth w0 r w'"
proof -
  let ?c = "svc_cache s" and ?sha = "svc_sha s"
  obtain input w4 where rd: "on_fs (\<lambda>fs. reader_of fs obj) w = (input, w4)" by fastforce
  note R = reader_of_start [OF rd assms(5), unfolded assms(6)]
  have u4: "in_use ?sha ?c w0 w4 tmp"
    by (subst R(2), rule in_use_quiet [OF assms(2) quiet_read [OF R(1)]]) (simp add: same_storeD(1) [OF R(1)])
  have d4: "ino_data (fs_inodes (w_fs w4) (f_ino tmp)) = []" using assms(4) same_storeD(2) [OF R(1)] by simp
  obtain x tmp1 w5 where fl: "synth_fill s req (is_cabinet d) info tmp input w4 = (x, tmp1, w5)" by (metis prod.exhaust)
  note F = synth_fill_effect [OF fl u4 assms(3) d4 _ assms(7)]
  show ?thesis
  proof (cases x)
    case (Inl e)
    with assms(1) rd fl have r: "r \<noteq> None" "w' = discard tmp1 w5" by (auto simp: synth_staged_def)
    have "\<not> smooth" if "fault_free (w_fs w0)"
      using F(3) [OF _ that] R(4,5) in_use_ready [OF assms(2)] that assms(8) Inl by auto
    then show ?thesis unfolding r(2) using F(1) R(4) r(1) by (intro produced_discard) auto
  next
    case (Inr role)
    note role = F(2) [OF _ Inr]
    obtain rc w6 where cm: "Commit ?sha ?c tmp1 role (fst (cacheKey req)) (snd (cacheKey req)) w5 = (rc, w6)" by fastforce
    have rw: "case rc of None \<Rightarrow> r = None \<and> w' = w6 | Some e \<Rightarrow> r \<noteq> None \<and> w' = discard tmp1 w6"
      using assms(1) rd fl Inr cm by (auto simp: synth_staged_def case_prod_unfold split: option.splits)
    show ?thesis
      using produced_commit [OF F(1) cm _ _ rw, where made = "\<lambda>b. cab_made s req d \<and> b = compressed_form s req d"] role R(4)
      by (simp add: req_entry_def)
  qed
qed

text \<open>The front of \<open>synthesize\<close>: reading the magic and seeking back only fails if a call does.\<close>

lemma synthesize_from_cases:
  assumes "synthesize_from s req obj info w = (r, w')" and "f_pos obj = 0" and "ino_data (fs_inodes (w_fs w) (f_ino obj)) = d"
  obtains (failed) "r \<noteq> None" "same_store (w_fs w) (w_fs w')" "svc_quiet s w w'" "\<not> fault_free (w_fs w)"
    | (opened) obj1 w2 rt w3 where "same_store (w_fs w) (w_fs w2)" "svc_quiet s w w2" "f_pos obj1 = 0" "f_ino obj1 = f_ino obj"
        "on_fs (NewTemp (svc_cache s)) w2 = (rt, w3)"
        "(r, w') = (case rt of Inl e \<Rightarrow> (Some (Wrap ''creating staging file'' e), w3)
           | Inr tmp \<Rightarrow> synth_staged s req (is_cabinet d) info obj1 tmp w3)"
proof -
  obtain head w1 where h: "on_fs (\<lambda>fs. reader_of fs obj) w = (head, w1)" by fastforce
  note H = reader_of_start [OF h assms(2), unfolded assms(3)]
  have q1: "svc_quiet s w w1" by (subst H(2)) (rule quiet_read [OF H(1)])
  obtain sk obj1 fs2 where sk: "f_SeekStart (w_fs w1) obj = (sk, obj1, fs2)" by (metis prod.exhaust)
  let ?w2 = "w1\<lparr>w_fs := fs2\<rparr>"
  note S = conjunct1 [OF f_SeekStart_store [OF sk]]
  note st2 = same_store_trans [OF H(1) S]
  have q2: "svc_quiet s w ?w2" by (rule quiet_trans [OF q1 quiet_read [OF S]])
  obtain rt w3 where nt: "on_fs (NewTemp (svc_cache s)) ?w2 = (rt, w3)" by fastforce
  note run = assms(1) [unfolded synthesize_from_def h, simplified, unfolded sk, simplified]
  consider e where "fst (startsWithCabMagic head) = Inl e" | isCab e where "fst (startsWithCabMagic head) = Inr isCab" "sk = Inl e"
    | isCab u where "fst (startsWithCabMagic head) = Inr isCab" "sk = Inr u" by (metis sum.exhaust)
  then show thesis
  proof cases
    case 1
    then have "\<not> fault_free (w_fs w)" using startsWithCabMagic_succeeds [of head] H(5) by auto
    with run 1 q1 H(1) show thesis by (intro failed) auto
  next
    case 2
    have "\<not> fault_free (w_fs w)"
      using sk 2 same_storeD(7) [OF H(1)] by (auto simp: f_SeekStart_def fault_free_def same_env_def split: option.splits)
    with run 2 q2 st2 show thesis by (intro failed) auto
  next
    case 3
    have cab: "isCab \<longleftrightarrow> is_cabinet d"
      using startsWithCabMagic_prefix [of head isCab _ d] 3(1) H(3,4) by (metis prod.collapse)
    have "f_pos obj1 = 0" "f_ino obj1 = f_ino obj" using sk 3(2) by (auto simp: f_SeekStart_def split: option.splits)
    from opened [OF _ q2 this nt] st2 show thesis using run by (simp add: 3 nt cab)
  qed
qed

lemma synthesize_from_effect:
  assumes "synthesize_from s req obj info w = (r, w')" and "svc_ready s w" and "opens_entry s roleObjects req w (obj, info)"
    and "handle_bytes w (obj, info) = d"
  shows "form_produced s req d (fresh_names (svc_cache s) (w_fs w) \<and> wrappable s req d) w r w'"
proof -
  have obj: "file_at (w_fs w) (req_entry s roleObjects req) = Some (f_ino obj)" "f_pos obj = 0"
    "ino_data (fs_inodes (w_fs w) (f_ino obj)) = d" "fi_Size info = int (length d)"
    using assms(3,4) by (simp_all add: opens_entry_def handle_bytes_def del: file_at_Some)
  from assms(1) obj(2,3) show ?thesis
  proof (cases rule: synthesize_from_cases)
    case failed
    with same_store_entries(3) [OF failed(2)] show ?thesis by (intro produced_error) auto
  next
    case (opened obj1 w2 rt w3)
    note E = same_storeD(7) [OF opened(1)] same_store_entries(3) [OF opened(1)]
    note rd2 = quiet_ready [OF assms(2) opened(2)]
    let ?smooth = "fresh_names (svc_cache s) (w_fs w) \<and> wrappable s req d"
    have fr: "?smooth \<Longrightarrow> fresh_names (svc_cache s) (w_fs w2)" using fresh_names_cong [OF E] by simp
    have "form_produced s req d ?smooth w2 r w'"
    proof (cases rt)
      case (Inl e)
      with opened(6) produced_no_temp [OF opened(5) [unfolded Inl] rd2(1) fr] show ?thesis by simp
    next
      case (Inr tmp)
      note u = in_use_new [OF opened(5) [unfolded Inr] rd2(1)]
      have "svc_quiet s w w3" using quiet_trans [OF opened(2)] NewTemp_quiet(1) [OF opened(5) rd2(1)] .
      from quietD(2) [OF this req_entry_in_cache obj(1)] have "ino_data (fs_inodes (w_fs w3) (f_ino obj1)) = d"
        using obj(3) opened(4) by simp
      from synth_staged_effect [OF _ u opened(3) this obj(4)] opened(6) Inr show ?thesis by auto
    qed
    from produced_after [OF opened(2) E(2) assms(2) this] show ?thesis .
  qed
qed

section \<open>Lookups of the compressed form\<close>

lemma lookupCompressed_effect:
  assumes "lookupCompressed s (fst (cacheKey req)) (snd (cacheKey req)) w = (r, w')" and "svc_ready s w"
  shows "svc_quiet s w w'" and "file_at (w_fs w') = file_at (w_fs w)"
    and "r = Inr (Some (f, role)) \<Longrightarrow> opens_entry s role req w' f \<and> (role = roleRawCompressed
      \<or> (role = roleCabSynth \<and> svc_entries s w (req_entry s roleRawCompressed req) = None))"
    and "r = Inr None \<Longrightarrow> svc_entries s w (req_entry s roleRawCompressed req) = None
      \<and> svc_entries s w (req_entry s roleCabSynth req) = None"
    and "fault_free (w_fs w) \<Longrightarrow> is_ok r"
proof -
  obtain r1 w1 where l1: "svc_Lookup s roleRawCompressed (fst (cacheKey req)) (snd (cacheKey req)) w = (r1, w1)" by fastforce
  note a = svc_Lookup_quiet [OF l1 assms(2) role_ok_names(2)]
  note rd = quiet_ready [OF assms(2) a(1)]
  obtain r2 w2 where l2: "svc_Lookup s roleCabSynth (fst (cacheKey req)) (snd (cacheKey req)) w1 = (r2, w2)" by fastforce
  note b = svc_Lookup_quiet [OF l2 rd(1) role_ok_names(3)]
  have "svc_quiet s w w' \<and> file_at (w_fs w') = file_at (w_fs w)
    \<and> (\<forall>f role. r = Inr (Some (f, role)) \<longrightarrow> opens_entry s role req w' f \<and> (role = roleRawCompressed
      \<or> (role = roleCabSynth \<and> svc_entries s w (req_entry s roleRawCompressed req) = None)))
    \<and> (r = Inr None \<longrightarrow> svc_entries s w (req_entry s roleRawCompressed req) = None
      \<and> svc_entries s w (req_entry s roleCabSynth req) = None)
    \<and> (fault_free (w_fs w) \<longrightarrow> is_ok r)"
  proof (cases "r1 = Inr None")
    case False
    then consider e where "r1 = Inl e" | g where "r1 = Inr (Some g)" by (metis option.exhaust sum.exhaust)
    then show ?thesis
      using assms(1) l1 a opens_entry_Lookup [OF _ assms(2) role_ok_names(2)]
      by cases (auto simp: lookupCompressed_def)
  next
    case True
    note none = a(4) [OF this]
    consider e where "r2 = Inl e" | g where "r2 = Inr (Some g)" | "r2 = Inr None" by (metis option.exhaust sum.exhaust)
    then show ?thesis
      using assms(1) l1 l2 True none a(2) b quiet_trans [OF a(1) b(1)] quiet_entry [OF a(1)] rd(3)
        opens_entry_Lookup [OF _ rd(1) role_ok_names(3)]
      by cases (auto simp: lookupCompressed_def)
  qed
  then show "svc_quiet s w w'" "file_at (w_fs w') = file_at (w_fs w)"
    "r = Inr (Some (f, role)) \<Longrightarrow> opens_entry s role req w' f \<and> (role = roleRawCompressed
      \<or> (role = roleCabSynth \<and> svc_entries s w (req_entry s roleRawCompressed req) = None))"
    "r = Inr None \<Longrightarrow> svc_entries s w (req_entry s roleRawCompressed req) = None
      \<and> svc_entries s w (req_entry s roleCabSynth req) = None"
    "fault_free (w_fs w) \<Longrightarrow> is_ok r" by blast+
qed

section \<open>What a request is answered with\<close>

text \<open>The object of a request: what is cached, else what is stored where the resolver says.\<close>

definition source_bytes :: "(string \<Rightarrow> string \<Rightarrow> bytes option) \<Rightarrow> service \<Rightarrow> request \<Rightarrow> world \<Rightarrow> bytes option" where
  "source_bytes stored s req w =
     (case svc_entries s w (req_entry s roleObjects req) of
        Some d \<Rightarrow> Some d
      | None \<Rightarrow> (case svc_resolver s req of Inl _ \<Rightarrow> None | Inr loc \<Rightarrow> stored (Bucket loc) (Key loc)))"

text \<open>Its compressed form: a cached mirror, else a cached cabinet, else the form made of the object.\<close>

definition compressed_bytes :: "(string \<Rightarrow> string \<Rightarrow> bytes option) \<Rightarrow> service \<Rightarrow> request \<Rightarrow> world \<Rightarrow> bytes option" where
  "compressed_bytes stored s req w =
     (case svc_entries s w (req_entry s roleRawCompressed req) of
        Some d \<Rightarrow> Some d
      | None \<Rightarrow> (case svc_entries s w (req_entry s roleCabSynth req) of
          Some d \<Rightarrow> Some d
        | None \<Rightarrow> map_option (compressed_form s req) (source_bytes stored s req w)))"

text \<open>The cache has changed at most by the object's entry, and that holds the object.\<close>

definition grown :: "(string \<Rightarrow> string \<Rightarrow> bytes option) \<Rightarrow> service \<Rightarrow> request \<Rightarrow> world \<Rightarrow> world \<Rightarrow> bool" where
  "grown stored s req w w' \<longleftrightarrow> svc_entries s w' = svc_entries s w
     \<or> (\<exists>d. source_bytes stored s req w = Some d
          \<and> svc_entries s w' = (svc_entries s w)(req_entry s roleObjects req := Some d))"

lemma obtained_grown:
  assumes "obtained stored s req w w'" and "svc_entries s w (req_entry s roleObjects req) = None"
  obtains d where "source_bytes stored s req w = Some d"
    and "svc_entries s w' = (svc_entries s w)(req_entry s roleObjects req := Some d)"
  using assms by (auto simp: obtained_def source_bytes_def)

text \<open>Nothing compressed is cached yet.\<close>

definition fresh_form :: "service \<Rightarrow> request \<Rightarrow> world \<Rightarrow> bool" where
  "fresh_form s req w \<longleftrightarrow> svc_entries s w (req_entry s roleRawCompressed req) = None
     \<and> svc_entries s w (req_entry s roleCabSynth req) = None"

lemma FetchCompressed_cases:
  assumes "FetchCompressed s req w = (r, w')" and "svc_ready s w"
  obtains (err) x where "r = Inl x" "svc_quiet s w w'" "\<not> fault_free (w_fs w)"
    | (hit) f role where "r = Inr (Some f)" "role \<in> {roleRawCompressed, roleCabSynth}" "svc_quiet s w w'"
        "opens_entry s role req w' f" "\<not> fresh_form s req w" "\<And>stored. compressed_bytes stored s req w = Some (handle_bytes w' f)"
    | (miss) v p w2 where "fresh_form s req w" "svc_quiet s w v" "file_at (w_fs v) = file_at (w_fs w)"
        "produceOnce s (flightKey roleCabSynth (fst (cacheKey req)) (snd (cacheKey req))) (synthesize s req) v = (p, w2)"
        "p \<noteq> None \<Longrightarrow> \<not> is_ok r \<and> w' = w2"
        "p = None \<Longrightarrow> \<exists>r2. lookupCompressed s (fst (cacheKey req)) (snd (cacheKey req)) w2 = (r2, w')
           \<and> r = (case r2 of Inl e \<Rightarrow> Inl e | Inr q \<Rightarrow> Inr (map_option fst q))"
proof -
  obtain ident inner where k: "cacheKey req = (ident, inner)" by fastforce
  obtain r1 w1 where l1: "lookupCompressed s ident inner w = (r1, w1)" by fastforce
  have L1: "lookupCompressed s (fst (cacheKey req)) (snd (cacheKey req)) w = (r1, w1)" using l1 k by simp
  note a = lookupCompressed_effect [OF L1 assms(2)]
  note run = assms(1) [unfolded FetchCompressed_def k, simplified, unfolded l1]
  consider e where "r1 = Inl e" | g role where "r1 = Inr (Some (g, role))" | "r1 = Inr None"
    by (metis option.exhaust prod.exhaust sum.exhaust)
  then show thesis
  proof cases
    case 1
    with run a(1,5) show thesis by (intro err) auto
  next
    case 2
    with run have w': "w' = on_met (met_lookup role ResultHit) w1" and r: "r = Inr (Some g)" by simp_all
    note op = a(3) [OF 2]
    have q: "svc_quiet s w w'" unfolding w' by (rule quiet_trans [OF a(1) quiet_met]) simp
    have "\<not> fresh_form s req w \<and> compressed_bytes stored s req w = Some (handle_bytes w' g)" for stored
      using op quiet_entry [OF a(1)] by (auto simp: fresh_form_def compressed_bytes_def opens_entry_def w' handle_bytes_def)
    with hit [OF r _ q] op show thesis by (auto simp: w')
  next
    case 3
    let ?v = "on_met (met_lookup labelCompressed ResultMiss) w1"
    obtain p w2 where po: "produceOnce s (flightKey roleCabSynth ident inner) (synthesize s req) ?v = (p, w2)" by fastforce
    have q: "svc_quiet s w ?v" by (rule quiet_trans [OF a(1) quiet_met]) simp
    show thesis
    proof (rule miss [OF _ q])
      show "fresh_form s req w" using a(4) [OF 3] by (simp add: fresh_form_def)
      show "file_at (w_fs ?v) = file_at (w_fs w)" using a(2) by simp
      show "produceOnce s (flightKey roleCabSynth (fst (cacheKey req)) (snd (cacheKey req))) (synthesize s req) ?v = (p, w2)"
        using po by (simp add: k)
      show "\<not> is_ok r \<and> w' = w2" if "p \<noteq> None" using that run by (auto simp: 3 po)
      obtain r2 w3 where l2: "lookupCompressed s ident inner w2 = (r2, w3)" by fastforce
      show "\<exists>r2. lookupCompressed s (fst (cacheKey req)) (snd (cacheKey req)) w2 = (r2, w')
           \<and> r = (case r2 of Inl e \<Rightarrow> Inl e | Inr q \<Rightarrow> Inr (map_option fst q))" if "p = None"
        using that run by (cases r2) (auto simp: 3 po k l2)
    qed
  qed
qed

text \<open>After a synthesis the compressed form is what the re-open finds.\<close>

lemma compressed_reopened:
  assumes "svc_entries s w2 = (svc_entries s w)(req_entry s roleObjects req := Some d,
      req_entry s (compressed_role d) req := Some (compressed_form s req d))"
    and "fresh_form s req w" and "svc_ready s w2"
    and "lookupCompressed s (fst (cacheKey req)) (snd (cacheKey req)) w2 = (r2, w')"
  shows "r2 \<noteq> Inr None" and "r2 = Inr (Some (f, role)) \<Longrightarrow> handle_bytes w' f = compressed_form s req d"
proof -
  note b = lookupCompressed_effect [OF assms(4,3)]
  have ne: "req_entry s roleRawCompressed req \<noteq> req_entry s roleObjects req"
    "req_entry s roleRawCompressed req \<noteq> req_entry s roleCabSynth req"
    using req_entry_role roles_distinct by metis+
  show "r2 \<noteq> Inr None" using b(4) assms(1) ne by (auto simp: compressed_role_def split: if_splits)
  show "handle_bytes w' f = compressed_form s req d" if "r2 = Inr (Some (f, role))"
    using b(3) [OF that] assms(1,2) ne quiet_entry [OF b(1)]
    by (auto simp: opens_entry_def compressed_role_def fresh_form_def split: if_splits)
qed

context fetcher
begin

lemma object_grown:
  assumes "object s req w = (r, w')" and "svc_ready s w" and "svc_fetcher s = fetch" and "solo s"
  shows "grown stored s req w w'"
    and "r = Inr (Some f) \<Longrightarrow> source_bytes stored s req w = Some (handle_bytes w' f)
      \<and> svc_entries s w' = (svc_entries s w)(req_entry s roleObjects req := Some (handle_bytes w' f))
      \<and> opens_entry s roleObjects req w' f"
    and "r \<noteq> Inr None"
    and "fault_free (w_fs w) \<Longrightarrow> r = Inl x \<Longrightarrow> svc_entries s w' = svc_entries s w \<and> file_at (w_fs w') = file_at (w_fs w)"
    and "fault_free (w_fs w) \<Longrightarrow> fresh_names (svc_cache s) (w_fs w) \<Longrightarrow> source_bytes stored s req w \<noteq> None \<Longrightarrow> is_ok r"
proof -
  let ?e = "req_entry s roleObjects req"
  note O = object_solo [OF assms]
  show "r \<noteq> Inr None" by (rule O(4))
  show "fault_free (w_fs w) \<Longrightarrow> r = Inl x \<Longrightarrow> svc_entries s w' = svc_entries s w \<and> file_at (w_fs w') = file_at (w_fs w)"
    using O(5) quiet_entry by blast
  show "is_ok r" if "fault_free (w_fs w)" "fresh_names (svc_cache s) (w_fs w)" "source_bytes stored s req w \<noteq> None"
    using that by (intro O(6)) (auto simp: available_def obtainable_def source_bytes_def split: option.splits sum.splits)
  show "grown stored s req w w'"
  proof (cases "svc_entries s w ?e")
    case (Some d)
    with O(1) quiet_entry show ?thesis by (auto simp: grown_def)
  next
    case None
    then have "svc_quiet s w w' \<or> obtained stored s req w w'" using O(2,3) by (cases r) blast+
    then show ?thesis using None quiet_entry obtained_grown [of stored s req w w'] by (metis grown_def)
  qed
  assume r: "r = Inr (Some f)"
  note op = object_steps(2) [OF assms(1-3) solo_joins_ok [OF assms(4)] r]
  then have e: "svc_entries s w' ?e = Some (handle_bytes w' f)" by (simp add: opens_entry_def)
  have "source_bytes stored s req w = svc_entries s w' ?e \<and> svc_entries s w' = (svc_entries s w)(?e := svc_entries s w' ?e)"
  proof (cases "svc_entries s w ?e")
    case (Some d)
    with O(1) quiet_entry show ?thesis by (auto simp: source_bytes_def)
  next
    case None
    with O(2) [OF None r] show ?thesis by (elim obtained_grown) simp_all
  qed
  with e op show "source_bytes stored s req w = Some (handle_bytes w' f)
      \<and> svc_entries s w' = (svc_entries s w)(?e := Some (handle_bytes w' f)) \<and> opens_entry s roleObjects req w' f"
    by simp
qed

lemma object_fresh:
  assumes "object s req w = (Inr q, w')" and "svc_ready s w" and "svc_fetcher s = fetch" and "solo s"
    and "fresh_names (svc_cache s) (w_fs w)"
  shows "fresh_names (svc_cache s) (w_fs w')"
proof -
  let ?e = "req_entry s roleObjects req"
  note O = object_solo [OF assms(1-4)]
  have "file_at (w_fs w') = file_at (w_fs w) \<or> (\<exists>i. file_at (w_fs w') = (file_at (w_fs w))(?e := Some i))"
    using O(1) O(2) [OF _ refl] by (auto simp: obtained_def)
  moreover have "tmp_path (svc_cache s) @ [x] \<noteq> ?e" for x 
    using req_entry_in_cache [of s roleObjects req] by (metis butlast_snoc)
  ultimately have "file_at (w_fs w') (tmp_path (svc_cache s) @ [x]) = file_at (w_fs w) (tmp_path (svc_cache s) @ [x])" for x
    by auto
  then show ?thesis
    by (rule fresh_names_mono [OF assms(5) ready_steps(2) [OF assms(2) object_steps(1) [OF assms(1-3) solo_joins_ok [OF assms(4)]]]])
qed

lemma synthesize_effect:
  assumes "synthesize s req w = (r, w')" and "svc_ready s w" and "svc_fetcher s = fetch" and "joins_ok s"
  shows "svc_steps s w w'"
    and "solo s \<Longrightarrow> r \<noteq> None \<Longrightarrow> grown stored s req w w'"
    and "solo s \<Longrightarrow> r = None \<Longrightarrow> \<exists>d. source_bytes stored s req w = Some d \<and> cab_made s req d
      \<and> svc_entries s w' = (svc_entries s w)(req_entry s roleObjects req := Some d,
          req_entry s (compressed_role d) req := Some (compressed_form s req d))"
    and "solo s \<Longrightarrow> fault_free (w_fs w) \<Longrightarrow> fresh_names (svc_cache s) (w_fs w) \<Longrightarrow>
      source_bytes stored s req w = Some d \<Longrightarrow> wrappable s req d \<Longrightarrow> r = None"
proof -
  let ?e = "req_entry s roleObjects req"
  obtain r1 w1 where ob: "object s req w = (r1, w1)" by fastforce
  note st1 = object_steps(1) [OF ob assms(2-4)]
  note rd = ready_steps [OF assms(2) st1]
  note G = object_grown [OF ob assms(2,3)]
  consider (err) x where "r1 = Inl x" | (nil) "r1 = Inr None" | (hit) obj info where "r1 = Inr (Some (obj, info))"
    by (metis option.exhaust prod.exhaust sum.exhaust)
  then have "svc_steps s w w' \<and> (solo s \<longrightarrow> (r \<noteq> None \<longrightarrow> grown stored s req w w') \<and> (r = None \<longrightarrow> (\<exists>d. source_bytes stored s req w = Some d \<and> cab_made s req d
      \<and> svc_entries s w' = (svc_entries s w)(?e := Some d, req_entry s (compressed_role d) req := Some (compressed_form s req d))))
      \<and> (fault_free (w_fs w) \<longrightarrow> fresh_names (svc_cache s) (w_fs w) \<longrightarrow> source_bytes stored s req w = Some d
           \<longrightarrow> wrappable s req d \<longrightarrow> r = None))"
  proof cases
    case err
    with assms(1) ob have r: "r = Some x" "w' = w1" by (simp_all add: synthesize_def)
    then show ?thesis using st1 G(1) G(5) err by auto
  next
    case nil
    with assms(1) ob have r: "r \<noteq> None" "w' = w1" by (auto simp: synthesize_def)
    then show ?thesis using st1 G(1,3) nil by auto
  next
    case hit
    obtain rs w2 where sf: "synthesize_from s req obj info w1 = (rs, w2)" by fastforce
    obtain rc fs3 where cl: "f_Close (w_fs w2) obj = (rc, fs3)" by fastforce
    have r: "r = rs" and w': "w' = w2\<lparr>w_fs := fs3\<rparr>"
      using assms(1) ob hit sf cl by (simp_all add: synthesize_def on_fs_def)
    have qc: "svc_quiet s w2 w'" unfolding w' by (rule quiet_read [OF read_only_calls(5) [OF cl]])
    note op = object_steps(2) [OF ob assms(2-4) hit]
    define c where "c = handle_bytes w1 (obj, info)"
    note F = synthesize_from_effect [OF sf rd(1) op c_def [symmetric]]
    have st: "svc_steps s w w'"
      using st1 produced_steps [OF F] quiet_steps [OF qc] by (meson rtranclp_trans)
    have "(r \<noteq> None \<longrightarrow> grown stored s req w w') \<and> (r = None \<longrightarrow> (\<exists>d. source_bytes stored s req w = Some d \<and> cab_made s req d
      \<and> svc_entries s w' = (svc_entries s w)(?e := Some d, req_entry s (compressed_role d) req := Some (compressed_form s req d))))
      \<and> (fault_free (w_fs w) \<longrightarrow> fresh_names (svc_cache s) (w_fs w) \<longrightarrow> source_bytes stored s req w = Some d
           \<longrightarrow> wrappable s req d \<longrightarrow> r = None)" if solo: "solo s"
    proof -
      note g = G(2) [OF solo hit, folded c_def]
      have "grown stored s req w w'" if "r \<noteq> None"
        using F that r quiet_entry [OF qc] quiet_entry g by (auto simp: grown_def produced_def)
      moreover have "cab_made s req c \<and>
          svc_entries s w' = (svc_entries s w)(?e := Some c, req_entry s (compressed_role c) req := Some (compressed_form s req c))"
        if "r = None"
        using F that r quiet_entry [OF qc] g by (auto simp: produced_def)
      moreover have "r = None" if "fault_free (w_fs w)" "fresh_names (svc_cache s) (w_fs w)"
          "source_bytes stored s req w = Some d" "wrappable s req d"
        using F rd(3) [OF that(1)] object_fresh [OF ob [unfolded hit] assms(2,3) solo that(2)] that(3,4) g r
        by (auto simp: produced_def split: if_splits)
      ultimately show ?thesis using g by blast
    qed
    with st show ?thesis by blast
  qed
  then show "svc_steps s w w'" "solo s \<Longrightarrow> r \<noteq> None \<Longrightarrow> grown stored s req w w'"
    "solo s \<Longrightarrow> r = None \<Longrightarrow> \<exists>d. source_bytes stored s req w = Some d \<and> cab_made s req d
      \<and> svc_entries s w' = (svc_entries s w)(?e := Some d,
          req_entry s (compressed_role d) req := Some (compressed_form s req d))"
    "solo s \<Longrightarrow> fault_free (w_fs w) \<Longrightarrow> fresh_names (svc_cache s) (w_fs w) \<Longrightarrow>
      source_bytes stored s req w = Some d \<Longrightarrow> wrappable s req d \<Longrightarrow> r = None" by blast+
qed

lemma FetchCompressed_effect:
  assumes "FetchCompressed s req w = (r, w')" and "svc_ready s w" and "svc_fetcher s = fetch" and "joins_ok s"
  shows "svc_steps s w w'"
    and "r = Inr (Some f) \<Longrightarrow> \<exists>role \<in> {roleRawCompressed, roleCabSynth}. opens_entry s role req w' f"
    and "solo s \<Longrightarrow> r = Inr q \<Longrightarrow> \<exists>f. q = Some f \<and> compressed_bytes stored s req w = Some (handle_bytes w' f)
      \<and> (fresh_form s req w \<longrightarrow> (\<exists>d. source_bytes stored s req w = Some d \<and> cab_made s req d))"
    and "solo s \<Longrightarrow> fault_free (w_fs w) \<Longrightarrow> fresh_names (svc_cache s) (w_fs w) \<Longrightarrow>
      source_bytes stored s req w = Some d \<Longrightarrow> wrappable s req d \<Longrightarrow> is_ok r"
proof -
  let ?opened = "\<forall>f. r = Inr (Some f) \<longrightarrow> (\<exists>role \<in> {roleRawCompressed, roleCabSynth}. opens_entry s role req w' f)"
  let ?sound = "\<forall>q. r = Inr q \<longrightarrow> (\<exists>f. q = Some f \<and> compressed_bytes stored s req w = Some (handle_bytes w' f)
      \<and> (fresh_form s req w \<longrightarrow> (\<exists>d. source_bytes stored s req w = Some d \<and> cab_made s req d)))"
  define smooth where "smooth \<longleftrightarrow> fault_free (w_fs w) \<and> fresh_names (svc_cache s) (w_fs w)
    \<and> (\<exists>d. source_bytes stored s req w = Some d \<and> wrappable s req d)"
  from assms(1,2) have "svc_steps s w w' \<and> ?opened \<and> (solo s \<longrightarrow> ?sound \<and> (smooth \<longrightarrow> is_ok r))"
  proof (cases rule: FetchCompressed_cases)
    case (miss v p w2)
    note rv = quiet_ready [OF assms(2) miss(2)]
    have st2: "svc_steps s w w2"
      using quiet_steps [OF miss(2)] produceOnce_steps [OF miss(4) assms(4)] synthesize_effect(1) [OF _ rv(1) assms(3,4)]
      by (meson rtranclp_trans)
    note rd2 = ready_steps [OF assms(2) st2]
    have src: "source_bytes stored s req v = source_bytes stored s req w"
      using quiet_entry [OF miss(2)] by (simp add: source_bytes_def)
    have p_ok: "p = None" if "solo s" smooth
    proof -
      from produceOnce_solo [OF miss(4) that(1)] obtain x where
        sy: "synthesize s req v = (x, w2)" "p = None \<longleftrightarrow> x = None" by blast
      from that(2) obtain d where "source_bytes stored s req v = Some d" "wrappable s req d" by (auto simp: smooth_def src)
      from synthesize_effect(4) [OF sy(1) rv(1) assms(3,4) that(1) _ _ this] rv(3) that(2) sy(2)
      show ?thesis by (simp add: smooth_def fresh_names_cong [OF rv(2) miss(3)])
    qed
    show ?thesis
    proof (cases p)
      case (Some e)
      with miss(5) st2 p_ok show ?thesis by auto
    next
      case None
      with miss(6) obtain r2 where l2: "lookupCompressed s (fst (cacheKey req)) (snd (cacheKey req)) w2 = (r2, w')"
        and r: "r = (case r2 of Inl e \<Rightarrow> Inl e | Inr q \<Rightarrow> Inr (map_option fst q))" by blast
      note b = lookupCompressed_effect [OF l2 rd2(1)]
      have "?opened" using b(3) r by (auto split: sum.splits)
      moreover have "?sound \<and> (smooth \<longrightarrow> is_ok r)" if solo: "solo s"
      proof -
        from produceOnce_solo [OF miss(4) solo] None have "synthesize s req v = (None, w2)" by auto
        from synthesize_effect(3) [OF this rv(1) assms(3,4) solo refl] src quiet_entry [OF miss(2)] obtain d where
          d: "source_bytes stored s req w = Some d" "cab_made s req d" and e2: "svc_entries s w2 =
            (svc_entries s w)(req_entry s roleObjects req := Some d, req_entry s (compressed_role d) req := Some (compressed_form s req d))"
          by auto
        note C = compressed_reopened [OF e2 miss(1) rd2(1) l2]
        have "compressed_bytes stored s req w = Some (compressed_form s req d)"
          using miss(1) d by (simp add: compressed_bytes_def fresh_form_def)
        with C d r b(5) rd2(3) show ?thesis by (auto simp: smooth_def split: sum.splits)
      qed
      ultimately show ?thesis using rtranclp_trans [OF st2 quiet_steps [OF b(1)]] by blast
    qed
  next
    case (err x)
    then show ?thesis by (auto simp: smooth_def dest: quiet_steps)
  next
    case (hit f role)
    then show ?thesis by (auto simp del: split_paired_Ex dest: quiet_steps)
  qed
  then show "svc_steps s w w'" "r = Inr (Some f) \<Longrightarrow> \<exists>role \<in> {roleRawCompressed, roleCabSynth}. opens_entry s role req w' f"
    "solo s \<Longrightarrow> r = Inr q \<Longrightarrow> \<exists>f. q = Some f \<and> compressed_bytes stored s req w = Some (handle_bytes w' f)
      \<and> (fresh_form s req w \<longrightarrow> (\<exists>d. source_bytes stored s req w = Some d \<and> cab_made s req d))"
    "solo s \<Longrightarrow> fault_free (w_fs w) \<Longrightarrow> fresh_names (svc_cache s) (w_fs w) \<Longrightarrow>
      source_bytes stored s req w = Some d \<Longrightarrow> wrappable s req d \<Longrightarrow> is_ok r"
    unfolding smooth_def by blast+
qed

end

end
