(* ===== verification/ServiceProps.thy ===== *)
theory ServiceProps
  imports Synthesis
begin

text \<open>
  The properties of the object service, for the S3 fetcher and any resolver, compressor and
  hash of 32 bytes, with witnesses on a small store. Faults of the file system are free
  unless \<open>fault_free\<close> is assumed; \<open>solo\<close> is assumed where the answer of another caller's
  download is not the subject.
\<close>

section \<open>Runs of the service\<close>

text \<open>
  What the running proxy does to the world, one whole operation at a time: the requests,
  the sweeps and the readiness probes.
\<close>

inductive service_step :: "service \<Rightarrow> world \<Rightarrow> world \<Rightarrow> bool" for s where
  serve_object: "Fetch s req w = (r, w') \<Longrightarrow> service_step s w w'"
| serve_compressed: "FetchCompressed s req w = (r, w') \<Longrightarrow> service_step s w w'"
| serve_probe: "Probe (svc_cache s) (w_fs w) = (r, fs') \<Longrightarrow> service_step s w (w\<lparr>w_fs := fs'\<rparr>)"
| serve_sweep: "service_step s w (RunEviction (svc_cache s) maxUnused evs w)"

lemma RunEviction_steps: "(cache_step sha c)\<^sup>*\<^sup>* w (RunEviction c maxUnused evs w)"
proof (induction c maxUnused evs w rule: RunEviction.induct)
  case (3 c maxUnused evs w)
  have "cache_step sha c w (snd (Evict c maxUnused w))" by (rule step_evict [OF surjective_pairing])
  with 3 show ?case by (simp add: converse_rtranclp_into_rtranclp)
qed simp_all

context fetcher
begin

lemma service_step_steps:
  assumes "service_step s w w'" and "svc_ready s w" and "svc_fetcher s = fetch" and "joins_ok s"
  shows "svc_steps s w w'"
  using assms(1)
proof cases
  case (serve_object req r)
  from object_steps(1) [OF serve_object [unfolded Fetch_def] assms(2-4)] show ?thesis .
next
  case (serve_compressed req r)
  from FetchCompressed_effect(1) [OF serve_compressed assms(2-4)] show ?thesis .
next
  case (serve_probe r fs')
  with step_probe [OF serve_probe(2)] show ?thesis by auto
next
  case (serve_sweep maxUnused evs)
  with RunEviction_steps show ?thesis by simp
qed

lemma service_run_steps:
  assumes "(service_step s)\<^sup>*\<^sup>* w w'" and "svc_ready s w" and "svc_fetcher s = fetch" and "joins_ok s"
  shows "svc_steps s w w' \<and> svc_ready s w'"
  using assms(1)
proof (induction rule: rtranclp_induct)
  case (step y z)
  from service_step_steps [OF step.hyps(2) conjunct2 [OF step.IH] assms(3,4)] step.IH
  have "svc_steps s y z" "svc_steps s w z" by (auto intro: rtranclp_trans)
  with ready_steps(1) [OF conjunct2 [OF step.IH]] show ?case by blast
qed (simp add: assms(2))

end

section \<open>Properties\<close>

text \<open>C6: a verbatim request that succeeds answers with an open file holding the cached object, or else the
  object stored where the resolver points, and afterwards that object is the entry and no other entry
  has changed.\<close>

theorem Fetch_serves:
  assumes "Fetch s req w = (Inr q, w')" and "svc_ready s w" and "svc_fetcher s = S3_Fetch GetObject" and "solo s"
  shows "\<exists>f. q = Some f \<and> source_bytes (s3_stored GetObject) s req w = Some (handle_bytes w' f)
    \<and> f_pos (fst f) = 0 \<and> fi_Size (snd f) = int (length (handle_bytes w' f))
    \<and> svc_entries s w' = (svc_entries s w)(req_entry s roleObjects req := Some (handle_bytes w' f))"
proof -
  note G = s3.object_grown [OF assms(1) [unfolded Fetch_def] assms(2-4)]
  from G(3) obtain f where q: "q = Some f" by (cases q) simp_all
  with G(2) [of f] show ?thesis by (simp add: opens_entry_def)
qed

text \<open>C17: a verbatim request that fails leaves every entry as it was, except that the object itself may have
  been committed, whole; and when the file system does not fail it leaves no file behind at all.\<close>

theorem Fetch_fails_clean:
  assumes "Fetch s req w = (Inl e, w')" and "svc_ready s w" and "svc_fetcher s = S3_Fetch GetObject" and "solo s"
  shows "(svc_entries s w' = svc_entries s w \<or> (\<exists>d. source_bytes (s3_stored GetObject) s req w = Some d
        \<and> svc_entries s w' = (svc_entries s w)(req_entry s roleObjects req := Some d)))
    \<and> (fault_free (w_fs w) \<longrightarrow> svc_entries s w' = svc_entries s w \<and> file_at (w_fs w') = file_at (w_fs w))"
  using s3.object_grown(1,4) [OF assms(1) [unfolded Fetch_def] assms(2-4)] by (auto simp: grown_def)

text \<open>C20: when the file system does not fail and free staging names exist, a request for an object that is
  cached, or found and stored, succeeds.\<close>

theorem Fetch_succeeds:
  assumes "svc_ready s w" and "svc_fetcher s = S3_Fetch GetObject" and "solo s"
    and "fault_free (w_fs w)" and "fresh_names (svc_cache s) (w_fs w)"
  shows "is_ok (fst (Fetch s req w)) \<longleftrightarrow> source_bytes (s3_stored GetObject) s req w \<noteq> None"
proof
  assume "is_ok (fst (Fetch s req w))"
  then obtain q where q: "Fetch s req w = (Inr q, snd (Fetch s req w))"
    by (cases "Fetch s req w"; cases "fst (Fetch s req w)") simp_all
  note G = s3.object_grown [OF q [unfolded Fetch_def] assms(1-3)]
  from G(3) obtain f where "q = Some f" by (cases q) simp_all
  with G(2) [of f] show "source_bytes (s3_stored GetObject) s req w \<noteq> None" by simp
next
  assume "source_bytes (s3_stored GetObject) s req w \<noteq> None"
  with s3.object_grown(5) [OF _ assms(1-3) assms(4,5), of req "fst (Fetch s req w)" "snd (Fetch s req w)"]
  show "is_ok (fst (Fetch s req w))" by (simp add: Fetch_def)
qed

text \<open>C10: a compressed request that succeeds answers with the cached mirror, else the cached cabinet, else
  the form made of the object: the object itself if it is a cabinet, its cabinet image if not.\<close>

theorem FetchCompressed_serves:
  assumes "FetchCompressed s req w = (Inr q, w')" and "svc_ready s w" and "svc_fetcher s = S3_Fetch GetObject" and "solo s"
  shows "\<exists>f. q = Some f \<and> compressed_bytes (s3_stored GetObject) s req w = Some (handle_bytes w' f)
    \<and> f_pos (fst f) = 0 \<and> fi_Size (snd f) = int (length (handle_bytes w' f))"
proof -
  note F = s3.FetchCompressed_effect [OF assms(1-3) solo_joins_ok [OF assms(4)]]
  from F(3) [OF assms(4) refl] obtain f where f: "q = Some f"
    "compressed_bytes (s3_stored GetObject) s req w = Some (handle_bytes w' f)" by blast
  with F(2) [of f] show ?thesis by (auto simp: opens_entry_def)
qed

text \<open>C1: end to end, the file a compressed request serves for an object that is not itself a cabinet and has
  no compressed form yet extracts to the requested file name and the object's bytes.\<close>

theorem FetchCompressed_extracts:
  assumes "FetchCompressed s req w = (Inr (Some f), w')" and "svc_ready s w" and "svc_fetcher s = S3_Fetch GetObject"
    and "solo s" and "fresh_form s req w" and "source_bytes (s3_stored GetObject) s req w = Some d" and "\<not> is_cabinet d"
    and "codec_ok (svc_flate s) infl" and "length (Filename req) < 2 ^ 30"
  shows "extractCAB infl (handle_bytes w' f) = Some (Filename req, d)"
proof -
  from s3.FetchCompressed_effect(3) [OF assms(1-3) solo_joins_ok [OF assms(4)] assms(4) refl] assms(5,6)
  have "compressed_bytes (s3_stored GetObject) s req w = Some (handle_bytes w' f)" and made: "cab_made s req d" by auto
  then have "handle_bytes w' f = cab_image (svc_flate s) (Filename req) d"
    using assms(5-7) by (simp add: compressed_bytes_def fresh_form_def compressed_form_def)
  with extract_image [OF assms(8)] made assms(7,9) show ?thesis by (simp add: cab_made_def)
qed

text \<open>C21: when the file system does not fail and free staging names exist, a compressed request for an object
  that is cached, or found and stored, succeeds if the object is a cabinet or can be wrapped in one.\<close>

theorem FetchCompressed_succeeds:
  assumes "svc_ready s w" and "svc_fetcher s = S3_Fetch GetObject" and "solo s"
    and "fault_free (w_fs w)" and "fresh_names (svc_cache s) (w_fs w)"
    and "source_bytes (s3_stored GetObject) s req w = Some d" and "wrappable s req d"
  shows "\<exists>f w'. FetchCompressed s req w = (Inr (Some f), w')"
proof -
  obtain r w' where r: "FetchCompressed s req w = (r, w')" by fastforce
  note F = s3.FetchCompressed_effect [OF r assms(1,2) solo_joins_ok [OF assms(3)]]
  from F(4) [OF assms(3-7)] obtain q where "r = Inr q" by (cases r) simp_all
  with F(3) [OF assms(3) this] r show ?thesis by blast
qed

text \<open>C9: every run of the service, whatever fails and whatever other callers' downloads it joins, is a run of
  the cache's steps; so the directory layout holds throughout, and the gauges stay exact when nothing fails.\<close>

theorem service_refines_cache:
  assumes "(service_step s)\<^sup>*\<^sup>* w w'" and "svc_ready s w" and "svc_fetcher s = S3_Fetch GetObject" and "joins_ok s"
  shows "(cache_step (svc_sha s) (svc_cache s))\<^sup>*\<^sup>* w w' \<and> cache_ok (svc_cache s) (w_fs w')
    \<and> (fault_free (w_fs w) \<longrightarrow> gauges_exact (svc_cache s) w \<longrightarrow> gauges_exact (svc_cache s) w')"
proof -
  note st = conjunct1 [OF s3.service_run_steps [OF assms]]
  with cache_run_invariant [OF st readyD(1,2,3) [OF assms(2)]] show ?thesis by blast
qed

section \<open>Witnesses\<close>

definition ex_get :: "string \<Rightarrow> string \<Rightarrow> get_object" where
  "ex_get b k = (if k = ''k'' then GetBody \<lparr>rd_rest = [1, 2, 3], rd_end = AtEOF\<rparr> else NoSuchKey)"

definition ex_resolver :: "request \<Rightarrow> location result" where
  "ex_resolver req = (if DebugID req = ''a'' then Inr \<lparr>Bucket = ''b'', Key = ''k'', Size = 3, ContentType = ''''\<rparr>
     else Inl ResolverNotFound)"

definition ex_svc :: service where
  "ex_svc = \<lparr>svc_resolver = ex_resolver, svc_fetcher = S3_Fetch ex_get, svc_cache = ex_cache, svc_sha = sha_ex,
     svc_flate = fl_stored, svc_join = (\<lambda>_ _. None)\<rparr>"

definition ex_req :: "string \<Rightarrow> request" where
  "ex_req d = \<lparr>DebugID = d, CodeID = '''', Filename = ''f.pdb'', FileType = FilePDB\<rparr>"

lemma ex_svc_simps [simp]:
  "svc_resolver ex_svc = ex_resolver" "svc_fetcher ex_svc = S3_Fetch ex_get" "svc_cache ex_svc = ex_cache"
  "svc_sha ex_svc = sha_ex" "svc_flate ex_svc = fl_stored" "solo ex_svc"
  by (simp_all add: ex_svc_def solo_def)

lemma ex_req_name [simp]: "Filename (ex_req d) = ''f.pdb''"
  by (simp add: ex_req_def)

lemma ex_ready: "svc_ready ex_svc ex_world"
  by (simp add: ready_def cache_ok_ex sha_ok_ex ex_env)

lemma ex_empty: "svc_entries ex_svc ex_world p = None"
  by (auto simp: cache_entry_def content_at_def ex_root ex_fs_def ex_fs0_def)

lemma ex_fresh: "fresh_names (svc_cache ex_svc) (w_fs ex_world)"
  by (simp add: fresh_names_def ex_root ex_fs_def ex_fs0_def file_at_def tmpPattern_def)

lemma ex_source: "source_bytes (s3_stored ex_get) ex_svc (ex_req d) ex_world = (if d = ''a'' then Some [1, 2, 3] else None)"
  by (simp add: source_bytes_def ex_empty [simplified] ex_resolver_def ex_req_def s3_stored_def ex_get_def)

lemma ex_fault_free: "fault_free (w_fs ex_world)"
  by (simp add: ex_env)

lemma ex_not_cabinet: "\<not> is_cabinet [1, 2, 3]"
  by (simp add: is_cabinet_def cabMagic_def bytes_of_string_def)

lemma ex_wrappable: "wrappable ex_svc (ex_req ''a'') [1, 2, 3]"
  by (simp add: wrappable_def flate_total_stored ex_req_def encodeName_def maxFolderUncompessed_def maxBlocks_def
    maxBlockUncompressed_def)

lemma ex_fetch: "\<exists>q w'. Fetch ex_svc (ex_req ''a'') ex_world = (Inr q, w')"
  using s3.object_grown(5) [OF surjective_pairing ex_ready ex_svc_simps(2,6) ex_fault_free ex_fresh, of "ex_req ''a''"]
  by (cases "object ex_svc (ex_req ''a'') ex_world"; cases "fst (object ex_svc (ex_req ''a'') ex_world)")
    (simp_all add: Fetch_def ex_source)

lemma ex_fetch_fails: "\<exists>e w'. Fetch ex_svc (ex_req ''z'') ex_world = (Inl e, w')"
proof -
  obtain r w' where o: "object ex_svc (ex_req ''z'') ex_world = (r, w')" by fastforce
  note G = s3.object_grown [OF o ex_ready ex_svc_simps(2,6)]
  have "r \<noteq> Inr q" for q using G(2) G(3) by (cases q) (auto simp: ex_source)
  then obtain e where "r = Inl e" by (cases r) blast+
  with o show ?thesis by (simp add: Fetch_def)
qed

lemma ex_fetch_compressed: "\<exists>f w'. FetchCompressed ex_svc (ex_req ''a'') ex_world = (Inr (Some f), w')"
proof -
  obtain r w' where r: "FetchCompressed ex_svc (ex_req ''a'') ex_world = (r, w')" by fastforce
  note F = s3.FetchCompressed_effect [OF r ex_ready ex_svc_simps(2) solo_joins_ok [OF ex_svc_simps(6)]]
  from F(4) [OF ex_svc_simps(6) ex_fault_free ex_fresh _ ex_wrappable] obtain q where "r = Inr q"
    by (cases r) (simp_all add: ex_source)
  with F(3) [OF ex_svc_simps(6) this] r show ?thesis by blast
qed

lemma Fetch_serves_witness:
  "\<exists>f w'. Fetch ex_svc (ex_req ''a'') ex_world = (Inr (Some f), w') \<and> handle_bytes w' f = [1, 2, 3]"
proof -
  from ex_fetch obtain q w' where f: "Fetch ex_svc (ex_req ''a'') ex_world = (Inr q, w')" by blast
  from Fetch_serves [OF f ex_ready ex_svc_simps(2,6)] f show ?thesis by (auto simp: ex_source)
qed

lemma Fetch_fails_clean_witness:
  "file_at (w_fs (snd (Fetch ex_svc (ex_req ''z'') ex_world))) = file_at (w_fs ex_world)"
proof -
  from ex_fetch_fails obtain e w' where f: "Fetch ex_svc (ex_req ''z'') ex_world = (Inl e, w')" by blast
  from Fetch_fails_clean [OF f ex_ready ex_svc_simps(2,6)] ex_fault_free f show ?thesis by simp
qed

lemma Fetch_succeeds_witness: "is_ok (fst (Fetch ex_svc (ex_req ''a'') ex_world))"
  using Fetch_succeeds [OF ex_ready ex_svc_simps(2,6) ex_fault_free ex_fresh, of "ex_req ''a''"] by (simp add: ex_source)

lemma FetchCompressed_serves_witness:
  "\<exists>f w'. FetchCompressed ex_svc (ex_req ''a'') ex_world = (Inr (Some f), w')
    \<and> handle_bytes w' f = cab_image fl_stored ''f.pdb'' [1, 2, 3]"
proof -
  from ex_fetch_compressed obtain f w' where f: "FetchCompressed ex_svc (ex_req ''a'') ex_world = (Inr (Some f), w')" by blast
  have "compressed_bytes (s3_stored ex_get) ex_svc (ex_req ''a'') ex_world = Some (cab_image fl_stored ''f.pdb'' [1, 2, 3])"
    using ex_empty by (simp add: compressed_bytes_def ex_source compressed_form_def ex_not_cabinet)
  with FetchCompressed_serves [OF f ex_ready ex_svc_simps(2,6)] f show ?thesis by auto
qed

lemma FetchCompressed_extracts_witness:
  "\<exists>f w'. FetchCompressed ex_svc (ex_req ''a'') ex_world = (Inr (Some f), w')
    \<and> extractCAB inflate_stored (handle_bytes w' f) = Some (''f.pdb'', [1, 2, 3])"
proof -
  from ex_fetch_compressed obtain f w' where f: "FetchCompressed ex_svc (ex_req ''a'') ex_world = (Inr (Some f), w')" by blast
  have "fresh_form ex_svc (ex_req ''a'') ex_world" using ex_empty by (simp add: fresh_form_def)
  from FetchCompressed_extracts [OF f ex_ready ex_svc_simps(2,6) this _ ex_not_cabinet, of inflate_stored] f codec_ok_stored
  show ?thesis by (auto simp: ex_source)
qed

lemma FetchCompressed_succeeds_witness: "is_ok (fst (FetchCompressed ex_svc (ex_req ''a'') ex_world))"
  using FetchCompressed_succeeds [OF ex_ready ex_svc_simps(2,6) ex_fault_free ex_fresh _ ex_wrappable] by (auto simp: ex_source)

lemma service_refines_cache_witness: "cache_ok ex_cache (w_fs (snd (Fetch ex_svc (ex_req ''a'') ex_world)))"
proof -
  have "(service_step ex_svc)\<^sup>*\<^sup>* ex_world (snd (Fetch ex_svc (ex_req ''a'') ex_world))"
    by (rule r_into_rtranclp [where r = "service_step ex_svc"], rule serve_object [OF surjective_pairing])
  from service_refines_cache [OF this ex_ready ex_svc_simps(2) solo_joins_ok [OF ex_svc_simps(6)]] show ?thesis by simp
qed

end
