(* ===== verification/SourceBundle.thy ===== *)
theory SourceBundle
  imports ServiceProps
begin

text \<open>
  \<open>sourcebundle.go\<close>: the source file served out of a source bundle. \<open>archive/zip\<close> and the JSON
  decoder are the parameter \<open>bundle_lib\<close>; a decoded manifest lists its entries in the order
  in which the loop of \<open>bundleEntry\<close> happens to range over the map.
\<close>

section \<open>Paths\<close>

definition normalizeSourcePath :: "string \<Rightarrow> string" where
  "normalizeSourcePath p =
     (let p1 = ReplaceAll p CHR 0x5C ''/'';
          p2 = (if \<not> HasPrefix p1 ''/'' then ''/'' @ p1 else p1)
      in path_Clean p2)"

section \<open>The bundle\<close>

record zip_file =
  zf_Name :: string
  zf_Open :: "reader result"

record bundle_lib =
  zip_NewReader :: "reader \<Rightarrow> int \<Rightarrow> zip_file list result"
  json_Decode :: "reader \<Rightarrow> (string \<times> string) list result"     \<comment> \<open>entry name, \<open>path\<close>\<close>

definition bundleManifestName :: string where
  "bundleManifestName = ''manifest.json''"

definition readManifest :: "bundle_lib \<Rightarrow> zip_file \<Rightarrow> (string \<times> string) list result" where
  "readManifest lib f =
     (case zf_Open f of
        Inl e \<Rightarrow> Inl (Wrap ''opening source-bundle manifest'' e)
      | Inr rc \<Rightarrow>
        (case json_Decode lib rc of
           Inl e \<Rightarrow> Inl (Wrap ''decoding source-bundle manifest'' e)
         | Inr manifest \<Rightarrow> Inr manifest))"

text \<open>\<open>byName\<close>: a later entry of the same name overwrites an earlier one.\<close>

definition byName :: "zip_file list \<Rightarrow> string \<rightharpoonup> zip_file" where
  "byName files = fold (\<lambda>f m. m(zf_Name f \<mapsto> f)) files Map.empty"

fun match_entry :: "(string \<rightharpoonup> zip_file) \<Rightarrow> string \<Rightarrow> (string \<times> string) list \<Rightarrow> zip_file option" where
  "match_entry m want [] = None"
| "match_entry m want ((entryName, path) # rest) =
     (if normalizeSourcePath path \<noteq> want then match_entry m want rest
      else case m entryName of
             Some f \<Rightarrow> Some f
           | None \<Rightarrow> match_entry m want rest)"

definition bundleEntry :: "bundle_lib \<Rightarrow> zip_file list \<Rightarrow> string \<Rightarrow> zip_file result" where
  "bundleEntry lib files sourcePath =
     (case byName files bundleManifestName of
        None \<Rightarrow> Inl ObjectsNotFound
      | Some manifestFile \<Rightarrow>
        (case readManifest lib manifestFile of
           Inl e \<Rightarrow> Inl e
         | Inr manifest \<Rightarrow>
           (case match_entry (byName files) (normalizeSourcePath sourcePath) manifest of
              Some f \<Rightarrow> Inr f
            | None \<Rightarrow> Inl ObjectsNotFound)))"

section \<open>SourceFile\<close>

text \<open>\<open>io.ReadAll(io.LimitReader(r, n))\<close>: the limit is reached before a later error is seen.\<close>

definition io_ReadAll_limit :: "reader \<Rightarrow> nat \<Rightarrow> bytes result" where
  "io_ReadAll_limit r n =
     (if n \<le> length (rd_rest r) then Inr (take n (rd_rest r))
      else case rd_end r of AtEOF \<Rightarrow> Inr (rd_rest r) | AtError \<Rightarrow> Inl (EnvError ''read''))"

definition readEntry :: "zip_file \<Rightarrow> bytes result" where
  "readEntry entry =
     (case zf_Open entry of
        Inl e \<Rightarrow> Inl (Wrap ''opening source entry'' e)
      | Inr rc \<Rightarrow>
        (case io_ReadAll_limit rc (maxSourceFileSize + 1) of
           Inl e \<Rightarrow> Inl (Wrap ''reading source entry'' e)
         | Inr data \<Rightarrow>
           (if length data > maxSourceFileSize then Inl (NewError ''source entry exceeds the limit'')
            else Inr data)))"

text \<open>
  What follows the call of \<open>object\<close>. A nil object is not tested for: its \<open>info.Size()\<close> panics (after the
  deferred \<open>Close\<close> of the nil file, which only returns an error).
\<close>

definition source_of :: "bundle_lib \<Rightarrow> string \<Rightarrow> opened result \<Rightarrow> world \<Rightarrow> bytes result \<times> world" where
  "source_of lib sourcePath opened w1 =
     (case opened of
        Inl e \<Rightarrow> (Inl e, w1)
      | Inr None \<Rightarrow> (Inl (GoPanic ''nil pointer dereference''), w1)
      | Inr (Some (file, info)) \<Rightarrow>
        (case on_fs (\<lambda>fs. reader_of fs file) w1 of (input, w2) \<Rightarrow>
         let close = (\<lambda>r. (r, snd (on_fs (\<lambda>fs. f_Close fs file) w2))) in
         case zip_NewReader lib input (fi_Size info) of
           Inl e \<Rightarrow> close (Inl (Wrap ''opening source bundle'' e))
         | Inr files \<Rightarrow>
           (case bundleEntry lib files sourcePath of
              Inl e \<Rightarrow> close (Inl e)
            | Inr entry \<Rightarrow> close (readEntry entry))))"

definition SourceFile :: "service \<Rightarrow> bundle_lib \<Rightarrow> request \<Rightarrow> string \<Rightarrow> world \<Rightarrow> bytes result \<times> world" where
  "SourceFile s lib req sourcePath w = (case object s req w of (opened, w1) \<Rightarrow> source_of lib sourcePath opened w1)"

section \<open>Lemmas on paths\<close>

text \<open>Walking a path from the root, component by component.\<close>

definition visit :: "string list \<Rightarrow> string \<Rightarrow> string list" where
  "visit dir s = (if s = '''' \<or> s = ''.'' then dir else if s = ''..'' then butlast dir else dir @ [s])"

definition walk_components :: "string list \<Rightarrow> string list" where
  "walk_components ss = foldl visit [] ss"

definition source_components :: "string \<Rightarrow> string list" where
  "source_components p = split_slash (ReplaceAll p CHR 0x5C ''/'')"

lemma clean_segs_foldl:
  assumes "''..'' \<notin> set acc"
  shows "clean_segs True acc ss = foldl visit (rev acc) ss"
  using assms
proof (induction ss arbitrary: acc)
  case (Cons s ss)
  show ?case
  proof (cases acc)
    case Nil
    with Cons show ?thesis by (simp add: visit_def)
  next
    case (Cons a as)
    with Cons.prems Cons.IH [of acc] Cons.IH [of as] Cons.IH [of "s # acc"] show ?thesis
      by (auto simp: visit_def)
  qed
qed simp

lemma normalizeSourcePath_walk:
  "normalizeSourcePath p = abspath (walk_components (source_components p))"
proof -
  let ?p = "ReplaceAll p CHR 0x5C ''/''"
  note clean = clean_segs_foldl [of "[]", simplified]
  show ?thesis
  proof (cases "HasPrefix ?p ''/''")
    case True
    then obtain t where t: "?p = CHR ''/'' # t" by (auto simp: HasPrefix_iff)
    then show ?thesis
      by (simp add: normalizeSourcePath_def Let_def HasPrefix_def path_Clean_rooted clean walk_components_def
          source_components_def visit_def)
  next
    case False
    then show ?thesis
      by (simp add: normalizeSourcePath_def Let_def path_Clean_rooted clean walk_components_def source_components_def)
  qed
qed

lemma walk_ok: "list_all seg_ok (walk_components (source_components p))"
  using clean_rooted_ok [of "ReplaceAll p CHR 0x5C ''/''"] clean_segs_foldl [of "[]"]
  by (simp add: walk_components_def source_components_def)

lemma ReplaceAll_id: "c \<notin> set s \<Longrightarrow> ReplaceAll s c t = s"
  by (induction s) (auto simp: ReplaceAll_def)

lemma not_in_ReplaceAll: "c \<notin> set t \<Longrightarrow> c \<notin> set (ReplaceAll s c t)"
  by (induction s) (auto simp: ReplaceAll_def)

lemma set_split_slash: "\<forall>x \<in> set (split_slash s). set x \<subseteq> set s"
proof (induction s)
  case (Cons c s)
  then show ?case by (cases "split_slash s") auto
qed simp

lemma set_visit: "set (foldl visit dir ss) \<subseteq> set dir \<union> set ss"
proof (induction ss arbitrary: dir)
  case (Cons s ss)
  have "set (visit dir s) \<subseteq> insert s (set dir)" by (auto simp: visit_def dest: in_set_butlastD)
  with Cons.IH [of "visit dir s"] show ?case by auto
qed simp

lemma walk_no_backslash: "s \<in> set (walk_components (source_components p)) \<Longrightarrow> CHR 0x5C \<notin> set s"
  using set_visit [of "[]" "source_components p"] set_split_slash not_in_ReplaceAll [of "CHR 0x5C" "''/''" p]
  by (fastforce simp: walk_components_def source_components_def)

lemma foldl_visit_ok: "list_all seg_ok ss \<Longrightarrow> foldl visit dir ss = dir @ ss"
  by (induction ss arbitrary: dir) (auto simp: visit_def seg_ok_def)

lemma normalizeSourcePath_idem: "normalizeSourcePath (normalizeSourcePath p) = normalizeSourcePath p"
proof -
  let ?ss = "walk_components (source_components p)"
  have "CHR 0x5C \<notin> set (abspath ?ss)"
    using walk_no_backslash [of _ p] by (auto simp: abspath_def)
  then have "source_components (abspath ?ss) = split_slash (abspath ?ss)"
    by (simp add: source_components_def ReplaceAll_id)
  moreover have "walk_components (split_slash (abspath ?ss)) = ?ss"
    using split_abspath [OF walk_ok] foldl_visit_ok [OF walk_ok]
    by (cases "?ss = []") (simp_all add: walk_components_def visit_def abspath_def)
  ultimately show ?thesis unfolding normalizeSourcePath_walk by simp
qed

section \<open>Lemmas on bundles\<close>

lemma byName_Some: "byName files n = Some f \<Longrightarrow> f \<in> set files \<and> zf_Name f = n"
proof -
  have "fold (\<lambda>f m. m(zf_Name f \<mapsto> f)) files m n = Some f \<Longrightarrow> m n = Some f \<or> (f \<in> set files \<and> zf_Name f = n)" for m
  proof (induction files arbitrary: m)
    case (Cons a files)
    from Cons.IH [of "m(zf_Name a \<mapsto> a)"] Cons.prems show ?case by (auto split: if_splits)
  qed simp
  then show "byName files n = Some f \<Longrightarrow> f \<in> set files \<and> zf_Name f = n" by (auto simp: byName_def)
qed

lemma byName_None_iff: "byName files n = None \<longleftrightarrow> n \<notin> zf_Name ` set files"
proof -
  have "fold (\<lambda>f m. m(zf_Name f \<mapsto> f)) files m n = None \<longleftrightarrow> m n = None \<and> n \<notin> zf_Name ` set files" for m
    by (induction files arbitrary: m) (auto split: if_splits)
  then show ?thesis by (simp add: byName_def)
qed

lemma match_entry_Some:
  "match_entry m want es = Some f \<Longrightarrow> \<exists>n p. (n, p) \<in> set es \<and> normalizeSourcePath p = want \<and> m n = Some f"
  by (induction m want es rule: match_entry.induct) (auto split: if_splits option.splits)

lemma match_entry_None_iff:
  "match_entry m want es = None \<longleftrightarrow> (\<forall>(n, p) \<in> set es. normalizeSourcePath p = want \<longrightarrow> m n = None)"
  by (induction m want es rule: match_entry.induct) (auto split: option.splits)

lemma readEntry_Inr:
  "readEntry f = Inr d \<Longrightarrow> \<exists>rc. zf_Open f = Inr rc \<and> rd_end rc = AtEOF \<and> rd_rest rc = d \<and> length d \<le> maxSourceFileSize"
  by (auto simp: readEntry_def io_ReadAll_limit_def split: result_splits read_end.splits)

section \<open>Properties\<close>

text \<open>C34: a source file that is served is the whole content of a bundle entry, at most 64 MiB, that the
  bundle's manifest maps to the requested path; the bundle is the cached or stored object of the request.\<close>

theorem SourceFile_reads:
  assumes "SourceFile s lib req p w = (Inr data, w')" and "svc_ready s w" and "svc_fetcher s = S3_Fetch GetObject" and "solo s"
  shows "length data \<le> 64 * 2 ^ 20 \<and> (\<exists>d input files mf manifest n q f rc.
    source_bytes (s3_stored GetObject) s req w = Some d \<and> prefix (rd_rest input) d
    \<and> zip_NewReader lib input (int (length d)) = Inr files
    \<and> mf \<in> set files \<and> zf_Name mf = ''manifest.json'' \<and> readManifest lib mf = Inr manifest
    \<and> (n, q) \<in> set manifest \<and> normalizeSourcePath q = normalizeSourcePath p
    \<and> f \<in> set files \<and> zf_Name f = n \<and> zf_Open f = Inr rc \<and> rd_end rc = AtEOF \<and> rd_rest rc = data)"
proof -
  from assms(1) obtain fl info w1 input w2 files f where o: "object s req w = (Inr (Some (fl, info)), w1)"
    and i: "on_fs (\<lambda>fs. reader_of fs fl) w1 = (input, w2)" and z: "zip_NewReader lib input (fi_Size info) = Inr files"
    and e: "bundleEntry lib files p = Inr f" and d: "readEntry f = Inr data"
    by (auto simp: SourceFile_def source_of_def Let_def split: result_splits)
  note G = s3.object_grown(2) [OF o assms(2-4) refl]
  from G have op: "f_pos fl = 0" "fi_Size info = int (length (handle_bytes w1 (fl, info)))"
    by (simp_all add: opens_entry_def)
  note R = reader_of_start(3) [OF i op(1)]
  from e obtain mf manifest where m: "byName files bundleManifestName = Some mf" "readManifest lib mf = Inr manifest"
    "match_entry (byName files) (normalizeSourcePath p) manifest = Some f"
    by (auto simp: bundleEntry_def split: result_splits)
  from match_entry_Some [OF m(3)] obtain n q where n: "(n, q) \<in> set manifest"
    "normalizeSourcePath q = normalizeSourcePath p" "byName files n = Some f" by blast
  from readEntry_Inr [OF d] obtain rc where rc: "zf_Open f = Inr rc" "rd_end rc = AtEOF" "rd_rest rc = data"
    "length data \<le> maxSourceFileSize" by blast
  have "maxSourceFileSize = 64 * 2 ^ 20" by (simp add: maxSourceFileSize_def push_bit_eq_mult)
  with rc(4) have "length data \<le> 64 * 2 ^ 20" by simp
  moreover have "prefix (rd_rest input) (handle_bytes w1 (fl, info))" using R by (simp add: handle_bytes_def)
  moreover have "zip_NewReader lib input (int (length (handle_bytes w1 (fl, info)))) = Inr files"
    using z op(2) by simp
  ultimately show ?thesis
    using G m(2) n(1,2) rc(1-3) byName_Some [OF m(1)] byName_Some [OF n(3)] unfolding bundleManifestName_def by blast
qed

text \<open>\<open>bundleEntry\<close> reports a missing source exactly when the bundle has no manifest or its manifest maps no
  entry of the bundle to the path, whatever the order in which the manifest is ranged over.\<close>

lemma bundleEntry_not_found_iff:
  "bundleEntry lib files p = Inl ObjectsNotFound \<longleftrightarrow>
     (\<forall>f \<in> set files. zf_Name f \<noteq> ''manifest.json'')
     \<or> (\<exists>mf manifest. byName files ''manifest.json'' = Some mf \<and> readManifest lib mf = Inr manifest
         \<and> (\<forall>(n, q) \<in> set manifest. normalizeSourcePath q = normalizeSourcePath p \<longrightarrow> (\<forall>f \<in> set files. zf_Name f \<noteq> n)))"
proof (cases "byName files ''manifest.json''")
  case None
  then show ?thesis using byName_None_iff [of files "''manifest.json''"]
    by (simp add: bundleEntry_def bundleManifestName_def) force
next
  case (Some mf)
  then have has: "\<not> (\<forall>f \<in> set files. zf_Name f \<noteq> ''manifest.json'')" using byName_Some by fastforce
  have no: "(\<forall>f \<in> set files. zf_Name f \<noteq> n) \<longleftrightarrow> byName files n = None" for n
    using byName_None_iff [of files n] by auto
  show ?thesis
  proof (cases "readManifest lib mf")
    case (Inl e)
    then have "e \<noteq> ObjectsNotFound" by (auto simp: readManifest_def split: sum.splits)
    with Some Inl has show ?thesis by (simp add: bundleEntry_def bundleManifestName_def)
  next
    case (Inr manifest)
    with Some has match_entry_None_iff [of "byName files" "normalizeSourcePath p" manifest] show ?thesis
      by (auto simp: bundleEntry_def bundleManifestName_def no split: option.splits)
  qed
qed

text \<open>C35: two source paths are taken for the same file exactly when walking them from the root, with both kinds
  of slash as separators, ends at the same place; the normal form is absolute, has no empty, \<open>.\<close> or \<open>..\<close>
  component, and is its own normal form.\<close>

theorem normalizeSourcePath_canonical:
  "(normalizeSourcePath p = normalizeSourcePath q \<longleftrightarrow> walk_components (source_components p) = walk_components (source_components q))
   \<and> HasPrefix (normalizeSourcePath p) ''/'' \<and> list_all seg_ok (segs (normalizeSourcePath p))
   \<and> normalizeSourcePath (normalizeSourcePath p) = normalizeSourcePath p"
proof -
  let ?n = "normalizeSourcePath" and ?c = "\<lambda>p. walk_components (source_components p)"
  have s: "segs (?n p) = ?c p" for p by (simp add: normalizeSourcePath_walk walk_ok)
  have "?n p = ?n q \<longleftrightarrow> ?c p = ?c q" by (metis s normalizeSourcePath_walk)
  moreover have "HasPrefix (?n p) ''/''" by (simp add: normalizeSourcePath_walk abspath_join HasPrefix_def)
  ultimately show ?thesis using walk_ok [of p] normalizeSourcePath_idem [of p] by (simp add: s)
qed

section \<open>Witnesses\<close>

definition ex_entry :: zip_file where
  "ex_entry = \<lparr>zf_Name = ''e'', zf_Open = Inr \<lparr>rd_rest = [7], rd_end = AtEOF\<rparr>\<rparr>"

definition ex_manifest :: zip_file where
  "ex_manifest = \<lparr>zf_Name = ''manifest.json'', zf_Open = Inr \<lparr>rd_rest = [], rd_end = AtEOF\<rparr>\<rparr>"

definition ex_lib :: bundle_lib where
  "ex_lib = \<lparr>zip_NewReader = (\<lambda>_ _. Inr [ex_entry, ex_manifest]), json_Decode = (\<lambda>_. Inr [(''e'', ''/a/b.c'')])\<rparr>"

lemma ex_bundle: "bundleEntry ex_lib [ex_entry, ex_manifest] ''a/x/../b.c'' = Inr ex_entry"
  by (simp add: bundleEntry_def bundleManifestName_def byName_def ex_entry_def ex_manifest_def readManifest_def ex_lib_def
      normalizeSourcePath_def ReplaceAll_def HasPrefix_def path_Clean_def)

lemma ex_source_file: "\<exists>w'. SourceFile ex_svc ex_lib (ex_req ''a'') ''a/x/../b.c'' ex_world = (Inr [7], w')"
proof -
  from ex_fetch obtain q w1 where o: "object ex_svc (ex_req ''a'') ex_world = (Inr q, w1)" by (auto simp: Fetch_def)
  from s3.object_grown(3) [OF o ex_ready ex_svc_simps(2,6)] obtain fl info where q: "q = Some (fl, info)"
    by (cases q) auto
  have "readEntry ex_entry = Inr [7]"
    by (simp add: readEntry_def ex_entry_def io_ReadAll_limit_def maxSourceFileSize_def push_bit_eq_mult)
  with o q show ?thesis
    using ex_bundle by (auto simp: SourceFile_def source_of_def Let_def ex_lib_def split: prod.splits)
qed

lemma SourceFile_reads_witness:
  "\<exists>w'. SourceFile ex_svc ex_lib (ex_req ''a'') ''a/x/../b.c'' ex_world = (Inr [7], w') \<and> length [7 :: byte] \<le> 64 * 2 ^ 20"
proof -
  from ex_source_file obtain w' where f: "SourceFile ex_svc ex_lib (ex_req ''a'') ''a/x/../b.c'' ex_world = (Inr [7], w')" by blast
  from SourceFile_reads [OF f ex_ready ex_svc_simps(2,6)] f show ?thesis by blast
qed

lemma bundleEntry_not_found_iff_witness: "bundleEntry ex_lib [ex_entry] ''a'' = Inl ObjectsNotFound"
  using bundleEntry_not_found_iff [of ex_lib "[ex_entry]" "''a''"] by (simp add: ex_entry_def)

end
