(* ===== verification/Symstore.thy ===== *)
theory Symstore
  imports Resolver
begin

text \<open>
  Package \<open>symstore\<close>: the identifier normalisation of \<open>debugid.go\<close> and the path grammar of
  \<open>parse.go\<close>. A Go function returning \<open>(T, bool)\<close> is modelled by \<open>T option\<close>: on \<open>false\<close>
  the callers never look at the other result. Slices are taken with \<open>take\<close> and \<open>drop\<close> where
  the length test of the same function makes them total.
\<close>

section \<open>Constants (constants.go)\<close>

definition OctetStream :: string where
  "OctetStream = ''application/octet-stream''"

definition CABContentType :: string where
  "CABContentType = ''application/vnd.ms-cab-compressed''"

definition ZipContentType :: string where
  "ZipContentType = ''application/zip''"

definition prefixELFDebug :: string where
  "prefixELFDebug = ''elf-buildid-sym-''"

definition prefixELFCode :: string where
  "prefixELFCode = ''elf-buildid-''"

definition prefixMachDebug :: string where
  "prefixMachDebug = ''mach-uuid-sym-''"

definition prefixMachCode :: string where
  "prefixMachCode = ''mach-uuid-''"

definition extPDB :: string where
  "extPDB = ''.pdb''"

definition suffixSourceBundle :: string where
  "suffixSourceBundle = ''.src.zip''"

definition uuidHexLen :: nat where
  "uuidHexLen = 32"

definition uuidByteLen :: nat where
  "uuidByteLen = 16"

definition compressedExtensions :: "(string \<times> char) list" where
  "compressedExtensions = [(''pd_'', CHR ''b''), (''dl_'', CHR ''l''), (''ex_'', CHR ''e'')]"

section \<open>Identifiers (debugid.go)\<close>

definition isHexByte :: "char \<Rightarrow> bool" where
  "isHexByte c \<longleftrightarrow>
     \<not> ((c < CHR ''0'' \<or> c > CHR ''9'') \<and> (c < CHR ''a'' \<or> c > CHR ''f'')
        \<and> (c < CHR ''A'' \<or> c > CHR ''F''))"

definition isHex :: "string \<Rightarrow> bool" where
  "isHex s = (if s = '''' then False else list_all isHexByte s)"

text \<open>The canonical 8-4-4-4-12 form.\<close>

definition dashUUID :: "unicode_tables \<Rightarrow> string \<Rightarrow> string option" where
  "dashUUID uc h0 =
     (if length h0 \<noteq> uuidHexLen \<or> \<not> isHex h0 then None
      else let h = ToLower uc h0 in
        Some (take 8 h @ ''-'' @ take 4 (drop 8 h) @ ''-'' @ take 4 (drop 12 h) @ ''-''
              @ take 4 (drop 16 h) @ ''-'' @ drop 20 h))"

definition normalizePDB :: "unicode_tables \<Rightarrow> string \<Rightarrow> string option" where
  "normalizePDB uc sig =
     (if length sig < uuidHexLen then None
      else case dashUUID uc (take uuidHexLen sig) of
             None \<Rightarrow> None
           | Some uuid \<Rightarrow>
             (let age = ToLower uc (drop uuidHexLen sig) in
              if age \<noteq> '''' \<and> \<not> isHex age then None
              else let age' = TrimLeft age ''0'' in
                if age' = '''' then Some uuid else Some (uuid @ ''-'' @ age')))"

definition elfDebugID :: "unicode_tables \<Rightarrow> string \<Rightarrow> string option" where
  "elfDebugID uc buildID =
     (case hex_DecodeString buildID of
        None \<Rightarrow> None
      | Some b \<Rightarrow>
        (if length b < uuidByteLen then None
         else let swapped = [b ! 3, b ! 2, b ! 1, b ! 0, b ! 5, b ! 4, b ! 7, b ! 6,
                b ! 8, b ! 9, b ! 10, b ! 11, b ! 12, b ! 13, b ! 14, b ! 15]
           in dashUUID uc (hex_EncodeToString swapped)))"

text \<open>The pair is \<open>(simple, dashed)\<close>; \<open>dashed, _ = dashUUID(s)\<close> drops the flag.\<close>

definition normalizeUUID :: "unicode_tables \<Rightarrow> string \<Rightarrow> (string \<times> string) option" where
  "normalizeUUID uc s0 =
     (let s = ToLower uc (ReplaceAll s0 (CHR ''-'') '''') in
      if length s \<noteq> uuidHexLen \<or> \<not> isHex s then None
      else Some (s, case dashUUID uc s of Some dashed \<Rightarrow> dashed | None \<Rightarrow> ''''))"

section \<open>The path grammar (parse.go)\<close>

record serve =
  serve_ContentType :: string
  serve_CAB :: bool

definition elfRequest :: "unicode_tables \<Rightarrow> string \<Rightarrow> string \<Rightarrow> file_type \<Rightarrow> request option" where
  "elfRequest uc buildID filename ft =
     (if \<not> isHex buildID then None
      else let req = \<lparr>DebugID = '''', CodeID = ToLower uc buildID, Filename = filename, FileType = ft\<rparr>
        in case elfDebugID uc buildID of
             Some debugID \<Rightarrow> Some (req\<lparr>DebugID := debugID\<rparr>)
           | None \<Rightarrow> Some req)"

definition ELFRequest :: "unicode_tables \<Rightarrow> string \<Rightarrow> string \<Rightarrow> file_type \<Rightarrow> request option" where
  "ELFRequest uc buildID filename ft = elfRequest uc buildID filename ft"

definition machRequest :: "unicode_tables \<Rightarrow> string \<Rightarrow> string \<Rightarrow> file_type \<Rightarrow> request option" where
  "machRequest uc uuid filename ft =
     (case normalizeUUID uc uuid of
        None \<Rightarrow> None
      | Some (simple, dashed) \<Rightarrow>
          Some \<lparr>DebugID = dashed, CodeID = simple, Filename = filename, FileType = ft\<rparr>)"

definition baseIdentity :: "unicode_tables \<Rightarrow> string \<Rightarrow> string \<Rightarrow> bool \<Rightarrow> request option" where
  "baseIdentity uc signature filename pdbHint =
     (if HasPrefix signature prefixELFDebug then
        elfRequest uc (drop (length prefixELFDebug) signature) filename FileELFDebug
      else if HasPrefix signature prefixELFCode then
        elfRequest uc (drop (length prefixELFCode) signature) filename FileELFCode
      else if HasPrefix signature prefixMachDebug then
        machRequest uc (drop (length prefixMachDebug) signature) filename FileMachDebug
      else if HasPrefix signature prefixMachCode then
        machRequest uc (drop (length prefixMachCode) signature) filename FileMachCode
      else if pdbHint then
        (case normalizePDB uc signature of
           None \<Rightarrow> None
         | Some debugID \<Rightarrow>
             Some \<lparr>DebugID = debugID, CodeID = '''', Filename = filename, FileType = FilePDB\<rparr>)
      else if signature = '''' then None
      else Some \<lparr>DebugID = '''', CodeID = signature, Filename = filename, FileType = FilePE\<rparr>)"

definition isSourceBundle :: "unicode_tables \<Rightarrow> string \<Rightarrow> bool" where
  "isSourceBundle uc name = HasSuffix (ToLower uc name) suffixSourceBundle"

definition allUpper :: "string \<Rightarrow> bool" where
  "allUpper s = (if s = '''' then False else list_all (\<lambda>c. \<not> (c \<ge> CHR ''a'' \<and> c \<le> CHR ''z'')) s)"

text \<open>The search of \<open>compressedExtensions\<close>: the replacement byte of the first match.\<close>

fun matchExtension :: "unicode_tables \<Rightarrow> string \<Rightarrow> (string \<times> char) list \<Rightarrow> char option" where
  "matchExtension uc ext [] = None"
| "matchExtension uc ext ((suf, repl) # cs) =
     (if EqualFold uc ext suf then Some repl else matchExtension uc ext cs)"

text \<open>\<open>replacement -= 'a' - 'A'\<close> on a byte.\<close>

definition byte_to_upper :: "char \<Rightarrow> char" where
  "byte_to_upper c = char_of ((of_char c + 256 - 32) mod 256 :: nat)"

definition uncompressLeaf :: "unicode_tables \<Rightarrow> string \<Rightarrow> string option" where
  "uncompressLeaf uc leaf =
     (let dot = LastIndexByte leaf (CHR ''.'') in
      if dot < 0 then None
      else let ext = drop (nat dot + 1) leaf in
        case matchExtension uc ext compressedExtensions of
          None \<Rightarrow> None
        | Some replacement \<Rightarrow>
            (let r = (if allUpper (TrimRight ext ''_'') then byte_to_upper replacement else replacement)
             in Some (take (length leaf - 1) leaf @ [r])))"

definition Parse :: "unicode_tables \<Rightarrow> string \<Rightarrow> string \<Rightarrow> string \<Rightarrow> (request \<times> serve) option" where
  "Parse uc leading signature trailing =
     (case uncompressLeaf uc trailing of
        Some inner \<Rightarrow>
          (case baseIdentity uc signature inner (HasSuffix (ToLower uc inner) extPDB) of
             None \<Rightarrow> None
           | Some req \<Rightarrow> Some (req, \<lparr>serve_ContentType = CABContentType, serve_CAB = True\<rparr>))
      | None \<Rightarrow>
          (if isSourceBundle uc trailing then
             (case baseIdentity uc signature trailing True of
                None \<Rightarrow> None
              | Some req \<Rightarrow>
                  Some (req\<lparr>FileType := FileSourceBundle\<rparr>,
                        \<lparr>serve_ContentType = ZipContentType, serve_CAB = False\<rparr>))
           else
             (case baseIdentity uc signature trailing (HasSuffix (ToLower uc leading) extPDB) of
                None \<Rightarrow> None
              | Some req \<Rightarrow> Some (req, \<lparr>serve_ContentType = OctetStream, serve_CAB = False\<rparr>))))"

lemmas [go_eval] =
  OctetStream_def CABContentType_def ZipContentType_def prefixELFDebug_def prefixELFCode_def
  prefixMachDebug_def prefixMachCode_def extPDB_def suffixSourceBundle_def uuidHexLen_def
  uuidByteLen_def compressedExtensions_def isHexByte_def isHex_def dashUUID_def
  normalizePDB_def elfDebugID_def normalizeUUID_def elfRequest_def ELFRequest_def
  machRequest_def baseIdentity_def isSourceBundle_def allUpper_def byte_to_upper_def
  uncompressLeaf_def Parse_def

section \<open>Hexadecimal strings and the dashed form\<close>

lemma isHexByte_iff: "isHexByte c \<longleftrightarrow> hex_value c \<noteq> None"
  by (auto simp: isHexByte_def hex_value_def Let_def less_char_def)

lemma isHexByte_ascii: "isHexByte c \<Longrightarrow> is_ascii c"
  by (auto simp: isHexByte_iff hex_value_def is_ascii_def Let_def split: if_splits)

lemma hex_value_lower [simp]: "hex_value (ascii_lower c) = hex_value c"
  by (auto simp: hex_value_def of_char_ascii_lower Let_def)

lemma isHexByte_lower [simp]: "isHexByte (ascii_lower c) = isHexByte c"
  by (simp add: isHexByte_iff)

lemma isHex_iff: "isHex s \<longleftrightarrow> s \<noteq> '''' \<and> (\<forall>c \<in> set s. isHexByte c)"
  by (simp add: isHex_def list_all_iff)

lemma isHex_ascii: "isHex s \<Longrightarrow> list_all is_ascii s"
  by (auto simp: isHex_iff list_all_iff intro: isHexByte_ascii)

lemma ToLower_isHex: "isHex s \<Longrightarrow> ToLower uc s = map ascii_lower s"
  by (simp add: ToLower_ascii isHex_ascii)

lemma isHex_lower [simp]: "isHex (map ascii_lower s) = isHex s"
  by (auto simp: isHex_iff)

lemma isHex_dash_free: "isHex s \<Longrightarrow> CHR ''-'' \<notin> set s"
  by (auto simp: isHex_iff isHexByte_iff hex_value_def)

definition dash :: "string \<Rightarrow> string" where
  "dash h = take 8 h @ ''-'' @ take 4 (drop 8 h) @ ''-'' @ take 4 (drop 12 h) @ ''-''
     @ take 4 (drop 16 h) @ ''-'' @ drop 20 h"

lemma dashUUID_eq:
  "dashUUID uc h = (if length h = 32 \<and> isHex h then Some (dash (map ascii_lower h)) else None)"
  by (simp add: dashUUID_def dash_def Let_def uuidHexLen_def ToLower_isHex)

lemma length_dash: "length h = 32 \<Longrightarrow> length (dash h) = 36"
  by (simp add: dash_def)

lemma undash_dash: "CHR ''-'' \<notin> set h \<Longrightarrow> filter (\<lambda>c. c \<noteq> CHR ''-'') (dash h) = h"
proof -
  assume nd: "CHR ''-'' \<notin> set h"
  have f: "filter (\<lambda>c. c \<noteq> CHR ''-'') (take i (drop j h)) = take i (drop j h)" for i j
    using nd by (intro filter_True) (auto dest: in_set_takeD in_set_dropD)
  have "filter (\<lambda>c. c \<noteq> CHR ''-'') (dash h)
    = take 8 (drop 0 h) @ take 4 (drop 8 h) @ take 4 (drop 12 h) @ take 4 (drop 16 h) @ drop 20 h"
    using f [of 8 0] f [of 4 8] f [of 4 12] f [of 4 16] f [of "length h" 20]
    by (simp add: dash_def)
  also have "\<dots> = h"
    using append_take_drop_id [of 8 h] append_take_drop_id [of 4 "drop 8 h"]
      append_take_drop_id [of 4 "drop 12 h"] append_take_drop_id [of 4 "drop 16 h"]
    by simp
  finally show ?thesis .
qed

lemma dash_inject:
  "CHR ''-'' \<notin> set g \<Longrightarrow> CHR ''-'' \<notin> set h \<Longrightarrow> dash g = dash h \<longleftrightarrow> g = h"
  by (metis undash_dash)

text \<open>Under the documented tables, lowering neither makes nor hides a hexadecimal string.\<close>

lemma isHex_ToLower:
  assumes "unicode_ok uc"
  shows "isHex (ToLower uc s) = isHex s"
proof (cases "list_all is_ascii s")
  case True
  then show ?thesis by (simp add: ToLower_ascii)
next
  case False
  with ToLower_non_ascii [OF assms] obtain c
    where c: "c \<in> set (ToLower uc s)" "\<not> is_ascii c \<or> c = CHR ''i'' \<or> c = CHR ''k''" by blast
  then have "\<not> isHexByte c"
    by (auto dest: isHexByte_ascii) (simp_all add: isHexByte_iff hex_value_def)
  with c(1) have "\<not> isHex (ToLower uc s)" by (auto simp: isHex_iff)
  moreover from False have "\<not> isHex s" using isHex_ascii by blast
  ultimately show ?thesis by simp
qed

section \<open>PDB debug identifiers\<close>

text \<open>The value of a hexadecimal numeral.\<close>

definition hex_num :: "string \<Rightarrow> nat" where
  "hex_num s = foldl (\<lambda>n c. 16 * n + (case hex_value c of Some v \<Rightarrow> v | None \<Rightarrow> 0)) 0 s"

lemma hex_num_snoc:
  "hex_num (s @ [c]) = 16 * hex_num s + (case hex_value c of Some v \<Rightarrow> v | None \<Rightarrow> 0)"
  by (simp add: hex_num_def)

lemma hex_num_Nil [simp]: "hex_num '''' = 0"
  by (simp add: hex_num_def)

lemma hex_num_lower [simp]: "hex_num (map ascii_lower s) = hex_num s"
  by (induction s rule: rev_induct) (simp_all add: hex_num_snoc)

lemma hex_num_TrimLeft_0: "hex_num (TrimLeft s ''0'') = hex_num s"
proof (induction s)
  case (Cons c s)
  then show ?case
    by (cases "c = CHR ''0''") (simp_all add: TrimLeft_def hex_num_def hex_value_def)
qed (simp add: TrimLeft_def)

text \<open>A lower-case numeral without a leading zero is determined by its value.\<close>

definition hex_numeral :: "string \<Rightarrow> bool" where
  "hex_numeral s \<longleftrightarrow> (\<forall>c \<in> set s. isHexByte c \<and> ascii_lower c = c) \<and> (s = '''' \<or> hd s \<noteq> CHR ''0'')"

lemma hex_numeral_butlast: "hex_numeral (s @ [c]) \<Longrightarrow> hex_numeral s"
  by (cases s) (simp_all add: hex_numeral_def)

lemma hex_value_0: "isHexByte c \<Longrightarrow> hex_value c = Some 0 \<Longrightarrow> c = CHR ''0''"
proof -
  assume "hex_value c = Some 0"
  then have "(of_char c :: nat) = of_char (CHR ''0'')"
    by (auto simp: hex_value_def Let_def split: if_splits)
  then show ?thesis by (simp only: of_char_eq_iff)
qed

lemma hex_num_eq_0: "hex_numeral s \<Longrightarrow> hex_num s = 0 \<Longrightarrow> s = ''''"
proof (induction s rule: rev_induct)
  case (snoc c s)
  from snoc.prems have "isHexByte c" by (simp add: hex_numeral_def)
  then obtain v where v: "hex_value c = Some v" by (auto simp: isHexByte_iff)
  with snoc.prems have "v = 0" "s = ''''"
    using snoc.IH hex_numeral_butlast by (auto simp: hex_num_snoc)
  with v \<open>isHexByte c\<close> snoc.prems show ?case by (auto simp: hex_numeral_def dest: hex_value_0)
qed simp

lemma hex_num_inject:
  "hex_numeral s \<Longrightarrow> hex_numeral t \<Longrightarrow> hex_num s = hex_num t \<Longrightarrow> s = t"
proof (induction s arbitrary: t rule: rev_induct)
  case Nil
  then show ?case using hex_num_eq_0 [of t] by simp
next
  case (snoc c s)
  show ?case
  proof (cases t rule: rev_cases)
    case Nil
    with snoc.prems hex_num_eq_0 [of "s @ [c]"] show ?thesis by simp
  next
    case (snoc t' d)
    from \<open>hex_numeral (s @ [c])\<close> \<open>hex_numeral t\<close> snoc
    have "isHexByte c" "ascii_lower c = c" "isHexByte d" "ascii_lower d = d"
      by (auto simp: hex_numeral_def)
    then obtain v w where vw: "hex_value c = Some v" "hex_value d = Some w"
      by (auto simp: isHexByte_iff)
    note less = vw [THEN hex_value_less]
    from \<open>hex_num (s @ [c]) = hex_num t\<close> snoc vw
    have "16 * hex_num s + v = 16 * hex_num t' + w" by (simp add: hex_num_snoc)
    then have "(16 * hex_num s + v) div 16 = (16 * hex_num t' + w) div 16"
      and "(16 * hex_num s + v) mod 16 = (16 * hex_num t' + w) mod 16" by simp_all
    with less have "v = w" "hex_num s = hex_num t'" by simp_all
    moreover from vw \<open>v = w\<close> have "c = d"
      using hex_digit_value [OF vw(1)] hex_digit_value [OF vw(2)]
        \<open>ascii_lower c = c\<close> \<open>ascii_lower d = d\<close> by simp
    moreover have "s = t'"
      using snoc.IH [of t'] \<open>hex_num s = hex_num t'\<close> \<open>hex_numeral (s @ [c])\<close> \<open>hex_numeral t\<close> snoc
      by (auto dest: hex_numeral_butlast)
    ultimately show ?thesis using snoc by simp
  qed
qed

lemma hex_numeral_TrimLeft:
  assumes "\<forall>c \<in> set s. isHexByte c"
  shows "hex_numeral (TrimLeft (map ascii_lower s) ''0'')"
proof -
  let ?a = "TrimLeft (map ascii_lower s) ''0''"
  have "\<forall>c \<in> set ?a. isHexByte c \<and> ascii_lower c = c"
    using assms by (auto simp: TrimLeft_def dest!: set_dropWhileD)
  moreover have "?a = '''' \<or> hd ?a \<noteq> CHR ''0''"
    using hd_dropWhile [of "\<lambda>x. x \<in> set ''0''" "map ascii_lower s"]
    unfolding TrimLeft_def by fastforce
  ultimately show ?thesis by (simp add: hex_numeral_def)
qed

text \<open>The age appendix of a PDB identifier.\<close>

definition age_appendix :: "string \<Rightarrow> string" where
  "age_appendix age =
     (let a = TrimLeft (map ascii_lower age) ''0'' in if a = '''' then '''' else ''-'' @ a)"

lemma age_appendix_eq_iff:
  assumes "\<forall>c \<in> set s. isHexByte c" and "\<forall>c \<in> set t. isHexByte c"
  shows "age_appendix s = age_appendix t \<longleftrightarrow> hex_num s = hex_num t"
proof -
  let ?a = "TrimLeft (map ascii_lower s) ''0''" and ?b = "TrimLeft (map ascii_lower t) ''0''"
  have "age_appendix s = age_appendix t \<longleftrightarrow> ?a = ?b"
    by (simp add: age_appendix_def Let_def)
  also have "\<dots> \<longleftrightarrow> hex_num ?a = hex_num ?b"
    using hex_num_inject [OF hex_numeral_TrimLeft [OF assms(1)] hex_numeral_TrimLeft [OF assms(2)]]
    by auto
  finally show ?thesis by (simp add: hex_num_TrimLeft_0)
qed

lemma isHex_split:
  "isHex s \<longleftrightarrow> s \<noteq> '''' \<and> (\<forall>c \<in> set (take n s). isHexByte c) \<and> (\<forall>c \<in> set (drop n s). isHexByte c)"
proof -
  have "set s = set (take n s) \<union> set (drop n s)"
    by (metis append_take_drop_id set_append)
  then show ?thesis by (auto simp: isHex_iff)
qed

lemma ToLower_empty_iff: "unicode_ok uc \<Longrightarrow> ToLower uc s = '''' \<longleftrightarrow> s = ''''"
  using ToLower_non_ascii [of uc s]
  by (cases "list_all is_ascii s") (auto simp: ToLower_ascii)

lemma normalizePDB_eq:
  assumes "unicode_ok uc"
  shows "normalizePDB uc sig =
    (if 32 \<le> length sig \<and> isHex sig
     then Some (dash (map ascii_lower (take 32 sig)) @ age_appendix (drop 32 sig)) else None)"
proof (cases "32 \<le> length sig \<and> isHex (take 32 sig)")
  case True
  then have d: "dashUUID uc (take 32 sig) = Some (dash (map ascii_lower (take 32 sig)))"
    by (simp add: dashUUID_eq)
  let ?age = "drop 32 sig"
  have whole: "isHex sig \<longleftrightarrow> ?age = '''' \<or> isHex ?age"
    using True by (subst isHex_split [of sig 32]) (auto simp: isHex_iff)
  show ?thesis
  proof (cases "?age = '''' \<or> isHex ?age")
    case False
    with True whole show ?thesis
      by (simp add: normalizePDB_def uuidHexLen_def d Let_def isHex_ToLower [OF assms]
          ToLower_empty_iff [OF assms])
  next
    case hex: True
    then have "ToLower uc ?age = map ascii_lower ?age"
      by (auto simp: ToLower_isHex ToLower_ascii)
    with hex True whole show ?thesis
      by (simp add: normalizePDB_def uuidHexLen_def d Let_def age_appendix_def)
  qed
next
  case False
  then have "\<not> (32 \<le> length sig \<and> isHex sig)"
    by (subst isHex_split [of sig 32]) (auto simp: isHex_iff)
  with False show ?thesis
    by (auto simp: normalizePDB_def uuidHexLen_def dashUUID_eq)
qed

section \<open>Properties: identifiers\<close>

text \<open>\<open>normalizePDB\<close> accepts exactly the signatures of a 32-digit GUID and hexadecimal age.\<close>

lemma normalizePDB_defined_iff:
  assumes "unicode_ok uc"
  shows "normalizePDB uc sig \<noteq> None \<longleftrightarrow> 32 \<le> length sig \<and> isHex sig"
  by (simp add: normalizePDB_eq [OF assms])

text \<open>C31: two signatures name the same debug ID iff GUID equal up to case and ages equal as numbers.\<close>

theorem normalizePDB_eq_iff:
  assumes "unicode_ok uc"
    and "normalizePDB uc s = Some d" and "normalizePDB uc t = Some e"
  shows "d = e \<longleftrightarrow> map ascii_lower (take 32 s) = map ascii_lower (take 32 t)
    \<and> hex_num (drop 32 s) = hex_num (drop 32 t)"
proof -
  from assms have hex: "32 \<le> length s" "isHex s" "32 \<le> length t" "isHex t"
    and d: "d = dash (map ascii_lower (take 32 s)) @ age_appendix (drop 32 s)"
    and e: "e = dash (map ascii_lower (take 32 t)) @ age_appendix (drop 32 t)"
    by (auto simp: normalizePDB_eq split: if_splits)
  have nd: "CHR ''-'' \<notin> set (map ascii_lower (take 32 x))" if "isHex x" "32 \<le> length x" for x
  proof -
    from that have "isHex (map ascii_lower (take 32 x))"
      by (subst isHex_lower) (auto simp: isHex_iff dest: in_set_takeD)
    then show ?thesis by (rule isHex_dash_free)
  qed
  have ages: "\<forall>c \<in> set (drop 32 s). isHexByte c" "\<forall>c \<in> set (drop 32 t). isHexByte c"
    using hex by (auto simp: isHex_iff dest: in_set_dropD)
  have "length (dash (map ascii_lower (take 32 s))) = length (dash (map ascii_lower (take 32 t)))"
    using hex by (simp add: length_dash)
  then show ?thesis
    using nd [OF hex(2,1)] nd [OF hex(4,3)]
    by (simp add: d e dash_inject age_appendix_eq_iff [OF ages])
qed

lemma elfDebugID_SomeD:
  assumes "elfDebugID uc s = Some d"
  obtains b where "hex_DecodeString s = Some b" and "16 \<le> length b"
    and "d = dash (hex_EncodeToString [b ! 3, b ! 2, b ! 1, b ! 0, b ! 5, b ! 4, b ! 7, b ! 6,
           b ! 8, b ! 9, b ! 10, b ! 11, b ! 12, b ! 13, b ! 14, b ! 15])"
proof -
  have lower: "map ascii_lower (hex_EncodeToString bs) = hex_EncodeToString bs" for bs
    by (metis hex_decode_encode hex_encode_decode)
  from assms show ?thesis
    by (auto simp: elfDebugID_def uuidByteLen_def dashUUID_eq lower Let_def
        split: option.splits if_splits intro: that)
qed

lemma hex_EncodeToString_inject [simp]: "hex_EncodeToString a = hex_EncodeToString b \<longleftrightarrow> a = b"
  by (metis hex_decode_encode option.inject)

lemma hex_EncodeToString_dash_free: "CHR ''-'' \<notin> set (hex_EncodeToString bs)"
  using set_hex_EncodeToString [of "CHR ''-''" bs] by auto

lemma take_16_eq_iff:
  assumes "16 \<le> length a" and "16 \<le> length b"
  shows "take 16 a = take 16 b \<longleftrightarrow> [a ! 3, a ! 2, a ! 1, a ! 0, a ! 5, a ! 4, a ! 7, a ! 6,
      a ! 8, a ! 9, a ! 10, a ! 11, a ! 12, a ! 13, a ! 14, a ! 15]
    = [b ! 3, b ! 2, b ! 1, b ! 0, b ! 5, b ! 4, b ! 7, b ! 6,
      b ! 8, b ! 9, b ! 10, b ! 11, b ! 12, b ! 13, b ! 14, b ! 15]"
proof -
  have e: "[0..<16] = [0, 1, 2, 3, 4, 5, 6, 7, 8, 9, 10, 11, 12, 13, 14, 15 :: nat]"
    by code_simp
  have "take 16 x = map (nth x) [0..<16]" if "16 \<le> length x" for x :: "'a list"
    using that by (intro nth_equalityI) auto
  from this [OF assms(1)] this [OF assms(2)] show ?thesis unfolding e by auto
qed

text \<open>Two build-ids share a debug ID iff their first 16 bytes are equal.\<close>

lemma elfDebugID_eq_iff:
  assumes "elfDebugID uc s = Some d" and "elfDebugID uc t = Some e"
  shows "d = e \<longleftrightarrow> map ascii_lower (take 32 s) = map ascii_lower (take 32 t)"
proof -
  from assms(1) obtain a where a: "hex_DecodeString s = Some a" "16 \<le> length a"
    "d = dash (hex_EncodeToString [a ! 3, a ! 2, a ! 1, a ! 0, a ! 5, a ! 4, a ! 7, a ! 6,
      a ! 8, a ! 9, a ! 10, a ! 11, a ! 12, a ! 13, a ! 14, a ! 15])"
    by (rule elfDebugID_SomeD)
  from assms(2) obtain b where b: "hex_DecodeString t = Some b" "16 \<le> length b"
    "e = dash (hex_EncodeToString [b ! 3, b ! 2, b ! 1, b ! 0, b ! 5, b ! 4, b ! 7, b ! 6,
      b ! 8, b ! 9, b ! 10, b ! 11, b ! 12, b ! 13, b ! 14, b ! 15])"
    by (rule elfDebugID_SomeD)
  have tk: "hex_EncodeToString (take n bs) = take (2 * n) (hex_EncodeToString bs)" for n bs
    by (induction bs arbitrary: n) (simp_all add: hex_EncodeToString_def take_Cons' numeral_2_eq_2)
  have "map ascii_lower (take 32 s) = hex_EncodeToString (take 16 a)"
    and "map ascii_lower (take 32 t) = hex_EncodeToString (take 16 b)"
    using hex_encode_decode [OF a(1)] hex_encode_decode [OF b(1)] by (simp_all add: tk take_map)
  then show ?thesis
    by (simp add: a(3) b(3) dash_inject hex_EncodeToString_dash_free take_16_eq_iff [OF a(2) b(2)])
qed

text \<open>The display form of a debug identifier: a dashed lower-case GUID, with an age if non-zero.\<close>

definition canonical_debug_id :: "string \<Rightarrow> bool" where
  "canonical_debug_id d \<longleftrightarrow>
     (let u = filter (\<lambda>c. c \<noteq> CHR ''-'') (take 36 d); age = drop 36 d in
      length u = 32 \<and> (\<forall>c \<in> set u. isHexByte c \<and> ascii_lower c = c) \<and> take 36 d = dash u
      \<and> (age = '''' \<or> (hd age = CHR ''-'' \<and> tl age \<noteq> '''' \<and> hex_numeral (tl age))))"

lemma canonical_dash:
  assumes "length h = 32" and "isHex h"
  shows "canonical_debug_id (dash (map ascii_lower h))"
proof -
  let ?h = "map ascii_lower h"
  from assms have "isHex ?h" "length ?h = 32" by simp_all
  then have u: "filter (\<lambda>c. c \<noteq> CHR ''-'') (dash ?h) = ?h" "length (dash ?h) = 36"
    by (simp_all only: undash_dash isHex_dash_free length_dash not_False_eq_True)
  show ?thesis
    using assms u by (simp add: canonical_debug_id_def Let_def isHex_iff)
qed

lemma canonical_dash_age:
  assumes "length h = 32" and "isHex h" and "\<forall>c \<in> set age. isHexByte c"
  shows "canonical_debug_id (dash (map ascii_lower h) @ age_appendix age)"
proof -
  let ?h = "map ascii_lower h"
  from assms have "isHex ?h" "length ?h = 32" by simp_all
  then have u: "filter (\<lambda>c. c \<noteq> CHR ''-'') (dash ?h) = ?h" "length (dash ?h) = 36"
    by (simp_all only: undash_dash isHex_dash_free length_dash not_False_eq_True)
  show ?thesis
    using assms u hex_numeral_TrimLeft [OF assms(3)]
    by (simp add: canonical_debug_id_def Let_def isHex_iff age_appendix_def)
qed

lemma normalizePDB_canonical:
  assumes "unicode_ok uc" and "normalizePDB uc sig = Some d"
  shows "canonical_debug_id d"
proof -
  from assms have "32 \<le> length sig" "isHex sig"
    and d: "d = dash (map ascii_lower (take 32 sig)) @ age_appendix (drop 32 sig)"
    by (auto simp: normalizePDB_eq split: if_splits)
  then have "length (take 32 sig) = 32" "isHex (take 32 sig)" "\<forall>c \<in> set (drop 32 sig). isHexByte c"
    by (auto simp: isHex_iff dest: in_set_takeD in_set_dropD)
  then show ?thesis unfolding d by (rule canonical_dash_age)
qed

lemma elfDebugID_canonical:
  assumes "elfDebugID uc s = Some d"
  shows "canonical_debug_id d"
proof -
  from assms obtain h where "dashUUID uc h = Some d"
    by (auto simp: elfDebugID_def Let_def split: option.splits if_splits)
  then have "length h = 32" "isHex h" "d = dash (map ascii_lower h)"
    by (auto simp: dashUUID_eq split: if_splits)
  then show ?thesis by (simp add: canonical_dash)
qed

lemma normalizeUUID_eq:
  assumes "unicode_ok uc"
  shows "normalizeUUID uc s =
    (let h = filter (\<lambda>c. c \<noteq> CHR ''-'') s in
     if length h = 32 \<and> isHex h then Some (map ascii_lower h, dash (map ascii_lower h)) else None)"
proof -
  have r: "ReplaceAll s (CHR ''-'') '''' = filter (\<lambda>c. c \<noteq> CHR ''-'') s"
    by (induction s) (simp_all add: ReplaceAll_def)
  have idem: "map ascii_lower (map ascii_lower h) = map ascii_lower h" for h by simp
  let ?h = "filter (\<lambda>c. c \<noteq> CHR ''-'') s"
  show ?thesis
  proof (cases "isHex ?h")
    case True
    then have "isHex (map ascii_lower ?h)" "ToLower uc ?h = map ascii_lower ?h"
      by (simp_all only: isHex_lower ToLower_isHex)
    with True show ?thesis
      by (simp add: normalizeUUID_def r Let_def uuidHexLen_def dashUUID_eq idem del: map_map)
  next
    case False
    then have "\<not> isHex (ToLower uc ?h)" by (simp add: isHex_ToLower [OF assms])
    with False show ?thesis by (simp add: normalizeUUID_def r Let_def)
  qed
qed

lemma normalizeUUID_fixed:
  assumes "unicode_ok uc" and "normalizeUUID uc s = Some (simple, dashed)"
  shows "normalizeUUID uc dashed = Some (simple, dashed) \<and> normalizeUUID uc simple = Some (simple, dashed)"
proof -
  let ?h = "filter (\<lambda>c. c \<noteq> CHR ''-'') s"
  from assms have h: "length ?h = 32" "isHex ?h"
    and s: "simple = map ascii_lower ?h" and d: "dashed = dash simple"
    by (auto simp: normalizeUUID_eq Let_def split: if_splits)
  from h have hex: "isHex simple" "length simple = 32" unfolding s by (simp_all only: isHex_lower length_map)
  have "filter (\<lambda>c. c \<noteq> CHR ''-'') simple = simple"
    using isHex_dash_free [OF hex(1)] by (auto intro: filter_True)
  moreover have "filter (\<lambda>c. c \<noteq> CHR ''-'') dashed = simple"
    unfolding d by (rule undash_dash [OF isHex_dash_free [OF hex(1)]])
  moreover have "map ascii_lower simple = simple" by (simp add: s)
  ultimately show ?thesis
    using hex d by (simp add: normalizeUUID_eq [OF assms(1)] Let_def)
qed

text \<open>Both forms \<open>normalizeUUID\<close> returns are fixed points of it.\<close>

lemma normalizeUUID_roundtrip:
  assumes "unicode_ok uc" and "normalizeUUID uc s = Some (simple, dashed)"
  shows "normalizeUUID uc dashed = Some (simple, dashed) \<and> normalizeUUID uc simple = Some (simple, dashed)"
  by (rule normalizeUUID_fixed [OF assms])

section \<open>Properties: the path grammar\<close>

lemma elfRequest_SomeD:
  assumes "elfRequest uc b fn ft = Some req"
  shows "isHex b" and "CodeID req = map ascii_lower b" and "Filename req = fn" and "FileType req = ft"
    and "DebugID req = (case elfDebugID uc b of Some d \<Rightarrow> d | None \<Rightarrow> '''')"
  using assms
  by (auto simp: elfRequest_def ToLower_isHex Let_def split: if_splits option.splits)

lemma machRequest_SomeD:
  assumes "machRequest uc u fn ft = Some req"
  shows "normalizeUUID uc u = Some (CodeID req, DebugID req)" and "Filename req = fn" and "FileType req = ft"
  using assms by (auto simp: machRequest_def split: option.splits)

lemma canonical_nonempty: "canonical_debug_id d \<Longrightarrow> d \<noteq> ''''"
  by (auto simp: canonical_debug_id_def)

lemma normalizeUUID_canonical:
  assumes "unicode_ok uc" and "normalizeUUID uc s = Some (simple, dashed)"
  shows "canonical_debug_id dashed" and "simple \<noteq> ''''"
  using assms
  by (auto simp: normalizeUUID_eq Let_def canonical_dash isHex_iff simp del: map_is_Nil_conv split: if_splits)

definition identified :: "request \<Rightarrow> bool" where
  "identified req \<longleftrightarrow> (DebugID req \<noteq> '''' \<or> CodeID req \<noteq> '''')
     \<and> (DebugID req \<noteq> '''' \<longrightarrow> canonical_debug_id (DebugID req))"

lemma elfRequest_identified: "elfRequest uc b fn ft = Some req \<Longrightarrow> identified req"
  using elfRequest_SomeD [of uc b fn ft req]
  by (auto simp: identified_def isHex_iff dest: elfDebugID_canonical split: option.splits)

lemma machRequest_identified: "unicode_ok uc \<Longrightarrow> machRequest uc u fn ft = Some req \<Longrightarrow> identified req"
  using machRequest_SomeD [of uc u fn ft req] normalizeUUID_canonical [of uc u "CodeID req" "DebugID req"]
  by (auto simp: identified_def)

lemma baseIdentity_cases:
  assumes "baseIdentity uc sig fn hint = Some req"
  obtains (elf) b ft where "elfRequest uc b fn ft = Some req"
      and "(sig, ft) \<in> {(prefixELFDebug @ b, FileELFDebug), (prefixELFCode @ b, FileELFCode)}"
  | (mach) u ft where "machRequest uc u fn ft = Some req"
      and "(sig, ft) \<in> {(prefixMachDebug @ u, FileMachDebug), (prefixMachCode @ u, FileMachCode)}"
  | (pdb) d where "hint" and "normalizePDB uc sig = Some d"
      and "req = \<lparr>DebugID = d, CodeID = '''', Filename = fn, FileType = FilePDB\<rparr>"
  | (pe) "\<not> hint" and "sig \<noteq> ''''"
      and "req = \<lparr>DebugID = '''', CodeID = sig, Filename = fn, FileType = FilePE\<rparr>"
proof -
  have pre: "HasPrefix sig p \<Longrightarrow> sig = p @ drop (length p) sig" for p
    by (auto simp: HasPrefix_iff)
  from assms consider
      (1) "HasPrefix sig prefixELFDebug"
        "elfRequest uc (drop (length prefixELFDebug) sig) fn FileELFDebug = Some req"
    | (2) "HasPrefix sig prefixELFCode"
        "elfRequest uc (drop (length prefixELFCode) sig) fn FileELFCode = Some req"
    | (3) "HasPrefix sig prefixMachDebug"
        "machRequest uc (drop (length prefixMachDebug) sig) fn FileMachDebug = Some req"
    | (4) "HasPrefix sig prefixMachCode"
        "machRequest uc (drop (length prefixMachCode) sig) fn FileMachCode = Some req"
    | (5) d where "hint" "normalizePDB uc sig = Some d"
        "req = \<lparr>DebugID = d, CodeID = '''', Filename = fn, FileType = FilePDB\<rparr>"
    | (6) "\<not> hint" "sig \<noteq> ''''" "req = \<lparr>DebugID = '''', CodeID = sig, Filename = fn, FileType = FilePE\<rparr>"
    by (auto simp: baseIdentity_def split: if_splits option.splits)
  then show ?thesis
  proof cases
    case 1
    with pre show ?thesis by (intro elf [OF 1(2)]) auto
  next
    case 2
    with pre show ?thesis by (intro elf [OF 2(2)]) auto
  next
    case 3
    with pre show ?thesis by (intro mach [OF 3(2)]) auto
  next
    case 4
    with pre show ?thesis by (intro mach [OF 4(2)]) auto
  next
    case 5
    then show ?thesis by (rule pdb)
  next
    case 6
    then show ?thesis by (rule pe)
  qed
qed

lemma baseIdentity_identified:
  assumes "unicode_ok uc" and "baseIdentity uc sig fn hint = Some req"
  shows "identified req"
  using assms(2)
proof (cases rule: baseIdentity_cases)
  case (elf b ft)
  then show ?thesis by (blast intro: elfRequest_identified)
next
  case (mach u ft)
  then show ?thesis by (blast intro: machRequest_identified [OF assms(1)])
next
  case (pdb d)
  then show ?thesis
    using normalizePDB_canonical [OF assms(1)] canonical_nonempty by (simp add: identified_def)
next
  case pe
  then show ?thesis by (simp add: identified_def)
qed

lemma baseIdentity_Filename:
  assumes "baseIdentity uc sig fn hint = Some req"
  shows "Filename req = fn"
  using assms
  by (cases rule: baseIdentity_cases) (simp_all add: elfRequest_SomeD machRequest_SomeD)

lemma identified_FileType [simp]: "identified (req\<lparr>FileType := ft\<rparr>) = identified req"
  by (simp add: identified_def)

text \<open>C28: every request \<open>Parse\<close> yields names an object, and its debug ID is in display form.\<close>

theorem Parse_identified:
  assumes "unicode_ok uc" and "Parse uc leading sig trailing = Some (req, sv)"
  shows "identified req"
  using assms by (auto simp: Parse_def split: option.splits if_splits dest: baseIdentity_identified)

subsection \<open>Compressed leaf names\<close>

lemma ascii_lower_underscore [simp]: "ascii_lower c = CHR ''_'' \<longleftrightarrow> c = CHR ''_''"
proof -
  have "ascii_lower c = CHR ''_'' \<longleftrightarrow> (of_char (ascii_lower c) :: nat) = of_char (CHR ''_'')"
    by (simp only: of_char_eq_iff)
  also have "\<dots> \<longleftrightarrow> (of_char c :: nat) = of_char (CHR ''_'')"
    by (simp add: of_char_ascii_lower Let_def del: of_char_eq_iff)
  finally show ?thesis by (simp only: of_char_eq_iff)
qed

lemma is_ascii_ascii_lower_iff: "is_ascii (ascii_lower c) \<longleftrightarrow> is_ascii c"
  by (simp add: is_ascii_def of_char_ascii_lower Let_def)

lemma EqualFold_extension:
  assumes "unicode_ok uc" and "set suf \<inter> set ''kKsS'' = {}" and "list_all is_ascii suf"
    and "map ascii_lower suf = suf"
  shows "EqualFold uc ext suf \<longleftrightarrow> map ascii_lower ext = suf"
proof
  assume "EqualFold uc ext suf"
  moreover from EqualFold_ascii_right [OF assms(1) this assms(3,2)] have "list_all is_ascii ext" .
  ultimately show "map ascii_lower ext = suf"
    using assms by (simp add: EqualFold_ascii)
next
  assume lower: "map ascii_lower ext = suf"
  then have "list_all is_ascii ext"
    using assms(3) by (auto simp: list_all_iff is_ascii_ascii_lower_iff)
  with lower assms show "EqualFold uc ext suf" by (simp add: EqualFold_ascii)
qed

lemma matchExtension_eq:
  assumes "unicode_ok uc"
  shows "matchExtension uc ext compressedExtensions =
    (if map ascii_lower ext = ''pd_'' then Some (CHR ''b'')
     else if map ascii_lower ext = ''dl_'' then Some (CHR ''l'')
     else if map ascii_lower ext = ''ex_'' then Some (CHR ''e'') else None)"
  using EqualFold_extension [OF assms, of "''pd_''" ext] EqualFold_extension [OF assms, of "''dl_''" ext]
    EqualFold_extension [OF assms, of "''ex_''" ext]
  by (simp add: compressedExtensions_def is_ascii_def ascii_lower_def)

lemma lower_letter_upper_iff:
  assumes "ascii_lower c = d" and "CHR ''a'' \<le> d" and "d \<le> CHR ''z''"
  shows "\<not> (c \<ge> CHR ''a'' \<and> c \<le> CHR ''z'') \<longleftrightarrow> ascii_lower c \<noteq> c"
proof -
  have "(of_char d :: nat) = of_char (ascii_lower c)" using assms(1) by simp
  then have "(of_char d :: nat) = (let n = of_char c in if 65 \<le> n \<and> n \<le> 90 then n + 32 else n)"
    by (simp only: of_char_ascii_lower)
  moreover have "ascii_lower c = c \<longleftrightarrow> (of_char d :: nat) = of_char c"
    using assms(1) by auto
  ultimately show ?thesis
    using assms(2,3) by (auto simp: less_eq_char_def Let_def split: if_splits)
qed

lemma uncompressLeaf_ext:
  assumes "unicode_ok uc" and "(map ascii_lower [x, y], lo, up) \<in>
      {(''pd'', CHR ''b'', CHR ''B''), (''dl'', CHR ''l'', CHR ''L''), (''ex'', CHR ''e'', CHR ''E'')}"
  shows "uncompressLeaf uc (stem @ [CHR ''.'', x, y, CHR ''_'']) =
    Some (stem @ [CHR ''.'', x, y, if ascii_lower x \<noteq> x \<and> ascii_lower y \<noteq> y then up else lo])"
proof -
  let ?ext = "[x, y, CHR ''_'']"
  have dot: "LastIndexByte (stem @ CHR ''.'' # ?ext) (CHR ''.'') = int (length stem)"
    using assms(2) by (intro LastIndexByte_append) (auto simp: ascii_lower_def split: if_splits)
  have match: "matchExtension uc ?ext compressedExtensions = Some lo"
    using assms(2) by (auto simp: matchExtension_eq [OF assms(1)])
  have trim: "TrimRight ?ext ''_'' = [x, y]"
    using assms(2) by (auto simp: TrimRight_def ascii_lower_def split: if_splits)
  have "allUpper [x, y] \<longleftrightarrow> ascii_lower x \<noteq> x \<and> ascii_lower y \<noteq> y"
    using assms(2) lower_letter_upper_iff [of x] lower_letter_upper_iff [of y]
    by (auto simp: allUpper_def)
  moreover have "byte_to_upper lo = up"
    using assms(2) by (auto simp: byte_to_upper_def char_of_def bit_0)
  ultimately show ?thesis
    by (simp add: uncompressLeaf_def dot match trim Let_def nat_int_add)
qed

lemma uncompressLeaf_eq:
  assumes "unicode_ok uc"
  shows "uncompressLeaf uc leaf = Some inner \<longleftrightarrow>
    (\<exists>stem x y lo up. leaf = stem @ [CHR ''.'', x, y, CHR ''_'']
      \<and> (map ascii_lower [x, y], lo, up) \<in>
          {(''pd'', CHR ''b'', CHR ''B''), (''dl'', CHR ''l'', CHR ''L''), (''ex'', CHR ''e'', CHR ''E'')}
      \<and> inner = stem @ [CHR ''.'', x, y, if ascii_lower x \<noteq> x \<and> ascii_lower y \<noteq> y then up else lo])"
    (is "?L \<longleftrightarrow> ?R")
proof
  assume ?R
  then obtain stem x y lo up where
    "leaf = stem @ [CHR ''.'', x, y, CHR ''_'']"
    "inner = stem @ [CHR ''.'', x, y, if ascii_lower x \<noteq> x \<and> ascii_lower y \<noteq> y then up else lo]"
    and "(map ascii_lower [x, y], lo, up) \<in>
      {(''pd'', CHR ''b'', CHR ''B''), (''dl'', CHR ''l'', CHR ''L''), (''ex'', CHR ''e'', CHR ''E'')}"
    by (elim exE conjE) (rule that)
  with uncompressLeaf_ext [OF assms this(3), of stem] show ?L by (simp only:)
next
  assume L: ?L
  then have "0 \<le> LastIndexByte leaf (CHR ''.'')"
    by (auto simp: uncompressLeaf_def Let_def split: if_splits)
  then obtain stem ext where leaf: "leaf = stem @ CHR ''.'' # ext"
    and dot: "LastIndexByte leaf (CHR ''.'') = int (length stem)"
    by (rule LastIndexByte_split)
  from L obtain r where "matchExtension uc ext compressedExtensions = Some r"
    by (auto simp: uncompressLeaf_def leaf dot [unfolded leaf] Let_def nat_int_add split: option.splits)
  then have "map ascii_lower ext \<in> {''pd_'', ''dl_'', ''ex_''}"
    by (auto simp: matchExtension_eq [OF assms] split: if_splits)
  then obtain x y where ext: "ext = [x, y, CHR ''_'']"
    and xy: "map ascii_lower [x, y] \<in> {''pd'', ''dl'', ''ex''}"
    by (auto simp: map_eq_Cons_conv)
  then obtain lo up where "(map ascii_lower [x, y], lo, up) \<in>
      {(''pd'', CHR ''b'', CHR ''B''), (''dl'', CHR ''l'', CHR ''L''), (''ex'', CHR ''e'', CHR ''E'')}"
    by auto
  note xy = this
  with uncompressLeaf_ext [OF assms xy, of stem] L
  have "inner = stem @ [CHR ''.'', x, y, if ascii_lower x \<noteq> x \<and> ascii_lower y \<noteq> y then up else lo]"
    by (simp only: leaf ext option.inject)
  with xy leaf ext show ?R
    by (intro exI conjI) (assumption | simp only:)+
qed

text \<open>The leaves it does not take.\<close>

lemma uncompressLeaf_None:
  assumes "unicode_ok uc"
  shows "uncompressLeaf uc leaf = None \<longleftrightarrow>
    \<not> (\<exists>stem x y. leaf = stem @ [CHR ''.'', x, y, CHR ''_''] \<and> map ascii_lower [x, y] \<in> {''pd'', ''dl'', ''ex''})"
    (is "_ \<longleftrightarrow> \<not> ?E")
proof
  assume none: "uncompressLeaf uc leaf = None"
  show "\<not> ?E"
  proof
    assume ?E
    then obtain stem x y where leaf: "leaf = stem @ [CHR ''.'', x, y, CHR ''_'']"
      and xy: "map ascii_lower [x, y] \<in> {''pd'', ''dl'', ''ex''}" by (elim exE conjE) (rule that)
    from xy obtain lo up where "(map ascii_lower [x, y], lo, up) \<in>
        {(''pd'', CHR ''b'', CHR ''B''), (''dl'', CHR ''l'', CHR ''L''), (''ex'', CHR ''e'', CHR ''E'')}" by auto
    from uncompressLeaf_ext [OF assms this, of stem] none show False by (simp only: leaf option.distinct)
  qed
next
  assume no: "\<not> ?E"
  show "uncompressLeaf uc leaf = None"
  proof (rule ccontr)
    assume "uncompressLeaf uc leaf \<noteq> None"
    then obtain inner where "uncompressLeaf uc leaf = Some inner" by blast
    then obtain stem x y lo up where leaf: "leaf = stem @ [CHR ''.'', x, y, CHR ''_'']"
      and xy: "(map ascii_lower [x, y], lo, up) \<in>
        {(''pd'', CHR ''b'', CHR ''B''), (''dl'', CHR ''l'', CHR ''L''), (''ex'', CHR ''e'', CHR ''E'')}"
      unfolding uncompressLeaf_eq [OF assms] by (elim exE conjE) (rule that)
    from xy have "map ascii_lower [x, y] \<in> {''pd'', ''dl'', ''ex''}" by auto
    with leaf have ?E by (intro exI conjI)
    with no show False ..
  qed
qed

lemma uncompressLeaf_result:
  assumes "unicode_ok uc" and "uncompressLeaf uc leaf = Some inner"
  shows "uncompressLeaf uc inner = None" and "length inner = length leaf"
proof -
  from assms(2) obtain stem x y lo up where
    leaf: "leaf = stem @ [CHR ''.'', x, y, CHR ''_'']"
    and inner: "inner = stem @ [CHR ''.'', x, y, if ascii_lower x \<noteq> x \<and> ascii_lower y \<noteq> y then up else lo]"
    and "(map ascii_lower [x, y], lo, up) \<in>
      {(''pd'', CHR ''b'', CHR ''B''), (''dl'', CHR ''l'', CHR ''L''), (''ex'', CHR ''e'', CHR ''E'')}"
    unfolding uncompressLeaf_eq [OF assms(1)] by (elim exE conjE) (rule that)
  then have "lo \<noteq> CHR ''_''" "up \<noteq> CHR ''_''" by auto
  then have "last inner \<noteq> CHR ''_''" by (simp add: inner)
  moreover have "last inner = CHR ''_''" if u: "uncompressLeaf uc inner = Some s" for s
  proof -
    from u obtain stem' x' y' where "inner = stem' @ [CHR ''.'', x', y', CHR ''_'']"
      unfolding uncompressLeaf_eq [OF assms(1)] by (elim exE conjE) (rule that)
    then show ?thesis by simp
  qed
  ultimately show "uncompressLeaf uc inner = None"
    by (cases "uncompressLeaf uc inner") auto
  show "length inner = length leaf" by (simp add: leaf inner)
qed

text \<open>The names \<open>uncompressLeaf\<close> accepts and the name it returns, with the letter case.\<close>

lemma uncompressLeaf_iff:
  assumes "unicode_ok uc"
  shows "uncompressLeaf uc leaf = Some inner \<longleftrightarrow>
    (\<exists>stem x y lo up. leaf = stem @ [CHR ''.'', x, y, CHR ''_'']
      \<and> (map ascii_lower [x, y], lo, up) \<in>
          {(''pd'', CHR ''b'', CHR ''B''), (''dl'', CHR ''l'', CHR ''L''), (''ex'', CHR ''e'', CHR ''E'')}
      \<and> inner = stem @ [CHR ''.'', x, y, if ascii_lower x \<noteq> x \<and> ascii_lower y \<noteq> y then up else lo])"
  by (rule uncompressLeaf_eq [OF assms])

text \<open>C29: a leaf is served as a CAB exactly when it ends in a dot, \<open>pd\<close>, \<open>dl\<close> or \<open>ex\<close> in any case, and an
  underscore; the object is then looked for under the name whose last byte is the missing \<open>b\<close>, \<open>l\<close> or \<open>e\<close>,
  upper-case exactly when both other letters are, and otherwise under the leaf itself. Of the other leaves
  those in \<open>.src.zip\<close> are bundles, served as zip, and the rest is served as it is.\<close>

theorem Parse_serving:
  assumes "unicode_ok uc" and "Parse uc leading sig trailing = Some (req, sv)"
  shows "(serve_CAB sv \<longleftrightarrow> (\<exists>stem x y. trailing = stem @ [CHR ''.'', x, y, CHR ''_'']
        \<and> map ascii_lower [x, y] \<in> {''pd'', ''dl'', ''ex''}))
    \<and> (serve_CAB sv \<longrightarrow> (\<exists>stem x y lo up. trailing = stem @ [CHR ''.'', x, y, CHR ''_'']
        \<and> (map ascii_lower [x, y], lo, up) \<in>
            {(''pd'', CHR ''b'', CHR ''B''), (''dl'', CHR ''l'', CHR ''L''), (''ex'', CHR ''e'', CHR ''E'')}
        \<and> Filename req = stem @ [CHR ''.'', x, y, if ascii_lower x \<noteq> x \<and> ascii_lower y \<noteq> y then up else lo]))
    \<and> (\<not> serve_CAB sv \<longrightarrow> Filename req = trailing)
    \<and> uncompressLeaf uc (Filename req) = None
    \<and> serve_ContentType sv =
        (if serve_CAB sv then CABContentType
         else if FileType req = FileSourceBundle then ZipContentType else OctetStream)
    \<and> (FileType req = FileSourceBundle \<longleftrightarrow> \<not> serve_CAB sv \<and> HasSuffix (ToLower uc trailing) ''.src.zip'')"
proof -
  have ft: "FileType r \<noteq> FileSourceBundle" if "baseIdentity uc sig fn hint = Some r" for fn hint r
    using that by (cases rule: baseIdentity_cases) (auto simp: elfRequest_SomeD machRequest_SomeD)
  note zip = isSourceBundle_def suffixSourceBundle_def
  show ?thesis
  proof (cases "uncompressLeaf uc trailing")
    case None
    with assms(2) ft have "\<not> serve_CAB sv" "Filename req = trailing" "serve_ContentType sv =
        (if FileType req = FileSourceBundle then ZipContentType else OctetStream)"
      "FileType req = FileSourceBundle \<longleftrightarrow> isSourceBundle uc trailing"
      by (auto simp: Parse_def baseIdentity_Filename split: if_splits option.splits)
    with None uncompressLeaf_None [OF assms(1), of trailing] show ?thesis by (simp add: zip)
  next
    case (Some inner)
    with assms(2) ft have "serve_CAB sv" "Filename req = inner" "serve_ContentType sv = CABContentType"
      "FileType req \<noteq> FileSourceBundle"
      by (auto simp: Parse_def baseIdentity_Filename split: option.splits)
    with Some uncompressLeaf_result(1) [OF assms(1) Some] uncompressLeaf_None [OF assms(1), of trailing]
      Some [unfolded uncompressLeaf_eq [OF assms(1)]] show ?thesis by simp
  qed
qed

subsection \<open>Canonical signatures\<close>

text \<open>The signature an object would be requested under, from its request.\<close>

definition render_signature :: "request \<Rightarrow> string" where
  "render_signature req =
     (case FileType req of
        FileELFDebug \<Rightarrow> prefixELFDebug @ CodeID req
      | FileELFCode \<Rightarrow> prefixELFCode @ CodeID req
      | FileMachDebug \<Rightarrow> prefixMachDebug @ CodeID req
      | FileMachCode \<Rightarrow> prefixMachCode @ CodeID req
      | FilePDB \<Rightarrow> filter (\<lambda>c. c \<noteq> CHR ''-'') (DebugID req)
      | _ \<Rightarrow> CodeID req)"

lemma hex_DecodeString_lower [simp]: "hex_DecodeString (map ascii_lower s) = hex_DecodeString s"
  by (induction s rule: hex_DecodeString.induct) simp_all

lemma elfRequest_lower: "elfRequest uc (map ascii_lower b) fn ft = elfRequest uc b fn ft"
proof (cases "isHex b")
  case True
  then have "isHex (map ascii_lower b)" by (simp only: isHex_lower)
  with True show ?thesis
    by (simp add: elfRequest_def elfDebugID_def ToLower_isHex comp_def)
qed (simp add: elfRequest_def)

lemma HasPrefix_append_append [simp]: "HasPrefix (p @ s) (p @ q) = HasPrefix s q"
  by (auto simp: HasPrefix_iff)

lemma prefixELFDebug_eq: "prefixELFDebug = prefixELFCode @ ''sym-''"
  by (simp add: prefixELFDebug_def prefixELFCode_def)

lemma prefixMachDebug_eq: "prefixMachDebug = prefixMachCode @ ''sym-''"
  by (simp add: prefixMachDebug_def prefixMachCode_def)

lemma isHex_no_sym: "isHex b \<Longrightarrow> \<not> HasPrefix b ''sym-''"
  by (auto simp: HasPrefix_iff isHex_iff isHexByte_iff hex_value_def)

lemma baseIdentity_prefixed:
  shows "baseIdentity uc (prefixELFDebug @ b) fn hint = elfRequest uc b fn FileELFDebug"
    and "isHex b \<Longrightarrow> baseIdentity uc (prefixELFCode @ b) fn hint = elfRequest uc b fn FileELFCode"
    and "baseIdentity uc (prefixMachDebug @ b) fn hint = machRequest uc b fn FileMachDebug"
    and "isHex b \<Longrightarrow> baseIdentity uc (prefixMachCode @ b) fn hint = machRequest uc b fn FileMachCode"
proof -
  have mach: "\<not> HasPrefix (prefixMachCode @ s) prefixELFCode" "\<not> HasPrefix (prefixMachCode @ s) prefixELFDebug"
    for s by (simp_all add: HasPrefix_def prefixMachCode_def prefixELFCode_def prefixELFDebug_def)
  show "baseIdentity uc (prefixELFDebug @ b) fn hint = elfRequest uc b fn FileELFDebug"
    by (simp add: baseIdentity_def)
  show "isHex b \<Longrightarrow> baseIdentity uc (prefixELFCode @ b) fn hint = elfRequest uc b fn FileELFCode"
    by (simp add: baseIdentity_def isHex_no_sym prefixELFDebug_eq)
  show "baseIdentity uc (prefixMachDebug @ b) fn hint = machRequest uc b fn FileMachDebug"
    using mach [of "''sym-'' @ b"] HasPrefix_append [of "''sym-''" b]
    by (simp add: baseIdentity_def prefixMachDebug_eq)
  show "isHex b \<Longrightarrow> baseIdentity uc (prefixMachCode @ b) fn hint = machRequest uc b fn FileMachCode"
    using mach [of b] isHex_no_sym by (simp add: baseIdentity_def prefixMachDebug_eq)
qed

lemma isHex_not_prefixed:
  assumes "isHex s"
  shows "\<not> HasPrefix s prefixELFDebug" "\<not> HasPrefix s prefixELFCode"
    "\<not> HasPrefix s prefixMachDebug" "\<not> HasPrefix s prefixMachCode"
  using assms
  by (auto simp: HasPrefix_iff isHex_iff isHexByte_iff hex_value_def prefixELFDebug_def
      prefixELFCode_def prefixMachDebug_def prefixMachCode_def)

lemma filter_dash_appendix:
  assumes "isHex sig" and "32 \<le> length sig"
  defines "s \<equiv> filter (\<lambda>c. c \<noteq> CHR ''-'') (dash (map ascii_lower (take 32 sig)) @ age_appendix (drop 32 sig))"
  shows "s = map ascii_lower (take 32 sig) @ TrimLeft (map ascii_lower (drop 32 sig)) ''0''"
    and "isHex s" and "take 32 s = map ascii_lower (take 32 sig)"
    and "drop 32 s = TrimLeft (map ascii_lower (drop 32 sig)) ''0''"
proof -
  let ?g = "map ascii_lower (take 32 sig)" and ?a = "TrimLeft (map ascii_lower (drop 32 sig)) ''0''"
  have g: "isHex ?g"
    using assms(1,2) by (subst isHex_lower) (auto simp: isHex_iff dest: in_set_takeD)
  have a: "\<forall>c \<in> set ?a. isHexByte c"
    using assms(1) by (auto simp: TrimLeft_def isHex_iff dest!: set_dropWhileD in_set_dropD)
  then have "CHR ''-'' \<notin> set ?a" by (auto simp: isHexByte_iff hex_value_def)
  then have "filter (\<lambda>c. c \<noteq> CHR ''-'') ?a = ?a" by (auto intro: filter_True)
  then have "filter (\<lambda>c. c \<noteq> CHR ''-'') (age_appendix (drop 32 sig)) = ?a"
    by (simp add: age_appendix_def Let_def)
  with undash_dash [OF isHex_dash_free [OF g]] show s: "s = ?g @ ?a" by (simp add: s_def)
  show "isHex s" using g a unfolding s isHex_iff by auto
  show "take 32 s = ?g" and "drop 32 s = ?a" using assms(2) by (simp_all add: s)
qed

lemma TrimLeft_idem: "TrimLeft (TrimLeft s c) c = TrimLeft s c"
  unfolding TrimLeft_def by (simp add: dropWhile_idem)

lemma normalizePDB_render:
  assumes "unicode_ok uc" and "normalizePDB uc sig = Some d"
  shows "normalizePDB uc (filter (\<lambda>c. c \<noteq> CHR ''-'') d) = Some d" and "isHex (filter (\<lambda>c. c \<noteq> CHR ''-'') d)"
proof -
  from assms have hex: "isHex sig" "32 \<le> length sig"
    and d: "d = dash (map ascii_lower (take 32 sig)) @ age_appendix (drop 32 sig)"
    by (auto simp: normalizePDB_eq split: if_splits)
  note f = filter_dash_appendix [OF hex, folded d]
  show "isHex (filter (\<lambda>c. c \<noteq> CHR ''-'') d)" by (rule f(2))
  have low: "map ascii_lower (TrimLeft (map ascii_lower (drop 32 sig)) ''0'')
      = TrimLeft (map ascii_lower (drop 32 sig)) ''0''"
    by (auto simp: TrimLeft_def intro!: map_idem dest!: set_dropWhileD)
  have "age_appendix (TrimLeft (map ascii_lower (drop 32 sig)) ''0'') = age_appendix (drop 32 sig)"
    unfolding age_appendix_def low TrimLeft_idem ..
  moreover have "32 \<le> length (filter (\<lambda>c. c \<noteq> CHR ''-'') d)"
    using hex(2) by (subst f(1)) simp
  ultimately show "normalizePDB uc (filter (\<lambda>c. c \<noteq> CHR ''-'') d) = Some d"
    using f(2) by (simp add: normalizePDB_eq [OF assms(1)] f(3,4)) (simp add: d)
qed

text \<open>C30: re-parsing the signature of a parsed request gives the same request.\<close>

theorem baseIdentity_roundtrip:
  assumes "unicode_ok uc" and "baseIdentity uc sig fn hint = Some req"
  shows "baseIdentity uc (render_signature req) fn hint = Some req"
  using assms(2)
proof (cases rule: baseIdentity_cases)
  case (elf b ft)
  note e = elfRequest_SomeD [OF elf(1)]
  then have "isHex (map ascii_lower b)" by (simp only: isHex_lower)
  with elf e show ?thesis
    by (auto simp: render_signature_def baseIdentity_prefixed elfRequest_lower simp del: isHex_lower)
next
  case (mach u ft)
  note m = machRequest_SomeD [OF mach(1)]
  from m(1) have "isHex (CodeID req)"
    by (auto simp: normalizeUUID_def Let_def split: if_splits)
  moreover from normalizeUUID_fixed [OF assms(1) m(1)] mach
  have "machRequest uc (CodeID req) fn ft = Some req"
    by (simp add: machRequest_def m(1))
  ultimately show ?thesis
    using mach m by (auto simp: render_signature_def baseIdentity_prefixed)
next
  case (pdb d)
  from normalizePDB_render [OF assms(1) pdb(2)] pdb isHex_not_prefixed show ?thesis
    by (simp add: render_signature_def baseIdentity_def)
next
  case pe
  with assms(2) show ?thesis by (simp add: render_signature_def)
qed

section \<open>Witnesses\<close>

lemma normalizePDB_defined_iff_witness:
  "normalizePDB ascii_tables ''0123456789abcdef0123456789abcdeF2'' \<noteq> None"
  using normalizePDB_defined_iff [of ascii_tables "''0123456789abcdef0123456789abcdeF2''"]
  by (simp add: go_eval)

lemma normalizePDB_age_2:
  "normalizePDB ascii_tables ''0123456789abcdef0123456789abcdeF2'' = Some ''01234567-89ab-cdef-0123-456789abcdef-2''"
  "normalizePDB ascii_tables ''0123456789ABCDEF0123456789abcdef002'' = Some ''01234567-89ab-cdef-0123-456789abcdef-2''"
  by (simp_all add: go_eval)

lemma normalizePDB_eq_iff_witness: "hex_num ''2'' = hex_num ''002''"
  using normalizePDB_eq_iff [OF unicode_ok_ascii_tables normalizePDB_age_2]
  by (simp add: go_eval)

lemma elfDebugID_ex:
  "elfDebugID ascii_tables ''000102030405060708090a0b0c0d0e0f10'' = Some ''03020100-0504-0706-0809-0a0b0c0d0e0f''"
  "elfDebugID ascii_tables ''000102030405060708090A0B0C0D0E0F20'' = Some ''03020100-0504-0706-0809-0a0b0c0d0e0f''"
  by (simp_all add: go_eval)

lemma elfDebugID_eq_iff_witness:
  "map ascii_lower (take 32 ''000102030405060708090a0b0c0d0e0f10'')
    = map ascii_lower (take 32 ''000102030405060708090A0B0C0D0E0F20'')"
  using elfDebugID_eq_iff [OF elfDebugID_ex] by simp

lemma normalizeUUID_ex:
  "normalizeUUID ascii_tables ''3F2504E0-4F8911D3-9A0C0305E82C3301''
    = Some (''3f2504e04f8911d39a0c0305e82c3301'', ''3f2504e0-4f89-11d3-9a0c-0305e82c3301'')"
  by (simp add: go_eval)

lemma normalizeUUID_roundtrip_witness:
  "normalizeUUID ascii_tables ''3f2504e04f8911d39a0c0305e82c3301''
    = Some (''3f2504e04f8911d39a0c0305e82c3301'', ''3f2504e0-4f89-11d3-9a0c-0305e82c3301'')"
  using normalizeUUID_roundtrip [OF unicode_ok_ascii_tables normalizeUUID_ex] by simp

definition ex_req :: request where
  "ex_req = \<lparr>DebugID = ''01234567-89ab-cdef-0123-456789abcdef-1'', CodeID = '''', Filename = ''app.pdb'',
     FileType = FilePDB\<rparr>"

lemma Parse_ex:
  "Parse ascii_tables ''app.pdb'' ''0123456789abcdef0123456789abcdef1'' ''app.PD_'' =
    Some (ex_req\<lparr>Filename := ''app.PDB''\<rparr>, \<lparr>serve_ContentType = CABContentType, serve_CAB = True\<rparr>)"
  by (simp add: go_eval ex_req_def)

lemma baseIdentity_ex:
  "baseIdentity ascii_tables ''0123456789abcdef0123456789abcdef1'' ''app.pdb'' True = Some ex_req"
  by (simp add: go_eval ex_req_def)

lemma Parse_identified_witness: "identified (ex_req\<lparr>Filename := ''app.PDB''\<rparr>)"
  using Parse_identified [OF unicode_ok_ascii_tables Parse_ex] .

lemma uncompressLeaf_iff_witness: "uncompressLeaf ascii_tables ''app.pd_'' \<noteq> Some ''app.pdB''"
  using uncompressLeaf_iff [OF unicode_ok_ascii_tables, of "''app.pd_''" "''app.pdB''"]
  by (simp add: go_eval)

lemma Parse_serving_witness:
  "uncompressLeaf ascii_tables ''app.PDB'' = None \<and> (\<exists>stem x y lo up. ''app.PD_'' = stem @ [CHR ''.'', x, y, CHR ''_'']
     \<and> (map ascii_lower [x, y], lo, up) \<in>
          {(''pd'', CHR ''b'', CHR ''B''), (''dl'', CHR ''l'', CHR ''L''), (''ex'', CHR ''e'', CHR ''E'')}
     \<and> ''app.PDB'' = stem @ [CHR ''.'', x, y, if ascii_lower x \<noteq> x \<and> ascii_lower y \<noteq> y then up else lo])"
  using Parse_serving [OF unicode_ok_ascii_tables Parse_ex] by simp

lemma baseIdentity_roundtrip_witness:
  "baseIdentity ascii_tables (render_signature ex_req) ''app.pdb'' True = Some ex_req"
  using baseIdentity_roundtrip [OF unicode_ok_ascii_tables baseIdentity_ex] .

end
