(* ===== verification/HttpApi.thy ===== *)
theory HttpApi
  imports SourceBundle Symstore
begin

text \<open>
  Package \<open>httpapi\<close>: the routes of \<open>handler.go\<close> and \<open>debuginfod.go\<close>, the metrics wrapper with its
  status recorder, and the dispatch of \<open>server.go\<close>. A request is its method and the segments
  of its cleaned path, a response what the handler has written so far.

  Of \<open>net/http\<close>, \<open>ServeContent\<close> is a parameter (\<open>http_lib\<close>): what it decides to write for a
  request and a file. A panic of a handler is its first result, \<open>Some\<close> message.
\<close>

section \<open>Responses (net/http)\<close>

record rwriter =
  rw_Header :: "string \<rightharpoonup> string"
  rw_code :: "nat option"
  rw_body :: bytes
  rw_ReaderFrom :: bool     \<comment> \<open>whether the writer is an \<open>io.ReaderFrom\<close>\<close>

text \<open>The first status written counts; a body written before any status makes it 200.\<close>

definition rw_WriteHeader :: "nat \<Rightarrow> rwriter \<Rightarrow> rwriter" where
  "rw_WriteHeader code w = (if rw_code w = None then w\<lparr>rw_code := Some code\<rparr> else w)"

definition rw_Write :: "bytes \<Rightarrow> rwriter \<Rightarrow> rwriter" where
  "rw_Write data w = (let w1 = rw_WriteHeader 200 w in w1\<lparr>rw_body := rw_body w1 @ data\<rparr>)"

text \<open>\<open>ReadFrom\<close> of the writer and \<open>io.Copy\<close> to it: the reader's bytes, then its error.\<close>

definition rw_copy :: "reader \<Rightarrow> rwriter \<Rightarrow> int \<times> goerr option \<times> rwriter" where
  "rw_copy r w =
     (int (length (rd_rest r)), (case rd_end r of AtEOF \<Rightarrow> None | AtError \<Rightarrow> Some (EnvError ''read'')),
      if rd_rest r = [] then w else rw_Write (rd_rest r) w)"

definition wire_status :: "rwriter \<Rightarrow> nat" where
  "wire_status w = (case rw_code w of Some c \<Rightarrow> c | None \<Rightarrow> 200)"

record http_req =
  rq_Method :: string
  rq_segs :: "string list"     \<comment> \<open>a trailing slash is an empty last segment\<close>
  rq_Header :: "(string \<times> string) list"

record http_lib =
  hl_unicode :: unicode_tables
  hl_ServeContent :: "http_req \<Rightarrow> string \<Rightarrow> int \<Rightarrow> reader \<Rightarrow> (string \<rightharpoonup> string) \<times> nat \<times> bytes"

section \<open>The status recorder (response.go)\<close>

record statusRecorder =
  sr_ResponseWriter :: rwriter
  sr_status :: nat

definition newStatusRecorder :: "rwriter \<Rightarrow> statusRecorder" where
  "newStatusRecorder w = \<lparr>sr_ResponseWriter = w, sr_status = 200\<rparr>"

definition sr_WriteHeader :: "nat \<Rightarrow> statusRecorder \<Rightarrow> statusRecorder" where
  "sr_WriteHeader code s =
     s\<lparr>sr_status := code, sr_ResponseWriter := rw_WriteHeader code (sr_ResponseWriter s)\<rparr>"

definition sr_ReadFrom :: "reader \<Rightarrow> statusRecorder \<Rightarrow> (int \<times> goerr option) \<times> statusRecorder" where
  "sr_ReadFrom r s =
     (if rw_ReaderFrom (sr_ResponseWriter s)
      then (case rw_copy r (sr_ResponseWriter s) of
              (n, Some err, w1) \<Rightarrow> ((n, Some (Wrap ''streaming response body'' err)), s\<lparr>sr_ResponseWriter := w1\<rparr>)
            | (n, None, w1) \<Rightarrow> ((n, None), s\<lparr>sr_ResponseWriter := w1\<rparr>))
      else (case rw_copy r (sr_ResponseWriter s) of
              (n, Some err, w1) \<Rightarrow> ((n, Some (Wrap ''copying response body'' err)), s\<lparr>sr_ResponseWriter := w1\<rparr>)
            | (n, None, w1) \<Rightarrow> ((n, None), s\<lparr>sr_ResponseWriter := w1\<rparr>)))"

text \<open>The embedded \<open>Write\<close>.\<close>

definition sr_Write :: "bytes \<Rightarrow> statusRecorder \<Rightarrow> statusRecorder" where
  "sr_Write data s = s\<lparr>sr_ResponseWriter := rw_Write data (sr_ResponseWriter s)\<rparr>"

definition set_header :: "string \<Rightarrow> string \<Rightarrow> statusRecorder \<Rightarrow> statusRecorder" where
  "set_header k v s = s\<lparr>sr_ResponseWriter := (sr_ResponseWriter s)
     \<lparr>rw_Header := (rw_Header (sr_ResponseWriter s))(k \<mapsto> v)\<rparr>\<rparr>"

definition http_Error :: "string \<Rightarrow> nat \<Rightarrow> statusRecorder \<Rightarrow> statusRecorder" where
  "http_Error msg code s =
     sr_Write (bytes_of_string (msg @ [CHR 0x0A])) (sr_WriteHeader code
       (set_header ''X-Content-Type-Options'' ''nosniff'' (set_header ''Content-Type'' ''text/plain; charset=utf-8'' s)))"

definition http_NotFound :: "statusRecorder \<Rightarrow> statusRecorder" where
  "http_NotFound = http_Error ''404 page not found'' 404"

definition http_ServeContent :: "http_lib \<Rightarrow> http_req \<Rightarrow> string \<Rightarrow> int \<Rightarrow> reader \<Rightarrow> statusRecorder \<Rightarrow> statusRecorder" where
  "http_ServeContent lib r name modtime content s =
     (case hl_ServeContent lib r name modtime content of
        (hdr, code, body) \<Rightarrow>
          snd (sr_ReadFrom \<lparr>rd_rest = body, rd_end = AtEOF\<rparr> (sr_WriteHeader code
            (s\<lparr>sr_ResponseWriter := (sr_ResponseWriter s)\<lparr>rw_Header := rw_Header (sr_ResponseWriter s) ++ hdr\<rparr>\<rparr>))))"

lemma rw_copy_EOF: "rw_copy \<lparr>rd_rest = d, rd_end = AtEOF\<rparr> w = (int (length d), None, if d = [] then w else rw_Write d w)"
  by (simp add: rw_copy_def)

section \<open>Forms (path.go)\<close>

definition formOther :: string where
  "formOther = ''other''"

definition knownForms :: "string list" where
  "knownForms = [''pdb'', ''pd_'', ''dll'', ''dl_'', ''exe'', ''ex_'', ''zip'']"

definition form :: "unicode_tables \<Rightarrow> string \<Rightarrow> string" where
  "form uc leaf =
     (let dot = LastIndexByte leaf CHR ''.'' in
      if dot < 0 then formOther
      else let ext = ToLower uc (drop (nat (dot + 1)) leaf) in
           if ext \<notin> set knownForms then formOther else ext)"

section \<open>The handler (handler.go)\<close>

definition retryAfterSeconds :: string where
  "retryAfterSeconds = ''5''"

record objects_if =
  ob_Fetch :: "request \<Rightarrow> world \<Rightarrow> opened result \<times> world"
  ob_FetchCompressed :: "request \<Rightarrow> world \<Rightarrow> opened result \<times> world"
  ob_SourceFile :: "request \<Rightarrow> string \<Rightarrow> world \<Rightarrow> bytes result \<times> world"

record handler =
  h_objects :: objects_if

definition NewHandler :: "objects_if \<Rightarrow> handler" where
  "NewHandler ob = \<lparr>h_objects = ob\<rparr>"

type_synonym outcome = "string option \<times> statusRecorder \<times> world"

text \<open>\<open>fail\<close>; an error that is a panic in the making has not been returned but unwinds.\<close>

definition h_fail :: "goerr \<Rightarrow> statusRecorder \<Rightarrow> statusRecorder" where
  "h_fail err s =
     (if errors_is err ObjectsNotFound then http_NotFound s
      else http_Error ''symbol backend unavailable'' 503 (set_header ''Retry-After'' retryAfterSeconds s))"

definition answer_error :: "goerr \<Rightarrow> statusRecorder \<Rightarrow> world \<Rightarrow> outcome" where
  "answer_error err s w = (case err of GoPanic m \<Rightarrow> (Some m, s, w) | _ \<Rightarrow> (None, h_fail err s, w))"

text \<open>The tail both file routes share: the error, the nil file, the content, the \<open>Close\<close>.\<close>

definition answer_file :: "http_lib \<Rightarrow> http_req \<Rightarrow> string \<Rightarrow> string \<Rightarrow> opened result \<times> world \<Rightarrow> statusRecorder \<Rightarrow> outcome" where
  "answer_file lib r contentType name fetched s =
     (case fetched of
        (Inl err, w1) \<Rightarrow> answer_error err s w1
      | (Inr None, w1) \<Rightarrow> answer_error ObjectsNotFound s w1
      | (Inr (Some (file, info)), w1) \<Rightarrow>
        (case on_fs (\<lambda>fs. reader_of fs file) w1 of (content, w2) \<Rightarrow>
         let s1 = http_ServeContent lib r name (fi_ModTime info) content (set_header ''Content-Type'' contentType s)
         in (None, s1, snd (on_fs (\<lambda>fs. f_Close fs file) w2))))"

definition symstoreRoute :: "http_lib \<Rightarrow> handler \<Rightarrow> string \<Rightarrow> string \<Rightarrow> string \<Rightarrow> http_req \<Rightarrow> statusRecorder
    \<Rightarrow> world \<Rightarrow> outcome" where
  "symstoreRoute lib h leading signature trailing r s w =
     (if \<not> EqualFold (hl_unicode lib) leading trailing
      then (None, http_Error ''leading and trailing filenames differ'' 400 s, w)
      else case Parse (hl_unicode lib) leading signature trailing of
             None \<Rightarrow> (None, http_NotFound s, w)
           | Some (req, serve) \<Rightarrow>
             (let fetch = (if serve_CAB serve then ob_FetchCompressed (h_objects h) else ob_Fetch (h_objects h))
              in answer_file lib r (serve_ContentType serve) (Filename req) (fetch req w) s))"

section \<open>debuginfod (debuginfod.go)\<close>

definition placeholderDebug :: string where
  "placeholderDebug = ''_.debug''"

definition placeholderExecutable :: string where
  "placeholderExecutable = ''_''"

definition placeholderBundle :: string where
  "placeholderBundle = ''_.src.zip''"

definition serveELF :: "http_lib \<Rightarrow> handler \<Rightarrow> string \<Rightarrow> file_type \<Rightarrow> string \<Rightarrow> http_req \<Rightarrow> statusRecorder
    \<Rightarrow> world \<Rightarrow> outcome" where
  "serveELF lib h buildid ft placeholder r s w =
     (case ELFRequest (hl_unicode lib) buildid placeholder ft of
        None \<Rightarrow> (None, http_NotFound s, w)
      | Some req \<Rightarrow> answer_file lib r OctetStream (Filename req) (ob_Fetch (h_objects h) req w) s)"

definition debuginfodDebug :: "http_lib \<Rightarrow> handler \<Rightarrow> string \<Rightarrow> http_req \<Rightarrow> statusRecorder \<Rightarrow> world \<Rightarrow> outcome" where
  "debuginfodDebug lib h buildid = serveELF lib h buildid FileELFDebug placeholderDebug"

definition debuginfodExecutable :: "http_lib \<Rightarrow> handler \<Rightarrow> string \<Rightarrow> http_req \<Rightarrow> statusRecorder \<Rightarrow> world \<Rightarrow> outcome" where
  "debuginfodExecutable lib h buildid = serveELF lib h buildid FileELFCode placeholderExecutable"

definition debuginfodSource :: "http_lib \<Rightarrow> handler \<Rightarrow> string \<Rightarrow> string \<Rightarrow> http_req \<Rightarrow> statusRecorder
    \<Rightarrow> world \<Rightarrow> outcome" where
  "debuginfodSource lib h buildid srcPath r s w =
     (if srcPath = '''' then (None, http_NotFound s, w)
      else case ELFRequest (hl_unicode lib) buildid placeholderBundle FileSourceBundle of
             None \<Rightarrow> (None, http_NotFound s, w)
           | Some req \<Rightarrow>
             (case ob_SourceFile (h_objects h) req srcPath w of
                (Inl err, w1) \<Rightarrow> answer_error err s w1
              | (Inr data, w1) \<Rightarrow> (None, sr_Write data (set_header ''Content-Type'' OctetStream s), w1)))"

section \<open>Metrics (metrics.go)\<close>

fun strconv_Itoa :: "nat \<Rightarrow> string" where
  "strconv_Itoa n =
     (let digit = [char_of (48 + n mod 10)]; rest = n div 10
      in if rest = 0 then digit else strconv_Itoa rest @ digit)"

declare strconv_Itoa.simps [simp del]

text \<open>A panic of the wrapped handler skips the two metrics.\<close>

definition withMetrics :: "string \<Rightarrow> (statusRecorder \<Rightarrow> world \<Rightarrow> outcome) \<Rightarrow> rwriter \<Rightarrow> world
    \<Rightarrow> string option \<times> rwriter \<times> world" where
  "withMetrics label next rw w =
     (case next (newStatusRecorder rw) w of
        (Some m, rec, w1) \<Rightarrow> (Some m, sr_ResponseWriter rec, w1)
      | (None, rec, w1) \<Rightarrow>
          (None, sr_ResponseWriter rec, on_met (met_request (strconv_Itoa (sr_status rec)) label) w1))"

text \<open>The two labelers: the form of the trailing path value, and the same label for every request.\<close>

definition symstoreForm :: "unicode_tables \<Rightarrow> string \<Rightarrow> string" where
  "symstoreForm uc trailing = form uc trailing"

definition fixedForm :: "string \<Rightarrow> 'r \<Rightarrow> string" where
  "fixedForm label = (\<lambda>_. label)"

text \<open>The decrement is deferred, so it also runs when the handler panics.\<close>

definition trackInFlight :: "(rwriter \<Rightarrow> world \<Rightarrow> string option \<times> rwriter \<times> world) \<Rightarrow> rwriter \<Rightarrow> world
    \<Rightarrow> string option \<times> rwriter \<times> world" where
  "trackInFlight next rw w =
     (case next rw (on_met (\<lambda>m. m\<lparr>RequestsInFlight := RequestsInFlight m + 1\<rparr>) w) of
        (p, rw1, w1) \<Rightarrow> (p, rw1, on_met (\<lambda>m. m\<lparr>RequestsInFlight := RequestsInFlight m - 1\<rparr>) w1))"

section \<open>Routes (server.go)\<close>

datatype public_route =
    Symstore string string string
  | DebugInfo string
  | Executable string
  | Source string string

text \<open>
  The patterns of the public mux: a wildcard matches one non-empty segment, \<open>srcpath...\<close> the
  rest of the path; a literal segment is preferred to a wildcard.
\<close>

definition join_rest :: "string list \<Rightarrow> string" where
  "join_rest = join_slash"

fun route_public :: "bool \<Rightarrow> string list \<Rightarrow> public_route option" where
  "route_public debuginfod [a, b, c] =
     (if a = '''' \<or> b = '''' \<or> c = '''' then None
      else if debuginfod \<and> a = ''buildid'' \<and> c = ''debuginfo'' then Some (DebugInfo b)
      else if debuginfod \<and> a = ''buildid'' \<and> c = ''executable'' then Some (Executable b)
      else Some (Symstore a b c))"
| "route_public debuginfod (a # b # c # d # rest) =
     (if debuginfod \<and> a = ''buildid'' \<and> b \<noteq> '''' \<and> c = ''source'' then Some (Source b (join_rest (d # rest))) else None)"
| "route_public debuginfod _ = None"

definition serve_public :: "http_lib \<Rightarrow> handler \<Rightarrow> public_route \<Rightarrow> http_req \<Rightarrow> rwriter \<Rightarrow> world
    \<Rightarrow> string option \<times> rwriter \<times> world" where
  "serve_public lib h route r =
     (case route of
        Symstore a b c \<Rightarrow> withMetrics (symstoreForm (hl_unicode lib) c) (symstoreRoute lib h a b c r)
      | DebugInfo b \<Rightarrow> withMetrics (fixedForm ''debuginfo'' r) (debuginfodDebug lib h b r)
      | Executable b \<Rightarrow> withMetrics (fixedForm ''executable'' r) (debuginfodExecutable lib h b r)
      | Source b p \<Rightarrow> withMetrics (fixedForm ''source'' r) (debuginfodSource lib h b p r))"

text \<open>The mux answers what no pattern matches: 405 for another method on a served path, else 404.\<close>

definition mux_reply :: "string \<Rightarrow> nat \<Rightarrow> rwriter \<Rightarrow> rwriter" where
  "mux_reply msg code rw = sr_ResponseWriter (http_Error msg code (newStatusRecorder rw))"

record server =
  srv_public :: "http_req \<Rightarrow> rwriter \<Rightarrow> world \<Rightarrow> string option \<times> rwriter \<times> world"
  srv_admin :: "http_req \<Rightarrow> rwriter \<Rightarrow> world \<Rightarrow> rwriter \<times> world"

definition is_get :: "http_req \<Rightarrow> bool" where
  "is_get r \<longleftrightarrow> rq_Method r = ''GET'' \<or> rq_Method r = ''HEAD''"

definition public_mux :: "http_lib \<Rightarrow> handler \<Rightarrow> bool \<Rightarrow> http_req \<Rightarrow> rwriter \<Rightarrow> world
    \<Rightarrow> string option \<times> rwriter \<times> world" where
  "public_mux lib h debuginfod r rw w =
     (case route_public debuginfod (rq_segs r) of
        None \<Rightarrow> (None, mux_reply ''404 page not found'' 404 rw, w)
      | Some route \<Rightarrow>
          (if is_get r then serve_public lib h route r rw w
           else (None, mux_reply ''Method Not Allowed'' 405 rw, w)))"

text \<open>\<open>ready\<close> is optional; \<open>/metrics\<close> is the Prometheus handler, a parameter.\<close>

definition readyz :: "(world \<Rightarrow> bool \<times> world) option \<Rightarrow> rwriter \<Rightarrow> world \<Rightarrow> rwriter \<times> world" where
  "readyz rdy rw w =
     (case rdy of
        None \<Rightarrow> (rw_Write (bytes_of_string (''ready'' @ [CHR 0x0A])) rw, w)
      | Some f \<Rightarrow>
        (case f w of
           (False, w1) \<Rightarrow> (mux_reply ''not ready'' 503 rw, w1)
         | (True, w1) \<Rightarrow> (rw_Write (bytes_of_string (''ready'' @ [CHR 0x0A])) rw, w1)))"

definition healthz :: "rwriter \<Rightarrow> rwriter" where
  "healthz = rw_Write (bytes_of_string (''ok'' @ [CHR 0x0A]))"

definition admin_mux :: "(world \<Rightarrow> bool \<times> world) option \<Rightarrow> (metrics \<Rightarrow> bytes) \<Rightarrow> http_req \<Rightarrow> rwriter \<Rightarrow> world
    \<Rightarrow> rwriter \<times> world" where
  "admin_mux rdy exposition r rw w =
     (if rq_segs r \<notin> {[''healthz''], [''readyz''], [''metrics'']} then (mux_reply ''404 page not found'' 404 rw, w)
      else if \<not> is_get r then (mux_reply ''Method Not Allowed'' 405 rw, w)
      else if rq_segs r = [''healthz''] then (healthz rw, w)
      else if rq_segs r = [''readyz''] then readyz rdy rw w
      else (rw_Write (exposition (w_met w)) rw, w))"

definition NewServer :: "http_lib \<Rightarrow> handler \<Rightarrow> (world \<Rightarrow> bool \<times> world) option \<Rightarrow> (metrics \<Rightarrow> bytes) \<Rightarrow> bool \<Rightarrow> server" where
  "NewServer lib h rdy exposition debuginfod =
     \<lparr>srv_public = (\<lambda>r. trackInFlight (public_mux lib h debuginfod r)), srv_admin = admin_mux rdy exposition\<rparr>"

text \<open>
  \<open>Run\<close>: both listeners start, the first of a cancelled context and a listener's end decides
  the result, then both are shut down.
\<close>

datatype run_event = Cancelled | ListenerClosed | ListenerFailed goerr

datatype listener_call = ListenPublic | ListenAdmin | ShutdownPublic | ShutdownAdmin

definition Server_Run :: "run_event \<Rightarrow> listener_call list \<times> goerr option" where
  "Server_Run ev =
     (let runErr = (case ev of Cancelled \<Rightarrow> None | ListenerClosed \<Rightarrow> None | ListenerFailed e \<Rightarrow> Some e)
      in ([ListenPublic, ListenAdmin, ShutdownPublic, ShutdownAdmin], runErr))"

end
