(* ===== verification/HttpProps.thy ===== *)
theory HttpProps
  imports HttpApi
begin

text \<open>
  The HTTP front end over the object service: what a request is answered with on every
  branch, that the recorded status is the one on the wire, and that the request metrics
  count every request once. The service's side of the contract is the locale \<open>objects_api\<close>.
\<close>

section \<open>Responses\<close>

lemma sr_simps [simp]:
  "sr_status (set_header k v s) = sr_status s"
  "rw_code (sr_ResponseWriter (set_header k v s)) = rw_code (sr_ResponseWriter s)"
  "rw_Header (sr_ResponseWriter (set_header k v s)) = (rw_Header (sr_ResponseWriter s))(k \<mapsto> v)"
  "rw_body (sr_ResponseWriter (set_header k v s)) = rw_body (sr_ResponseWriter s)"
  "sr_status (sr_Write d s) = sr_status s"
  "rw_Header (sr_ResponseWriter (sr_Write d s)) = rw_Header (sr_ResponseWriter s)"
  "rw_body (sr_ResponseWriter (sr_Write d s)) = rw_body (sr_ResponseWriter s) @ d"
  "sr_status (sr_WriteHeader c s) = c"
  "rw_Header (sr_ResponseWriter (sr_WriteHeader c s)) = rw_Header (sr_ResponseWriter s)"
  "rw_body (sr_ResponseWriter (sr_WriteHeader c s)) = rw_body (sr_ResponseWriter s)"
  by (simp_all add: set_header_def sr_Write_def sr_WriteHeader_def rw_Write_def rw_WriteHeader_def Let_def)

text \<open>A recorder nothing has been written to.\<close>

definition unwritten :: "statusRecorder \<Rightarrow> bool" where
  "unwritten s \<longleftrightarrow> rw_code (sr_ResponseWriter s) = None \<and> sr_status s = 200"

lemma unwritten_new: "rw_code rw = None \<Longrightarrow> unwritten (newStatusRecorder rw)"
  by (simp add: unwritten_def newStatusRecorder_def)

lemma unwritten_set_header [simp]: "unwritten (set_header k v s) = unwritten s"
  by (simp add: unwritten_def)

text \<open>What a handler leaves: the status on the wire is the recorded one.\<close>

definition replied :: "nat \<Rightarrow> statusRecorder \<Rightarrow> bool" where
  "replied c s \<longleftrightarrow> sr_status s = c \<and> rw_code (sr_ResponseWriter s) = Some c"

lemma replied_wire: "replied c s \<Longrightarrow> sr_status s = c \<and> wire_status (sr_ResponseWriter s) = c"
  by (simp add: replied_def wire_status_def)

lemma replied_Error: "unwritten s \<Longrightarrow> replied c (http_Error msg c s)"
  by (simp add: replied_def unwritten_def http_Error_def sr_Write_def sr_WriteHeader_def rw_Write_def rw_WriteHeader_def
      set_header_def Let_def)

lemma replied_body: "unwritten s \<Longrightarrow> replied 200 (sr_Write d s)"
  by (simp add: replied_def unwritten_def sr_Write_def rw_Write_def rw_WriteHeader_def Let_def)

lemma replied_ServeContent:
  "unwritten s \<Longrightarrow> replied (fst (snd (hl_ServeContent lib r name t content))) (http_ServeContent lib r name t content s)"
  by (simp add: replied_def unwritten_def http_ServeContent_def sr_ReadFrom_def rw_copy_EOF sr_WriteHeader_def rw_Write_def
      rw_WriteHeader_def Let_def split: prod.splits)

definition error_status :: "goerr \<Rightarrow> nat" where
  "error_status e = (if errors_is e ObjectsNotFound then 404 else 503)"

lemma replied_fail: "unwritten s \<Longrightarrow> replied (error_status e) (h_fail e s)"
  by (simp add: h_fail_def error_status_def http_NotFound_def replied_Error)

lemma fail_retry_after:
  "\<not> errors_is e ObjectsNotFound \<Longrightarrow> rw_Header (sr_ResponseWriter (h_fail e s)) ''Retry-After'' = Some ''5''"
  by (simp add: h_fail_def http_Error_def retryAfterSeconds_def)

lemma answer_error_returns: "\<forall>m. e \<noteq> GoPanic m \<Longrightarrow> answer_error e s w = (None, h_fail e s, w)"
  by (cases e) (simp_all add: answer_error_def)

text \<open>The label of the route that serves a path.\<close>

definition route_label :: "http_lib \<Rightarrow> public_route \<Rightarrow> string" where
  "route_label lib route = (case route of Symstore a b c \<Rightarrow> form (hl_unicode lib) c | DebugInfo b \<Rightarrow> ''debuginfo''
     | Executable b \<Rightarrow> ''executable'' | Source b p \<Rightarrow> ''source'')"

section \<open>The contract of the object service\<close>

text \<open>
  What the handlers rely on: a call keeps the service's invariant and leaves the request
  metrics alone, an answer without an error has a file, and no call panics. The invariant
  does not look at the metrics.
\<close>

definition request_view :: "metrics \<Rightarrow> (string \<times> string \<Rightarrow> int) \<times> (string \<Rightarrow> int) \<times> int" where
  "request_view m = (RequestsTotal m, RequestDuration m, RequestsInFlight m)"

definition good_call :: "(world \<Rightarrow> bool) \<Rightarrow> world \<Rightarrow> 'a result \<times> world \<Rightarrow> bool" where
  "good_call P w out \<longleftrightarrow> P (snd out) \<and> request_view (w_met (snd out)) = request_view (w_met w)
     \<and> (\<forall>m. fst out \<noteq> Inl (GoPanic m))"

locale objects_api =
  fixes inv :: "world \<Rightarrow> bool"
    and ob :: objects_if
  assumes fetch_good: "inv w \<Longrightarrow> good_call inv w (ob_Fetch ob req w) \<and> fst (ob_Fetch ob req w) \<noteq> Inr None"
    and compressed_good: "inv w \<Longrightarrow>
      good_call inv w (ob_FetchCompressed ob req w) \<and> fst (ob_FetchCompressed ob req w) \<noteq> Inr None"
    and source_good: "inv w \<Longrightarrow> good_call inv w (ob_SourceFile ob req p w)"
    and inv_read: "inv w \<Longrightarrow> same_store (w_fs w) (w_fs w') \<Longrightarrow> inv w'"
begin

text \<open>What a handler of this service leaves.\<close>

definition handled :: "world \<Rightarrow> outcome \<Rightarrow> bool" where
  "handled w out \<longleftrightarrow> fst out = None \<and> (\<exists>c. replied c (fst (snd out))) \<and> inv (snd (snd out))
     \<and> request_view (w_met (snd (snd out))) = request_view (w_met w)"

lemma handled_plain: "inv w \<Longrightarrow> replied c s \<Longrightarrow> handled w (None, s, w)"
  by (auto simp: handled_def)

lemma handled_error:
  assumes "good_call inv w (Inl e, w1)" and "unwritten s"
  shows "answer_error e s w1 = (None, h_fail e s, w1)" and "handled w (answer_error e s w1)"
proof -
  show a: "answer_error e s w1 = (None, h_fail e s, w1)"
    using assms(1) by (intro answer_error_returns) (simp add: good_call_def)
  show "handled w (answer_error e s w1)" unfolding a
    using assms replied_fail [of s e] by (auto simp: handled_def good_call_def)
qed

lemma handled_file:
  assumes "good_call inv w fetched" and "fst fetched \<noteq> Inr None" and "unwritten s"
  shows "handled w (answer_file lib r ct name fetched s)"
proof -
  obtain q w1 where f: "fetched = (q, w1)" by (cases fetched)
  consider e where "q = Inl e" | fl info where "q = Inr (Some (fl, info))"
    using assms(2) f by (cases q) auto
  then show ?thesis
  proof cases
    case 1
    with handled_error(2) [OF _ assms(3)] assms(1) f show ?thesis by (simp add: answer_file_def)
  next
    case 2
    obtain content w2 where rd: "on_fs (\<lambda>fs. reader_of fs fl) w1 = (content, w2)" by fastforce
    obtain rc fs3 where cl: "f_Close (w_fs w2) fl = (rc, fs3)" by fastforce
    from rd obtain fs2 where w2: "reader_of (w_fs w1) fl = (content, fs2)" "w2 = w1\<lparr>w_fs := fs2\<rparr>" by (rule on_fsE)
    have "same_store (w_fs w1) fs3"
      using reader_of_store [OF w2(1)] read_only_calls(5) [OF cl] w2(2) same_store_trans by simp
    then have "inv (w2\<lparr>w_fs := fs3\<rparr>)" using inv_read [of w1] assms(1) f by (simp add: good_call_def)
    moreover have "request_view (w_met (w2\<lparr>w_fs := fs3\<rparr>)) = request_view (w_met w)"
      using assms(1) f w2(2) by (simp add: good_call_def)
    ultimately show ?thesis
      using 2 f rd cl replied_ServeContent [of "set_header ''Content-Type'' ct s" lib r name "fi_ModTime info" content] assms(3)
      by (auto simp: answer_file_def handled_def on_fs_def)
  qed
qed

lemma symstoreRoute_handled:
  assumes "inv w" and "unwritten s"
  shows "handled w (symstoreRoute lib (NewHandler ob) a b c r s w)"
  using assms handled_plain [OF assms(1) replied_Error [OF assms(2)]] handled_file [OF _ _ assms(2)]
    fetch_good [OF assms(1)] compressed_good [OF assms(1)]
  by (auto simp: symstoreRoute_def http_NotFound_def NewHandler_def Let_def split: option.splits)

lemma serveELF_handled:
  assumes "inv w" and "unwritten s"
  shows "handled w (serveELF lib (NewHandler ob) b ft pl r s w)"
  using assms handled_plain [OF assms(1) replied_Error [OF assms(2)]] handled_file [OF _ _ assms(2)] fetch_good [OF assms(1)]
  by (auto simp: serveELF_def http_NotFound_def NewHandler_def split: option.splits)

lemma debuginfodSource_handled:
  assumes "inv w" and "unwritten s"
  shows "handled w (debuginfodSource lib (NewHandler ob) b p r s w)"
proof (cases "p = '''' \<or> ELFRequest (hl_unicode lib) b placeholderBundle FileSourceBundle = None")
  case True
  with handled_plain [OF assms(1) replied_Error [OF assms(2)]] show ?thesis
    by (auto simp: debuginfodSource_def http_NotFound_def)
next
  case False
  then obtain req where req: "ELFRequest (hl_unicode lib) b placeholderBundle FileSourceBundle = Some req" by auto
  obtain x w1 where f: "ob_SourceFile ob req p w = (x, w1)" by fastforce
  note g = source_good [OF assms(1), of req p, unfolded f]
  show ?thesis
  proof (cases x)
    case (Inl e)
    with handled_error(2) [OF _ assms(2)] g False req f show ?thesis by (simp add: debuginfodSource_def NewHandler_def)
  next
    case (Inr d)
    with g False req f replied_body [of "set_header ''Content-Type'' OctetStream s" d] assms(2) show ?thesis
      by (auto simp: debuginfodSource_def NewHandler_def handled_def good_call_def)
  qed
qed

text \<open>One request through the metrics wrapper is counted once, under the status on the wire.\<close>

definition counted :: "string \<Rightarrow> world \<Rightarrow> string option \<times> rwriter \<times> world \<Rightarrow> bool" where
  "counted label w out \<longleftrightarrow> fst out = None \<and> inv (snd (snd out))
     \<and> request_view (w_met (snd (snd out))) =
         (inc (RequestsTotal (w_met w)) (strconv_Itoa (wire_status (fst (snd out))), label),
          inc (RequestDuration (w_met w)) label, RequestsInFlight (w_met w))"

lemma withMetrics_counted:
  assumes "handled w (next (newStatusRecorder rw) w)"
  shows "counted label w (withMetrics label next rw w)"
proof -
  obtain rec w1 c where n: "next (newStatusRecorder rw) w = (None, rec, w1)" and c: "replied c rec"
    and i: "inv w1" "request_view (w_met w1) = request_view (w_met w)"
    using assms by (cases "next (newStatusRecorder rw) w") (auto simp: handled_def)
  have "inv (on_met g w1)" for g using inv_read [OF i(1)] by simp
  with n replied_wire [OF c] i(2) show ?thesis
    by (simp add: counted_def withMetrics_def request_view_def met_request_def)
qed

lemma serve_public_counted:
  assumes "inv w" and "rw_code rw = None"
  shows "counted (route_label lib route) w (serve_public lib (NewHandler ob) route r rw w)"
  using assms(1) unwritten_new [OF assms(2)]
  by (cases route) (auto simp: serve_public_def route_label_def symstoreForm_def fixedForm_def debuginfodDebug_def debuginfodExecutable_def
      intro!: withMetrics_counted symstoreRoute_handled serveELF_handled debuginfodSource_handled)

end

section \<open>The object service keeps the contract\<close>

definition objects_of :: "service \<Rightarrow> bundle_lib \<Rightarrow> objects_if" where
  "objects_of s lib = \<lparr>ob_Fetch = Fetch s, ob_FetchCompressed = FetchCompressed s, ob_SourceFile = SourceFile s lib\<rparr>"

named_theorems view_intros \<open>calls that leave the request metrics alone\<close>

lemma request_view_met [simp]:
  "request_view (met_lookup a b m) = request_view m" "request_view (met_resolver a m) = request_view m"
  "request_view (met_resolver_seconds m) = request_view m" "request_view (met_storage_error m) = request_view m"
  "request_view (met_fetched n m) = request_view m" "request_view (met_coalesced m) = request_view m"
  "request_view (met_synth n m) = request_view m" "request_view (met_committed n x m) = request_view m"
  by (simp_all add: request_view_def met_defs Let_def)

abbreviation same_view :: "world \<Rightarrow> world \<Rightarrow> bool" where
  "same_view w w' \<equiv> request_view (w_met w') = request_view (w_met w)"

lemma on_fs_view [view_intros]: "on_fs f w = (r, w') \<Longrightarrow> same_view w w'"
  by (auto simp: on_fs_def split: prod.splits)

lemma on_fs_met [simp]: "w_met (snd (on_fs f w)) = w_met w"
  by (simp add: on_fs_def split: prod.splits)

lemma on_file_view [view_intros]: "on_file f b w = (r, f', w') \<Longrightarrow> same_view w w'"
  by (auto simp: on_file_def split: prod.splits)

lemma discard_view [simp]: "w_met (discard f w) = w_met w"
  by (simp add: discard_def on_fs_def split: prod.splits)

lemma Commit_view [view_intros]: "Commit sha c f role ident inner w = (r, w') \<Longrightarrow> same_view w w'"
  by (auto simp: Commit_def Let_def split: result_splits)

lemma svc_Lookup_view [view_intros]: "svc_Lookup s role ident inner w = (r, w') \<Longrightarrow> same_view w w'"
  unfolding svc_Lookup_def by (rule on_fs_view)

lemma download_view [view_intros]: "download s req w = (r, w') \<Longrightarrow> same_view w w'"
  by (auto simp: download_def Let_def split: result_splits dest!: view_intros)

lemma produceOnce_view:
  assumes "produceOnce s key produce w = (r, w')" and "solo s" and "\<And>x u. produce w = (x, u) \<Longrightarrow> same_view w u"
  shows "same_view w w'"
  using assms by (auto simp: produceOnce_def solo_def split: result_splits)

lemma produceOnce_no_panic: "produceOnce s key produce w = (Some e, w') \<Longrightarrow> e \<noteq> GoPanic m"
  by (auto simp: produceOnce_def split: result_splits)

lemma object_view:
  assumes "object s req w = (r, w')" and "solo s"
  shows "same_view w w'"
  using assms(1)
  by (auto simp: object_def split: result_splits dest!: svc_Lookup_view produceOnce_view [OF _ assms(2)] download_view)

lemma object_no_panic: "object s req w = (Inl e, w') \<Longrightarrow> e \<noteq> GoPanic m"
  by (auto simp: object_def split: result_splits dest: produceOnce_no_panic)

lemma synth_fill_view [view_intros]: "synth_fill s req b info tmp input w = (r, f, w') \<Longrightarrow> same_view w w'"
  by (auto simp: synth_fill_def split: result_splits dest!: on_file_view)

lemma synth_staged_view [view_intros]: "synth_staged s req b info obj tmp w = (r, w') \<Longrightarrow> same_view w w'"
  by (auto simp: synth_staged_def split: result_splits dest!: view_intros)

lemma synthesize_from_view [view_intros]: "synthesize_from s req obj info w = (r, w') \<Longrightarrow> same_view w w'"
  by (auto simp: synthesize_from_def split: result_splits dest!: view_intros)

lemma synthesize_view:
  assumes "synthesize s req w = (r, w')" and "solo s"
  shows "same_view w w'"
  using assms(1)
  by (auto simp: synthesize_def split: result_splits dest!: object_view [OF _ assms(2)] synthesize_from_view on_fs_view)

lemma lookupCompressed_view [view_intros]: "lookupCompressed s ident inner w = (r, w') \<Longrightarrow> same_view w w'"
  by (auto simp: lookupCompressed_def split: result_splits dest!: svc_Lookup_view)

lemma lookupCompressed_no_panic: "lookupCompressed s ident inner w = (Inl e, w') \<Longrightarrow> e \<noteq> GoPanic m"
  by (auto simp: lookupCompressed_def split: result_splits)

lemma FetchCompressed_view:
  assumes "FetchCompressed s req w = (r, w')" and "solo s"
  shows "same_view w w'"
  using assms(1)
  by (auto simp: FetchCompressed_def split: result_splits
      dest!: lookupCompressed_view produceOnce_view [OF _ assms(2)] synthesize_view [OF _ assms(2)])

lemma FetchCompressed_no_panic: "FetchCompressed s req w = (Inl e, w') \<Longrightarrow> e \<noteq> GoPanic m"
  by (auto simp: FetchCompressed_def split: result_splits dest: produceOnce_no_panic lookupCompressed_no_panic)

lemma SourceFile_view:
  assumes "SourceFile s lib req p w = (r, w')" and "solo s"
  shows "same_view w w'"
  using assms(1)
  by (auto simp: SourceFile_def source_of_def Let_def split: result_splits dest!: object_view [OF _ assms(2)] on_fs_view)

text \<open>Of the service's calls only a nil object makes one panic.\<close>

lemma SourceFile_panic: "SourceFile s lib req p w = (Inl (GoPanic m), w') \<Longrightarrow> fst (object s req w) = Inr None"
  by (auto simp: SourceFile_def source_of_def Let_def bundleEntry_def readManifest_def readEntry_def
      split: result_splits dest: object_no_panic)

text \<open>What holds of the world while the service runs alone over S3.\<close>

definition serving :: "service \<Rightarrow> (string \<Rightarrow> string \<Rightarrow> get_object) \<Rightarrow> world \<Rightarrow> bool" where
  "serving s G w \<longleftrightarrow> svc_ready s w \<and> svc_fetcher s = S3_Fetch G \<and> solo s"

lemma SourceFile_serving:
  assumes "SourceFile s lib req p w = (r, w')" and "serving s G w"
  shows "serving s G w'"
proof -
  obtain x w1 where o: "object s req w = (x, w1)" by fastforce
  from assms(2) have S: "svc_ready s w" "svc_fetcher s = S3_Fetch G" "solo s" by (simp_all add: serving_def)
  have rd: "svc_ready s w1"
    by (rule ready_steps(1) [OF S(1) s3.object_steps(1) [OF o S(1,2) solo_joins_ok [OF S(3)]]])
  have "same_store (w_fs w1) (w_fs w')"
  proof -
    have rf: "on_fs (\<lambda>fs. reader_of fs f) v = (c, v') \<Longrightarrow> same_store (w_fs v) (w_fs v')" for f v c v'
      by (auto simp: on_fs_def split: prod.splits dest: reader_of_store)
    have cl: "same_store (w_fs v) (w_fs (snd (on_fs (\<lambda>fs. f_Close fs f) v)))" for f v
      by (auto simp: on_fs_def split: prod.splits dest: read_only_calls(5))
    show ?thesis
      using assms(1) o same_store_trans [OF rf cl]
      by (auto simp: SourceFile_def source_of_def Let_def split: result_splits)
  qed
  then have "svc_ready s w'"
    using rd same_store_cache_ok [of "w_fs w1" "w_fs w'"] rand_ok_env [OF same_storeD(7)] by (auto simp: ready_def)
  with S show ?thesis by (simp add: serving_def)
qed

interpretation service_api: objects_api "serving s G" "objects_of s lib" for s G lib
proof
  fix w req p
  assume "serving s G w"
  then have S: "svc_ready s w" "svc_fetcher s = S3_Fetch G" "solo s" by (simp_all add: serving_def)
  note J = solo_joins_ok [OF S(3)]
  obtain r1 w1 where f: "Fetch s req w = (r1, w1)" by fastforce
  note f' = f [unfolded Fetch_def]
  have "svc_ready s w1" by (rule ready_steps(1) [OF S(1) s3.object_steps(1) [OF f' S(1,2) J]])
  moreover have "r1 \<noteq> Inl (GoPanic m)" for m using object_no_panic f' by blast
  ultimately show "good_call (serving s G) w (ob_Fetch (objects_of s lib) req w) \<and> fst (ob_Fetch (objects_of s lib) req w) \<noteq> Inr None"
    using f S object_view [OF f' S(3)] s3.object_grown(3) [OF f' S]
    by (auto simp: objects_of_def good_call_def serving_def)
  obtain r2 w2 where c: "FetchCompressed s req w = (r2, w2)" by fastforce
  have "svc_ready s w2" by (rule ready_steps(1) [OF S(1) s3.FetchCompressed_effect(1) [OF c S(1,2) J]])
  moreover have "r2 \<noteq> Inl (GoPanic m)" for m using FetchCompressed_no_panic c by blast
  ultimately show "good_call (serving s G) w (ob_FetchCompressed (objects_of s lib) req w)
      \<and> fst (ob_FetchCompressed (objects_of s lib) req w) \<noteq> Inr None"
    using c S FetchCompressed_view [OF c S(3)] s3.FetchCompressed_effect(3) [OF c S(1,2) J S(3)]
    by (auto simp: objects_of_def good_call_def serving_def)
  obtain r3 w3 where b: "SourceFile s lib req p w = (r3, w3)" by fastforce
  have "r3 \<noteq> Inl (GoPanic m)" for m
    using SourceFile_panic b s3.object_grown(3) [OF surjective_pairing S] by blast
  then show "good_call (serving s G) w (ob_SourceFile (objects_of s lib) req p w)"
    using b SourceFile_view [OF b S(3)] SourceFile_serving [OF b \<open>serving s G w\<close>] by (auto simp: objects_of_def good_call_def)
next
  fix w w' :: world
  assume "serving s G w" and "same_store (w_fs w) (w_fs w')"
  then show "serving s G w'"
    using same_store_cache_ok [of "w_fs w" "w_fs w'"] rand_ok_env [OF same_storeD(7)] by (auto simp: serving_def ready_def)
qed

section \<open>Properties\<close>

text \<open>What \<open>ServeContent\<close> is given: the bytes of the answer, or a part of them if a read fails.\<close>

definition served_from :: "bytes \<Rightarrow> reader \<Rightarrow> bool" where
  "served_from d content \<longleftrightarrow> prefix (rd_rest content) d \<and> (rd_end content = AtEOF \<longrightarrow> rd_rest content = d)"

lemma answer_file_content:
  assumes "f_pos (fst f) = 0" and "unwritten st"
  shows "\<exists>content out. served_from (handle_bytes w1 f) content
    \<and> answer_file lib r ct name (Inr (Some f), w1) st = (None, out)
    \<and> replied (fst (snd (hl_ServeContent lib r name (fi_ModTime (snd f)) content))) (fst out)
    \<and> rw_body (sr_ResponseWriter (fst out)) =
        rw_body (sr_ResponseWriter st) @ snd (snd (hl_ServeContent lib r name (fi_ModTime (snd f)) content))"
proof -
  obtain fl info where f: "f = (fl, info)" by (cases f)
  obtain content w2 where rd: "on_fs (\<lambda>fs. reader_of fs fl) w1 = (content, w2)" by fastforce
  note R = reader_of_start(3,4) [OF rd]
  have "served_from (handle_bytes w1 f) content"
    using R assms(1) by (simp add: served_from_def handle_bytes_def f)
  moreover have "replied (fst (snd (hl_ServeContent lib r name (fi_ModTime info) content)))
      (http_ServeContent lib r name (fi_ModTime info) content (set_header ''Content-Type'' ct st))"
    by (rule replied_ServeContent) (simp add: assms(2))
  moreover have "rw_body (sr_ResponseWriter (http_ServeContent lib r name t content st'))
      = rw_body (sr_ResponseWriter st') @ snd (snd (hl_ServeContent lib r name t content))" for t st'
    by (simp add: http_ServeContent_def sr_ReadFrom_def rw_copy_EOF sr_WriteHeader_def rw_WriteHeader_def rw_Write_def Let_def
        split: prod.splits)
  ultimately show ?thesis using rd f by (auto simp: answer_file_def)
qed

text \<open>C19: a symbol request is answered 400 when the two names differ, 404 when the path is no symbol path or the
  object does not exist, and 503 with a \<open>Retry-After\<close> of 5 seconds when the lookup fails otherwise; the first two
  without touching the world. The handler never panics.\<close>

theorem symstoreRoute_errors:
  fixes lib blib a sig c r
  assumes "serving s G w" and "rw_code rw = None"
  defines "out \<equiv> symstoreRoute lib (NewHandler (objects_of s blib)) a sig c r (newStatusRecorder rw) w"
    and "uc \<equiv> hl_unicode lib"
  shows "fst out = None
    \<and> (\<not> EqualFold uc a c \<longrightarrow> wire_status (sr_ResponseWriter (fst (snd out))) = 400 \<and> snd (snd out) = w)
    \<and> (EqualFold uc a c \<and> Parse uc a sig c = None \<longrightarrow>
         wire_status (sr_ResponseWriter (fst (snd out))) = 404 \<and> snd (snd out) = w)
    \<and> (\<forall>req serve e w1. EqualFold uc a c \<and> Parse uc a sig c = Some (req, serve)
         \<and> (if serve_CAB serve then FetchCompressed s req w else Fetch s req w) = (Inl e, w1) \<longrightarrow>
           wire_status (sr_ResponseWriter (fst (snd out))) = (if errors_is e ObjectsNotFound then 404 else 503)
           \<and> (\<not> errors_is e ObjectsNotFound \<longrightarrow>
                rw_Header (sr_ResponseWriter (fst (snd out))) ''Retry-After'' = Some ''5''))"
proof -
  note u = unwritten_new [OF assms(2)]
  have "fst out = None"
    using service_api.symstoreRoute_handled [OF assms(1) u, of lib blib a sig c r]
    by (simp add: out_def service_api.handled_def)
  moreover have "wire_status (sr_ResponseWriter (fst (snd out))) = 400 \<and> snd (snd out) = w" if "\<not> EqualFold uc a c"
    using that replied_wire [OF replied_Error [OF u]] by (simp add: out_def uc_def symstoreRoute_def)
  moreover have "wire_status (sr_ResponseWriter (fst (snd out))) = 404 \<and> snd (snd out) = w"
    if "EqualFold uc a c" "Parse uc a sig c = None"
    using that replied_wire [OF replied_Error [OF u]] by (simp add: out_def uc_def symstoreRoute_def http_NotFound_def)
  moreover have "wire_status (sr_ResponseWriter (fst (snd out))) = error_status e
      \<and> (\<not> errors_is e ObjectsNotFound \<longrightarrow> rw_Header (sr_ResponseWriter (fst (snd out))) ''Retry-After'' = Some ''5'')"
    if "EqualFold uc a c" "Parse uc a sig c = Some (req, serve)"
      "(if serve_CAB serve then FetchCompressed s req w else Fetch s req w) = (Inl e, w1)" for req serve e w1
  proof -
    have "\<forall>m. e \<noteq> GoPanic m"
      using that(3) object_no_panic FetchCompressed_no_panic by (auto simp: Fetch_def split: if_splits)
    then have "out = (None, h_fail e (newStatusRecorder rw), w1)"
      using that answer_error_returns [of e "newStatusRecorder rw" w1]
      by (auto simp: out_def uc_def symstoreRoute_def NewHandler_def objects_of_def answer_file_def split: if_splits)
    with replied_wire [OF replied_fail [OF u, of e]] fail_retry_after show ?thesis by simp
  qed
  ultimately show ?thesis unfolding error_status_def by blast
qed

text \<open>C18: a symbol request that succeeds hands \<open>ServeContent\<close> the bytes the service promises for the parsed
  request: the compressed form when a compressed file name was asked for, the object itself otherwise; the
  status and the body on the wire are \<open>ServeContent\<close>'s.\<close>

theorem symstoreRoute_content:
  assumes "serving s G w" and "rw_code rw = None" and "rw_body rw = []"
    and "EqualFold (hl_unicode lib) a c" and "Parse (hl_unicode lib) a sig c = Some (req, serve)"
    and "(if serve_CAB serve then FetchCompressed s req w else Fetch s req w) = (Inr q, w1)"
  shows "\<exists>d mtime content rec w2.
    symstoreRoute lib (NewHandler (objects_of s blib)) a sig c r (newStatusRecorder rw) w = (None, rec, w2)
    \<and> (if serve_CAB serve then compressed_bytes (s3_stored G) s req w else source_bytes (s3_stored G) s req w) = Some d
    \<and> served_from d content
    \<and> wire_status (sr_ResponseWriter rec) = fst (snd (hl_ServeContent lib r (Filename req) mtime content))
    \<and> rw_body (sr_ResponseWriter rec) = snd (snd (hl_ServeContent lib r (Filename req) mtime content))"
proof -
  from assms(1) have S: "svc_ready s w" "svc_fetcher s = S3_Fetch G" "solo s" by (simp_all add: serving_def)
  have "\<exists>f. q = Some f \<and> f_pos (fst f) = 0
      \<and> (if serve_CAB serve then compressed_bytes (s3_stored G) s req w else source_bytes (s3_stored G) s req w)
        = Some (handle_bytes w1 f)"
  proof (cases "serve_CAB serve")
    case True
    with assms(6) have c: "FetchCompressed s req w = (Inr q, w1)" by simp
    note F = s3.FetchCompressed_effect [OF c S(1,2) solo_joins_ok [OF S(3)]]
    from F(3) [OF S(3) refl] obtain f where f: "q = Some f" "compressed_bytes (s3_stored G) s req w = Some (handle_bytes w1 f)"
      by blast
    with F(2) [of f] True show ?thesis by (auto simp: opens_entry_def)
  next
    case False
    with assms(6) have c: "object s req w = (Inr q, w1)" by (simp add: Fetch_def)
    note F = s3.object_grown [OF c S]
    from F(3) obtain f where f: "q = Some f" by (cases q) simp_all
    with F(2) [of f] False show ?thesis by (simp add: opens_entry_def)
  qed
  then obtain f where f: "q = Some f" "f_pos (fst f) = 0" and d: "(if serve_CAB serve
      then compressed_bytes (s3_stored G) s req w else source_bytes (s3_stored G) s req w) = Some (handle_bytes w1 f)" by blast
  from answer_file_content [OF f(2) unwritten_new [OF assms(2)], of w1 lib r "serve_ContentType serve" "Filename req"]
  obtain content out where o: "served_from (handle_bytes w1 f) content"
    "answer_file lib r (serve_ContentType serve) (Filename req) (Inr (Some f), w1) (newStatusRecorder rw) = (None, out)"
    "replied (fst (snd (hl_ServeContent lib r (Filename req) (fi_ModTime (snd f)) content))) (fst out)"
    "rw_body (sr_ResponseWriter (fst out)) = rw_body (sr_ResponseWriter (newStatusRecorder rw))
      @ snd (snd (hl_ServeContent lib r (Filename req) (fi_ModTime (snd f)) content))" by blast
  moreover have "symstoreRoute lib (NewHandler (objects_of s blib)) a sig c r (newStatusRecorder rw) w = (None, out)"
    using o(2) assms(4-6) f(1) by (auto simp: symstoreRoute_def NewHandler_def objects_of_def split: if_splits)
  ultimately show ?thesis
    using replied_wire [OF o(3)] d assms(3) by (intro exI [of _ "handle_bytes w1 f"]) (cases out, auto simp: newStatusRecorder_def)
qed

text \<open>C27: when no other request joins its calls (\<open>serving\<close>), every GET or HEAD request on a served path is counted exactly
  once, under the status that went out on the wire and the label of its route; the in-flight gauge is back where it was.\<close>

theorem requests_counted:
  assumes "serving s G w" and "rw_code rw = None" and "route_public dbg (rq_segs r) = Some route" and "is_get r"
    and "srv_public (NewServer lib (NewHandler (objects_of s blib)) rdy expo dbg) r rw w = (p, rw', w')"
  shows "p = None \<and> RequestsInFlight (w_met w') = RequestsInFlight (w_met w)
    \<and> RequestsTotal (w_met w') = (RequestsTotal (w_met w))((strconv_Itoa (wire_status rw'), route_label lib route) :=
        RequestsTotal (w_met w) (strconv_Itoa (wire_status rw'), route_label lib route) + 1)"
proof -
  let ?w = "on_met (\<lambda>m. m\<lparr>RequestsInFlight := RequestsInFlight m + 1\<rparr>) w"
  obtain q rw1 w1 where sp: "serve_public lib (NewHandler (objects_of s blib)) route r rw ?w = (q, rw1, w1)"
    by (metis prod.exhaust)
  have "serving s G ?w" using service_api.inv_read [OF assms(1)] by simp
  from service_api.serve_public_counted [OF this assms(2), of lib route blib r] sp
  have "q = None" "request_view (w_met w1) =
      (inc (RequestsTotal (w_met ?w)) (strconv_Itoa (wire_status rw1), route_label lib route),
       inc (RequestDuration (w_met ?w)) (route_label lib route), RequestsInFlight (w_met ?w))"
    by (simp_all add: service_api.counted_def)
  then show ?thesis
    using assms(3-5) sp by (auto simp: NewServer_def trackInFlight_def public_mux_def request_view_def inc_def)
qed

text \<open>Whatever a client sends, a request is counted under one of eleven labels.\<close>

lemma route_label_bounded:
  "route_label lib route \<in> {''pdb'', ''pd_'', ''dll'', ''dl_'', ''exe'', ''ex_'', ''zip'', ''other'',
     ''debuginfo'', ''executable'', ''source''}"
  by (cases route) (auto simp: route_label_def form_def Let_def formOther_def knownForms_def)

section \<open>Witnesses\<close>

definition ex_http :: http_lib where
  "ex_http = \<lparr>hl_unicode = ascii_tables, hl_ServeContent = (\<lambda>_ _ _ content. (Map.empty, 200, rd_rest content))\<rparr>"

definition ex_rw :: rwriter where
  "ex_rw = \<lparr>rw_Header = Map.empty, rw_code = None, rw_body = [], rw_ReaderFrom = True\<rparr>"

definition ex_get_req :: "string list \<Rightarrow> http_req" where
  "ex_get_req segments = \<lparr>rq_Method = ''GET'', rq_segs = segments, rq_Header = []\<rparr>"

lemma ex_serving: "serving ex_svc ex_get ex_world"
  using ex_ready by (simp add: serving_def)

lemma symstoreRoute_errors_witness:
  "wire_status (sr_ResponseWriter (fst (snd (symstoreRoute ex_http (NewHandler (objects_of ex_svc ex_lib)) ''a'' ''b'' ''c''
     (ex_get_req []) (newStatusRecorder ex_rw) ex_world)))) = 400"
proof -
  have "\<not> EqualFold (hl_unicode ex_http) ''a'' ''c''"
    by (simp add: ex_http_def EqualFold_ascii is_ascii_def ascii_lower_def)
  with symstoreRoute_errors [OF ex_serving, of ex_rw] show ?thesis by (simp add: ex_rw_def)
qed

lemma requests_counted_witness:
  "fst (srv_public (NewServer ex_http (NewHandler (objects_of ex_svc ex_lib)) None (\<lambda>_. []) True)
     (ex_get_req [''a'', ''b'', ''c'']) ex_rw ex_world) = None"
proof -
  have "route_public True (rq_segs (ex_get_req [''a'', ''b'', ''c''])) = Some (Symstore ''a'' ''b'' ''c'')"
    "is_get (ex_get_req [''a'', ''b'', ''c''])" by (simp_all add: ex_get_req_def is_get_def)
  from requests_counted [OF ex_serving _ this, of ex_rw ex_http ex_lib None "\<lambda>_. []"] show ?thesis
    by (metis ex_rw_def prod.collapse rwriter.select_convs(2))
qed

lemma Parse_compressed:
  "Parse ascii_tables ''app.pd_'' ''0123456789abcdef0123456789abcdef1'' ''app.pd_'' =
    Some (Symstore.ex_req, \<lparr>serve_ContentType = CABContentType, serve_CAB = True\<rparr>)"
  by (simp add: go_eval Symstore.ex_req_def)

text \<open>A service whose resolver finds every request, and a compressed request to it.\<close>

definition ex_web :: service where
  "ex_web = ex_svc\<lparr>svc_resolver := (\<lambda>_. Inr \<lparr>Bucket = ''b'', Key = ''k'', Size = 3, ContentType = ''''\<rparr>)\<rparr>"

lemma ex_web_simps [simp]:
  "svc_fetcher ex_web = S3_Fetch ex_get" "svc_cache ex_web = ex_cache" "svc_sha ex_web = sha_ex"
  "svc_flate ex_web = fl_stored" "solo ex_web"
  by (simp_all add: ex_web_def ex_svc_def solo_def)

lemma ex_web_serving: "serving ex_web ex_get ex_world"
  using ex_ready by (simp add: serving_def)

lemma ex_web_source:
  "source_bytes (s3_stored ex_get) ex_web req ex_world = Some [1, 2, 3]"
  "compressed_bytes (s3_stored ex_get) ex_web req ex_world = Some (cab_image fl_stored (Filename req) [1, 2, 3])"
proof -
  have e: "svc_entries ex_web ex_world p = None" for p using ex_empty by simp
  show s: "source_bytes (s3_stored ex_get) ex_web req ex_world = Some [1, 2, 3]"
    unfolding source_bytes_def e by (simp add: ex_web_def s3_stored_def ex_get_def)
  show "compressed_bytes (s3_stored ex_get) ex_web req ex_world = Some (cab_image fl_stored (Filename req) [1, 2, 3])"
    unfolding compressed_bytes_def e s by (simp add: compressed_form_def ex_not_cabinet)
qed

lemma ex_web_fetch: "\<exists>q w'. FetchCompressed ex_web Symstore.ex_req ex_world = (Inr q, w')"
proof -
  have "wrappable ex_web Symstore.ex_req [1, 2, 3]"
    by (simp add: wrappable_def flate_total_stored Symstore.ex_req_def encodeName_def maxFolderUncompessed_def
        maxBlocks_def maxBlockUncompressed_def)
  from s3.FetchCompressed_effect(4) [OF surjective_pairing _ ex_web_simps(1) solo_joins_ok [OF ex_web_simps(5)] ex_web_simps(5)
      ex_fault_free _ ex_web_source(1) this] ex_ready ex_fresh
  show ?thesis by (cases "FetchCompressed ex_web Symstore.ex_req ex_world"; cases "fst (FetchCompressed ex_web Symstore.ex_req ex_world)")
      simp_all
qed

lemma symstoreRoute_content_witness:
  "\<exists>rec w2 content. symstoreRoute ex_http (NewHandler (objects_of ex_web ex_lib)) ''app.pd_'' ''0123456789abcdef0123456789abcdef1''
      ''app.pd_'' (ex_get_req []) (newStatusRecorder ex_rw) ex_world = (None, rec, w2)
    \<and> served_from (cab_image fl_stored ''app.pdb'' [1, 2, 3]) content \<and> rw_body (sr_ResponseWriter rec) = rd_rest content"
proof -
  from ex_web_fetch obtain q w1 where f: "FetchCompressed ex_web Symstore.ex_req ex_world = (Inr q, w1)" by blast
  have p: "Parse (hl_unicode ex_http) ''app.pd_'' ''0123456789abcdef0123456789abcdef1'' ''app.pd_'' =
      Some (Symstore.ex_req, \<lparr>serve_ContentType = CABContentType, serve_CAB = True\<rparr>)"
    using Parse_compressed by (simp add: ex_http_def)
  have "Filename Symstore.ex_req = ''app.pdb''" by (simp add: Symstore.ex_req_def)
  with symstoreRoute_content [OF ex_web_serving _ _ EqualFold_refl p, of ex_rw q w1 ex_lib "ex_get_req []"] f
  show ?thesis by (auto simp: ex_web_source ex_rw_def ex_http_def)
qed

end
