(* ===== verification/HttpRuns.thy ===== *)
theory HttpRuns
  imports HttpProps
begin

text \<open>
  The server at work: requests on both listeners and sweeps, in any order, as a step relation.
  The locale \<open>objects_runs\<close> says what the handlers need of the object service for every such
  run to be a run of the cache; the service of \<open>Service\<close> provides it, panics included.
\<close>

inductive http_step :: "server \<Rightarrow> cache \<Rightarrow> int \<Rightarrow> world \<Rightarrow> world \<Rightarrow> bool" for srv c maxUnused where
  http_public: "srv_public srv r rw w = (p, rw', w') \<Longrightarrow> http_step srv c maxUnused w w'"
| http_admin: "srv_admin srv r rw w = (rw', w') \<Longrightarrow> http_step srv c maxUnused w w'"
| http_sweep: "http_step srv c maxUnused w (RunEviction c maxUnused evs w)"

lemma read_close:
  "\<exists>fs'. same_store (w_fs w) fs'
     \<and> snd (on_fs (\<lambda>fs. f_Close fs f) (snd (on_fs (\<lambda>fs. reader_of fs f) w))) = w\<lparr>w_fs := fs'\<rparr>"
proof -
  obtain x fs1 where r: "reader_of (w_fs w) f = (x, fs1)" by fastforce
  obtain y fs2 where c: "f_Close fs1 f = (y, fs2)" by fastforce
  have "same_store (w_fs w) fs2" using reader_of_store [OF r] read_only_calls(5) [OF c] same_store_trans by blast
  then show ?thesis by (auto simp: on_fs_def r c)
qed

locale objects_runs =
  fixes ok :: "world \<Rightarrow> bool"
    and runs :: "world \<Rightarrow> world \<Rightarrow> bool"
    and ob :: objects_if
  assumes runs_trans: "runs a b \<Longrightarrow> runs b d \<Longrightarrow> runs a d"
    and runs_read: "same_store (w_fs w) fs' \<Longrightarrow> runs w (w\<lparr>w_fs := fs'\<rparr>)"
    and runs_count: "gauges (f (w_met w)) = gauges (w_met w) \<Longrightarrow> runs w (on_met f w)"
    and ok_runs: "ok w \<Longrightarrow> runs w w' \<Longrightarrow> ok w'"
    and fetch_runs: "ok w \<Longrightarrow> runs w (snd (ob_Fetch ob req w))"
    and compressed_runs: "ok w \<Longrightarrow> runs w (snd (ob_FetchCompressed ob req w))"
    and source_runs: "ok w \<Longrightarrow> runs w (snd (ob_SourceFile ob req p w))"
begin

lemma runs_refl: "runs w w"
  using runs_count [of id w] by (simp add: on_met_def)

lemma runs_file: "runs w (snd (on_fs (\<lambda>fs. f_Close fs f) (snd (on_fs (\<lambda>fs. reader_of fs f) w))))"
  using read_close [of w f] runs_read by auto

lemma answer_error_world [simp]: "snd (snd (answer_error e s w)) = w"
  by (cases e) (simp_all add: answer_error_def)

lemma answer_file_runs: "runs w (snd fetched) \<Longrightarrow> runs w (snd (snd (answer_file lib r ct n fetched s)))"
  using runs_trans [OF _ runs_file]
  by (cases fetched) (auto simp: answer_file_def Let_def case_prod_unfold split: sum.splits option.splits)

lemma symstoreRoute_runs: "ok w \<Longrightarrow> runs w (snd (snd (symstoreRoute lib (NewHandler ob) a b c r s w)))"
  by (simp add: symstoreRoute_def NewHandler_def Let_def runs_refl answer_file_runs fetch_runs compressed_runs split: option.splits)

lemma serveELF_runs: "ok w \<Longrightarrow> runs w (snd (snd (serveELF lib (NewHandler ob) b ft pl r s w)))"
  by (simp add: serveELF_def NewHandler_def runs_refl answer_file_runs fetch_runs split: option.splits)

lemma debuginfodSource_runs: "ok w \<Longrightarrow> runs w (snd (snd (debuginfodSource lib (NewHandler ob) b p r s w)))"
  using source_runs [of w _ p]
  by (auto simp: debuginfodSource_def NewHandler_def case_prod_unfold runs_refl split: option.splits sum.splits)

lemma withMetrics_runs:
  assumes "\<And>s. runs w (snd (snd (next s w)))"
  shows "runs w (snd (snd (withMetrics label next rw w)))"
  using assms [of "newStatusRecorder rw"] runs_trans [OF _ runs_count, of w]
  by (auto simp: withMetrics_def case_prod_unfold split: option.splits)

lemma serve_public_runs: "ok w \<Longrightarrow> runs w (snd (snd (serve_public lib (NewHandler ob) route r rw w)))"
  by (cases route) (simp_all add: serve_public_def debuginfodDebug_def debuginfodExecutable_def withMetrics_runs
      symstoreRoute_runs serveELF_runs debuginfodSource_runs)

lemma public_runs:
  assumes "ok w"
  shows "runs w (snd (snd (srv_public (NewServer lib (NewHandler ob) rdy expo dbg) r rw w)))"
proof -
  let ?w = "on_met (\<lambda>m. m\<lparr>RequestsInFlight := RequestsInFlight m + 1\<rparr>) w"
  have w: "runs w ?w" by (rule runs_count) (simp add: gauges_def)
  have "runs ?w (snd (snd (public_mux lib (NewHandler ob) dbg r rw ?w)))"
    by (simp add: public_mux_def runs_refl serve_public_runs [OF ok_runs [OF assms w]] split: option.splits)
  moreover have "runs v (on_met (\<lambda>m. m\<lparr>RequestsInFlight := RequestsInFlight m - 1\<rparr>) v)" for v
    by (rule runs_count) (simp add: gauges_def)
  ultimately show ?thesis
    using runs_trans [OF w] runs_trans by (simp add: NewServer_def trackInFlight_def case_prod_unfold)
qed

lemma admin_runs:
  assumes "\<And>f v. rdy = Some f \<Longrightarrow> runs v (snd (f v))"
  shows "runs w (snd (srv_admin (NewServer lib h rdy expo dbg) r rw w))"
proof -
  have "runs w (snd (readyz rdy rw w))"
    using assms [OF _, of _ w] by (auto simp: readyz_def runs_refl split: option.splits prod.splits bool.splits)
  then show ?thesis by (simp add: NewServer_def admin_mux_def runs_refl)
qed

end

lemma SourceFile_steps:
  assumes "svc_ready s w" and "svc_fetcher s = S3_Fetch G" and "joins_ok s"
  shows "svc_steps s w (snd (SourceFile s lib req p w))"
proof -
  obtain x w1 where o: "object s req w = (x, w1)" by fastforce
  note st = s3.object_steps(1) [OF o assms]
  have "svc_steps s w (snd (on_fs (\<lambda>fs. f_Close fs f) (snd (on_fs (\<lambda>fs. reader_of fs f) w1))))" for f
    using read_close [of w1 f] rtranclp_trans [OF st quiet_steps [OF quiet_read]] by fastforce
  with st o show ?thesis
    by (auto simp: SourceFile_def source_of_def Let_def case_prod_unfold split: sum.splits option.splits)
qed

interpretation service_runs: objects_runs
  "\<lambda>w. svc_ready s w \<and> svc_fetcher s = S3_Fetch G \<and> joins_ok s" "svc_steps s" "objects_of s lib" for s G lib
proof
  fix w req p
  assume ok: "svc_ready s w \<and> svc_fetcher s = S3_Fetch G \<and> joins_ok s"
  show "svc_steps s w (snd (ob_Fetch (objects_of s lib) req w))"
    using s3.object_steps(1) [OF surjective_pairing] ok by (simp add: objects_of_def Fetch_def)
  show "svc_steps s w (snd (ob_FetchCompressed (objects_of s lib) req w))"
    using s3.FetchCompressed_effect(1) [OF surjective_pairing] ok by (simp add: objects_of_def)
  show "svc_steps s w (snd (ob_SourceFile (objects_of s lib) req p w))"
    using SourceFile_steps ok by (simp add: objects_of_def)
qed (use quiet_steps [OF quiet_read] quiet_steps [OF quiet_met] ready_steps(1) in \<open>auto intro: rtranclp_trans\<close>)

lemma http_run_steps:
  assumes "(http_step (NewServer lib (NewHandler (objects_of s blib)) rdy expo dbg) (svc_cache s) maxUnused)\<^sup>*\<^sup>* w w'"
    and "svc_ready s w" and "svc_fetcher s = S3_Fetch G" and "joins_ok s"
    and "\<And>f v. rdy = Some f \<Longrightarrow> svc_steps s v (snd (f v))"
  shows "svc_steps s w w' \<and> svc_ready s w'"
  using assms(1)
proof (induction rule: rtranclp_induct)
  case (step y z)
  have ok: "svc_ready s y \<and> svc_fetcher s = S3_Fetch G \<and> joins_ok s" using step.IH assms(3,4) by blast
  from step.hyps(2) have "svc_steps s y z"
  proof cases
    case (http_public r rw p rw')
    with service_runs.public_runs [OF ok, of lib blib rdy expo dbg r rw] show ?thesis by simp
  next
    case (http_admin r rw rw')
    have "svc_steps s y (snd (srv_admin (NewServer lib (NewHandler (objects_of s blib)) rdy expo dbg) r rw y))"
      by (rule service_runs.admin_runs) (rule assms(5))
    with http_admin show ?thesis by simp
  next
    case (http_sweep evs)
    with RunEviction_steps show ?thesis by simp
  qed
  with step.IH ready_steps(1) show ?case by (blast intro: rtranclp_trans)
qed (simp add: assms(2))

end
