(* ===== verification/Config.thy ===== *)
theory Config
  imports GoStrings
begin

text \<open>
  Package \<open>config\<close>: flags, the secret token and validation. The parser of package \<open>flag\<close> is
  written out for the thirteen flags (\<open>-help\<close> is an undefined flag: both are errors); \<open>time.ParseDuration\<close>, the environment variables and
  \<open>os.ReadFile\<close> are the parameter record \<open>config_env\<close>. Durations are nanoseconds.
\<close>

section \<open>strings.TrimSpace\<close>

definition unicode_IsSpace :: "rune \<Rightarrow> bool" where
  "unicode_IsSpace r \<longleftrightarrow> (9 \<le> r \<and> r \<le> 13) \<or> (0x2000 \<le> r \<and> r \<le> 0x200A)
     \<or> r \<in> {32, 0x85, 0xA0, 0x1680, 0x2028, 0x2029, 0x202F, 0x205F, 0x3000}"

definition bytes_nat :: "string \<Rightarrow> nat list" where
  "bytes_nat s = map of_char s"

text \<open>\<open>utf8.DecodeLastRuneInString\<close>: back to the last byte that can start a rune, at most four.\<close>

definition last_start :: "nat list \<Rightarrow> nat" where
  "last_start s =
     (case filter (\<lambda>k. k \<le> length s \<and> \<not> cont_byte (s ! (length s - k))) [2, 3, 4] of
        [] \<Rightarrow> min 5 (length s) | k # _ \<Rightarrow> k)"

definition DecodeLastRune :: "nat list \<Rightarrow> rune \<times> nat" where
  "DecodeLastRune s =
     (if last s < 0x80 then (last s, 1)
      else let k = last_start s; (r, w) = DecodeRune (drop (length s - k) s)
           in if w = k then (r, w) else (RuneError, 1))"

function trim_left_space :: "string \<Rightarrow> string" where
  "trim_left_space s =
     (if s = '''' then ''''
      else if unicode_IsSpace (fst (DecodeRune (bytes_nat s)))
      then trim_left_space (drop (snd (DecodeRune (bytes_nat s))) s) else s)"
  by pat_completeness auto
termination
proof (relation "measure length", goal_cases)
  case (2 s)
  then have "bytes_nat s \<noteq> []" by (simp add: bytes_nat_def)
  from DecodeRune_width [OF this] 2 show ?case by (cases s) auto
qed simp

declare trim_left_space.simps [simp del]

lemma DecodeLastRune_width: "s \<noteq> [] \<Longrightarrow> 1 \<le> snd (DecodeLastRune s)"
proof -
  assume "s \<noteq> []"
  then have n: "1 \<le> min 5 (length s)" by (cases s) auto
  then have "1 \<le> last_start s" by (simp add: last_start_def)
  then show ?thesis by (simp add: DecodeLastRune_def Let_def split: prod.splits)
qed

function trim_right_space :: "string \<Rightarrow> string" where
  "trim_right_space s =
     (if s = '''' then ''''
      else if unicode_IsSpace (fst (DecodeLastRune (bytes_nat s)))
      then trim_right_space (take (length s - snd (DecodeLastRune (bytes_nat s))) s) else s)"
  by pat_completeness auto
termination
proof (relation "measure length", goal_cases)
  case (2 s)
  then have "bytes_nat s \<noteq> []" by (simp add: bytes_nat_def)
  from DecodeLastRune_width [OF this] 2 show ?case by (cases s) auto
qed simp

declare trim_right_space.simps [simp del]

definition TrimSpace :: "string \<Rightarrow> string" where
  "TrimSpace s = trim_right_space (trim_left_space s)"

section \<open>The configuration\<close>

record sentry_config =
  sc_APIURL :: string
  sc_Org :: string
  sc_Project :: string
  sc_Token :: string

record storage_config =
  st_Bucket :: string
  st_Region :: string
  st_EndpointURL :: string
  st_KeyPrefix :: string

record config =
  Bind :: string
  Admin :: string
  CacheDir :: string
  CacheMaxUnusedFor :: int
  Sentry :: sentry_config
  Storage :: storage_config
  LogLevel :: string
  Debuginfod :: bool

definition defaultBind :: string where
  "defaultBind = '':8080''"

definition defaultAdmin :: string where
  "defaultAdmin = '':9090''"

definition defaultCacheDir :: string where
  "defaultCacheDir = ''/var/cache/debugsymd''"

definition defaultMaxUnused :: int where
  "defaultMaxUnused = 14 * 24 * 3600000000000"

definition defaultSentryAPI :: string where
  "defaultSentryAPI = ''''"

definition defaultLogLevel :: string where
  "defaultLogLevel = ''info''"

definition sentryTokenEnvName :: string where
  "sentryTokenEnvName = ''SENTRY_AUTH_TOKEN''"

definition sentryTokenFileEnvName :: string where
  "sentryTokenFileEnvName = ''SENTRY_AUTH_TOKEN_FILE''"

definition default_config :: config where
  "default_config = \<lparr>Bind = defaultBind, Admin = defaultAdmin, CacheDir = defaultCacheDir,
     CacheMaxUnusedFor = defaultMaxUnused,
     Sentry = \<lparr>sc_APIURL = defaultSentryAPI, sc_Org = '''', sc_Project = '''', sc_Token = ''''\<rparr>,
     Storage = \<lparr>st_Bucket = '''', st_Region = '''', st_EndpointURL = '''', st_KeyPrefix = ''''\<rparr>,
     LogLevel = defaultLogLevel, Debuginfod = True\<rparr>"

record config_env =
  os_Getenv :: "string \<Rightarrow> string"
  os_ReadFile :: "string \<Rightarrow> bytes result"
  time_ParseDuration :: "string \<Rightarrow> int option"

section \<open>Flags\<close>

text \<open>The registered string flags and the field each one sets.\<close>

definition string_flags :: "(string \<times> (string \<Rightarrow> config \<Rightarrow> config)) list" where
  "string_flags =
     [(''bind'', \<lambda>v c. c\<lparr>Bind := v\<rparr>), (''admin'', \<lambda>v c. c\<lparr>Admin := v\<rparr>), (''cache-dir'', \<lambda>v c. c\<lparr>CacheDir := v\<rparr>),
      (''sentry-api-url'', \<lambda>v c. c\<lparr>Sentry := (Sentry c)\<lparr>sc_APIURL := v\<rparr>\<rparr>),
      (''sentry-org'', \<lambda>v c. c\<lparr>Sentry := (Sentry c)\<lparr>sc_Org := v\<rparr>\<rparr>),
      (''sentry-project'', \<lambda>v c. c\<lparr>Sentry := (Sentry c)\<lparr>sc_Project := v\<rparr>\<rparr>),
      (''s3-bucket'', \<lambda>v c. c\<lparr>Storage := (Storage c)\<lparr>st_Bucket := v\<rparr>\<rparr>),
      (''s3-region'', \<lambda>v c. c\<lparr>Storage := (Storage c)\<lparr>st_Region := v\<rparr>\<rparr>),
      (''s3-endpoint-url'', \<lambda>v c. c\<lparr>Storage := (Storage c)\<lparr>st_EndpointURL := v\<rparr>\<rparr>),
      (''s3-key-prefix'', \<lambda>v c. c\<lparr>Storage := (Storage c)\<lparr>st_KeyPrefix := v\<rparr>\<rparr>),
      (''log-level'', \<lambda>v c. c\<lparr>LogLevel := v\<rparr>)]"

definition durationFlag :: string where
  "durationFlag = ''cache-max-unused-for''"

definition boolFlag :: string where
  "boolFlag = ''debuginfod''"

definition strconv_ParseBool :: "string \<Rightarrow> bool option" where
  "strconv_ParseBool s =
     (if s \<in> {''1'', ''t'', ''T'', ''TRUE'', ''true'', ''True''} then Some True
      else if s \<in> {''0'', ''f'', ''F'', ''FALSE'', ''false'', ''False''} then Some False
      else None)"

text \<open>The \<open>Set\<close> of a flag that takes a value.\<close>

definition set_value :: "config_env \<Rightarrow> string \<Rightarrow> string \<Rightarrow> config \<Rightarrow> config result" where
  "set_value env name v c =
     (if name = durationFlag
      then (case time_ParseDuration env v of
              None \<Rightarrow> Inl (NewError ''invalid value for flag'') | Some d \<Rightarrow> Inr (c\<lparr>CacheMaxUnusedFor := d\<rparr>))
      else case map_of string_flags name of
             None \<Rightarrow> Inl (NewError ''flag provided but not defined'')
           | Some set_field \<Rightarrow> Inr (set_field v c))"

definition split_eq :: "string \<Rightarrow> string \<times> string option" where
  "split_eq s =
     (case s of [] \<Rightarrow> ([], None)
      | x # xs \<Rightarrow> (case dropWhile (\<lambda>c. c \<noteq> CHR ''='') xs of
           [] \<Rightarrow> (s, None) | _ # v \<Rightarrow> (x # takeWhile (\<lambda>c. c \<noteq> CHR ''='') xs, Some v)))"

text \<open>
  \<open>FlagSet.Parse\<close>: an argument that is no flag, or \<open>--\<close>, ends the flags; a value follows an
  equals sign or is the next argument; the boolean flag needs none.
\<close>

fun parse_flags :: "config_env \<Rightarrow> string list \<Rightarrow> config \<Rightarrow> config result" where
  "parse_flags env [] c = Inr c"
| "parse_flags env (s # rest) c =
     (if length s < 2 \<or> hd s \<noteq> CHR ''-'' then Inr c
      else if s = ''--'' then Inr c
      else let body = (if s ! 1 = CHR ''-'' then drop 2 s else drop 1 s) in
      if hd body = CHR ''-'' \<or> hd body = CHR ''='' then Inl (NewError ''bad flag syntax'')
      else case split_eq body of (name, value) \<Rightarrow>
        if name = boolFlag then
          (case value of
             None \<Rightarrow> parse_flags env rest (c\<lparr>Debuginfod := True\<rparr>)
           | Some v \<Rightarrow>
               (case strconv_ParseBool v of
                  None \<Rightarrow> Inl (NewError ''invalid boolean value'')
                | Some b \<Rightarrow> parse_flags env rest (c\<lparr>Debuginfod := b\<rparr>)))
        else if name \<noteq> durationFlag \<and> map_of string_flags name = None
        then Inl (NewError ''flag provided but not defined'')
        else case value of
               Some v \<Rightarrow> (case set_value env name v c of Inl e \<Rightarrow> Inl e | Inr c1 \<Rightarrow> parse_flags env rest c1)
             | None \<Rightarrow>
                 (case rest of
                    [] \<Rightarrow> Inl (NewError ''flag needs an argument'')
                  | v # rest1 \<Rightarrow> (case set_value env name v c of Inl e \<Rightarrow> Inl e | Inr c1 \<Rightarrow> parse_flags env rest1 c1)))"

section \<open>Load\<close>

definition loadSecret :: "config_env \<Rightarrow> string \<Rightarrow> string \<Rightarrow> string result" where
  "loadSecret env fileEnv valueEnv =
     (let path = os_Getenv env fileEnv in
      if path = '''' then Inr (os_Getenv env valueEnv)
      else case os_ReadFile env path of
             Inl e \<Rightarrow> Inl (Wrap ''reading secret file'' e)
           | Inr b \<Rightarrow> Inr (TrimSpace (string_of_bytes b)))"

definition validate :: "config \<Rightarrow> goerr option" where
  "validate c =
     (if CacheDir c = '''' then Some (NewError ''cache-dir must not be empty'')
      else if sc_APIURL (Sentry c) \<noteq> '''' \<and> (sc_Org (Sentry c) = '''' \<or> sc_Project (Sentry c) = '''')
      then Some (NewError ''sentry-org and sentry-project are required when sentry-api-url is set'')
      else if sc_APIURL (Sentry c) \<noteq> '''' \<and> sc_Token (Sentry c) = ''''
      then Some (NewError ''token must be set when sentry-api-url is set'')
      else if st_Bucket (Storage c) = '''' then Some (NewError ''s3-bucket is required'')
      else None)"

definition Load :: "config_env \<Rightarrow> string list \<Rightarrow> config result" where
  "Load env args =
     (case parse_flags env args default_config of
        Inl e \<Rightarrow> Inl (Wrap ''parsing flags'' e)
      | Inr c \<Rightarrow>
        (case loadSecret env sentryTokenFileEnvName sentryTokenEnvName of
           Inl e \<Rightarrow> Inl e
         | Inr token \<Rightarrow>
           (let c1 = c\<lparr>Sentry := (Sentry c)\<lparr>sc_Token := token\<rparr>\<rparr> in
            case validate c1 of Some e \<Rightarrow> Inl e | None \<Rightarrow> Inr c1)))"

section \<open>Trimming ASCII\<close>

definition ascii_space :: "char \<Rightarrow> bool" where
  "ascii_space c \<longleftrightarrow> c \<in> set [CHR 0x09, CHR 0x0A, CHR 0x0B, CHR 0x0C, CHR 0x0D, CHR '' '']"

lemma ascii_space_IsSpace: "ascii_space c \<Longrightarrow> (of_char c :: nat) < 0x80 \<and> unicode_IsSpace (of_char c)"
  by (auto simp: ascii_space_def unicode_IsSpace_def)

lemma DecodeRune_ascii: "(of_char c :: nat) < 0x80 \<Longrightarrow> DecodeRune (bytes_nat (c # s)) = (of_char c, 1)"
  by (simp add: bytes_nat_def split: prod.splits)

lemma DecodeLastRune_ascii: "(of_char c :: nat) < 0x80 \<Longrightarrow> DecodeLastRune (bytes_nat (s @ [c])) = (of_char c, 1)"
  by (simp add: bytes_nat_def DecodeLastRune_def)

lemma trim_left_spaces: "list_all ascii_space a \<Longrightarrow> trim_left_space (a @ s) = trim_left_space s"
proof (induction a)
  case (Cons c a)
  then show ?case
    using DecodeRune_ascii [of c "a @ s"] ascii_space_IsSpace [of c] by (subst trim_left_space.simps) simp
qed simp

lemma trim_right_spaces: "list_all ascii_space b \<Longrightarrow> trim_right_space (s @ b) = trim_right_space s"
proof (induction b rule: rev_induct)
  case (snoc c b)
  have "trim_right_space ((s @ b) @ [c]) = trim_right_space (s @ b)"
    using snoc.prems DecodeLastRune_ascii [of c "s @ b"] ascii_space_IsSpace [of c]
    by (subst trim_right_space.simps) simp
  with snoc show ?case by simp
qed simp

definition plain_char :: "char \<Rightarrow> bool" where
  "plain_char c \<longleftrightarrow> (of_char c :: nat) < 0x80 \<and> \<not> unicode_IsSpace (of_char c)"

lemma TrimSpace_ascii:
  assumes "list_all ascii_space a" and "list_all ascii_space b" and "t \<noteq> []"
    and "plain_char (hd t)" and "plain_char (last t)"
  shows "TrimSpace (a @ t @ b) = t"
proof -
  obtain c s where t: "t = c # s" using assms(3) by (cases t) auto
  obtain u d where t': "t = u @ [d]" using assms(3) by (cases t rule: rev_cases) auto
  have "trim_left_space (t @ b) = t @ b"
    using assms(4) DecodeRune_ascii [of c "s @ b"] by (subst trim_left_space.simps) (simp add: t plain_char_def)
  moreover have "trim_right_space t = t"
    using assms(5) DecodeLastRune_ascii [of d u] by (subst trim_right_space.simps) (simp add: t' plain_char_def)
  ultimately show ?thesis
    using trim_left_spaces [OF assms(1), of "t @ b"] trim_right_spaces [OF assms(2), of t] by (simp add: TrimSpace_def)
qed

section \<open>Properties\<close>

text \<open>C36: a configuration that loads has a cache directory and a bucket, and with a Sentry URL also organisation,
  project and token; the token is the secret file's content without surrounding blanks when a file is named,
  and an unreadable file is an error whatever the plain variable holds.\<close>

theorem Load_sound:
  assumes "Load env args = Inr c"
  shows "CacheDir c \<noteq> '''' \<and> st_Bucket (Storage c) \<noteq> ''''
    \<and> (sc_APIURL (Sentry c) \<noteq> '''' \<longrightarrow> sc_Org (Sentry c) \<noteq> '''' \<and> sc_Project (Sentry c) \<noteq> '''' \<and> sc_Token (Sentry c) \<noteq> '''')
    \<and> (case os_Getenv env ''SENTRY_AUTH_TOKEN_FILE'' of
         '''' \<Rightarrow> sc_Token (Sentry c) = os_Getenv env ''SENTRY_AUTH_TOKEN''
       | path \<Rightarrow> (\<exists>b. os_ReadFile env path = Inr b \<and> sc_Token (Sentry c) = TrimSpace (string_of_bytes b)))"
  using assms
  by (auto simp: Load_def loadSecret_def validate_def Let_def sentryTokenFileEnvName_def sentryTokenEnvName_def
      split: sum.splits option.splits if_splits list.splits)

section \<open>Witnesses\<close>

definition ex_config_env :: config_env where
  "ex_config_env = \<lparr>os_Getenv = (\<lambda>n. if n = ''SENTRY_AUTH_TOKEN_FILE'' then ''/s'' else ''''),
     os_ReadFile = (\<lambda>_. Inr (bytes_of_string ''tok '')), time_ParseDuration = (\<lambda>_. None)\<rparr>"

definition ex_args :: "string list" where
  "ex_args = [''-s3-bucket'', ''b'', ''--sentry-api-url=u'', ''-sentry-org=o'', ''-sentry-project'', ''p'', ''-debuginfod=false'']"

definition ex_config :: config where
  "ex_config = default_config\<lparr>Sentry := \<lparr>sc_APIURL = ''u'', sc_Org = ''o'', sc_Project = ''p'', sc_Token = ''tok''\<rparr>,
     Storage := (Storage default_config)\<lparr>st_Bucket := ''b''\<rparr>, Debuginfod := False\<rparr>"

lemma ex_Load: "Load ex_config_env ex_args = Inr ex_config"
proof -
  have "TrimSpace ''tok '' = ''tok''"
    using TrimSpace_ascii [of "[]" "'' ''" "''tok''"] by (simp add: ascii_space_def plain_char_def unicode_IsSpace_def)
  then show ?thesis
    by (simp add: Load_def ex_args_def ex_config_env_def ex_config_def split_eq_def boolFlag_def durationFlag_def string_flags_def
        set_value_def strconv_ParseBool_def loadSecret_def sentryTokenFileEnvName_def validate_def default_config_def
        defaultCacheDir_def)
qed

lemma Load_sound_witness: "sc_Token (Sentry ex_config) = ''tok'' \<and> CacheDir ex_config \<noteq> ''''"
  using Load_sound [OF ex_Load] by (simp add: ex_config_def)

end
