(* ===== verification/Daemon.thy ===== *)
theory Daemon
  imports HttpRuns Config Resolver
begin

text \<open>
  \<open>main.go\<close>: how the daemon is put together and in which order. What it takes from its
  environment is the record \<open>daemon_env\<close>; requests, sweeps and probes then act on the world
  it has prepared. \<open>Process\<close> has the rest, from the start of \<open>main\<close> to its exit status.
\<close>

section \<open>Logging\<close>

datatype log_level = LevelDebug | LevelInfo | LevelWarn | LevelError

definition setupLogging :: "unicode_tables \<Rightarrow> string \<Rightarrow> log_level" where
  "setupLogging uc level =
     (let l = ToLower uc level in
      if l = ''debug'' then LevelDebug
      else if l = ''warn'' then LevelWarn
      else if l = ''error'' then LevelError
      else LevelInfo)"

section \<open>Start\<close>

definition evictionInterval :: int where
  "evictionInterval = 3600000000000"

record daemon_env =
  de_config :: config_env
  de_unicode :: unicode_tables
  de_sentry :: sentry_http
  de_aws_config :: "string option \<Rightarrow> unit result"
  de_GetObject :: "s3_client \<Rightarrow> string \<Rightarrow> string \<Rightarrow> get_object"
  de_sha :: "bytes \<Rightarrow> bytes"
  de_flate :: flate_lib
  de_join :: "string \<Rightarrow> world \<Rightarrow> (goerr option \<times> world) option"
  de_bundle :: bundle_lib
  de_http :: http_lib
  de_exposition :: "metrics \<Rightarrow> bytes"
  de_go_version :: string
  de_build_info :: "(string \<times> (string \<times> string) list) option"

record daemon =
  d_config :: config
  d_level :: log_level
  d_build :: BuildMetadata     \<comment> \<open>logged at start\<close>
  d_service :: service
  d_server :: server
  d_world :: world

definition probe_ready :: "cache \<Rightarrow> world \<Rightarrow> bool \<times> world" where
  "probe_ready c w = (case on_fs (Probe c) w of (r, w1) \<Rightarrow> (r = None, w1))"

definition sentry_opts :: "config \<Rightarrow> sentry_options" where
  "sentry_opts cfg = \<lparr>APIURL = sc_APIURL (Sentry cfg), Org = sc_Org (Sentry cfg), Project = sc_Project (Sentry cfg),
     Token = sc_Token (Sentry cfg), opt_Bucket = st_Bucket (Storage cfg), opt_KeyPrefix = st_KeyPrefix (Storage cfg)\<rparr>"

definition new_service :: "daemon_env \<Rightarrow> config \<Rightarrow> cache \<Rightarrow> s3_client \<Rightarrow> service" where
  "new_service env cfg c client =
     objects_New (Sentry_Lookup (de_unicode env) (de_sentry env) (NewSentry (sentry_opts cfg)))
       (S3_Fetch (de_GetObject env client)) c (de_sha env) (de_flate env) (de_join env)"

lemma new_service_simps [simp]:
  "svc_resolver (new_service env cfg c client) = Sentry_Lookup (de_unicode env) (de_sentry env) (NewSentry (sentry_opts cfg))"
  "svc_fetcher (new_service env cfg c client) = S3_Fetch (de_GetObject env client)"
  "svc_cache (new_service env cfg c client) = c" "svc_sha (new_service env cfg c client) = de_sha env"
  "svc_join (new_service env cfg c client) = de_join env"
  by (simp_all add: new_service_def objects_New_def)

text \<open>
  \<open>run\<close> up to \<open>server.Run\<close>. Seeding runs beside the storage and resolver set-up, which do not
  touch the world, and is waited for before the server starts; when the storage set-up fails
  the process ends and the world is as the cache's creation left it.
\<close>

definition run_start :: "daemon_env \<Rightarrow> string list \<Rightarrow> world \<Rightarrow> daemon result \<times> world" where
  "run_start env args w =
     (case Load (de_config env) args of
        Inl e \<Rightarrow> (Inl (Wrap ''loading config'' e), w)
      | Inr cfg \<Rightarrow>
        (case cache_New (CacheDir cfg) (w_fs w) of
           (Inl e, fs1) \<Rightarrow> (Inl (Wrap ''initializing cache'' e), w\<lparr>w_fs := fs1\<rparr>)
         | (Inr c, fs1) \<Rightarrow>
           (case NewS3 (de_aws_config env) \<lparr>Region = st_Region (Storage cfg), EndpointURL = st_EndpointURL (Storage cfg)\<rparr> of
              Inl e \<Rightarrow> (Inl (Wrap ''initializing storage'' e), w\<lparr>w_fs := fs1\<rparr>)
            | Inr client \<Rightarrow>
              (let svc = new_service env cfg c client;
                   h = NewHandler (objects_of svc (de_bundle env));
                   srv = NewServer (de_http env) h (Some (probe_ready c)) (de_exposition env) (Debuginfod cfg);
                   w1 = SeedMetrics c (w\<lparr>w_fs := fs1\<rparr>)
               in (Inr \<lparr>d_config = cfg, d_level = setupLogging (de_unicode env) (LogLevel cfg),
                     d_build = ReadBuild (de_go_version env) (de_build_info env),
                     d_service = svc, d_server = srv, d_world = w1\<rparr>, w1)))))"

text \<open>The exit of \<open>run\<close>, given how the serving phase ends.\<close>

definition run_exit :: "daemon result \<Rightarrow> run_event \<Rightarrow> goerr option" where
  "run_exit started ev =
     (case started of
        Inl e \<Rightarrow> Some e
      | Inr _ \<Rightarrow> (case snd (Server_Run ev) of None \<Rightarrow> None | Some e \<Rightarrow> Some (Wrap ''running server'' e)))"

section \<open>Lemmas\<close>

lemma run_start_Inr:
  assumes "run_start env args w = (Inr d, w1)"
  obtains c fs1 client where "Load (de_config env) args = Inr (d_config d)"
    and "cache_New (CacheDir (d_config d)) (w_fs w) = (Inr c, fs1)"
    and "d_service d = new_service env (d_config d) c client"
    and "d_server d = NewServer (de_http env) (NewHandler (objects_of (d_service d) (de_bundle env)))
       (Some (probe_ready c)) (de_exposition env) (Debuginfod (d_config d))"
    and "d_world d = SeedMetrics c (w\<lparr>w_fs := fs1\<rparr>)" and "w1 = d_world d"
  using assms by (auto simp: run_start_def Let_def split: result_splits)

text \<open>The world the server starts in: the cache laid out, the gauges seeded.\<close>

lemma run_start_world:
  assumes "run_start env args w = (Inr d, w1)" and "layout (CacheDir (d_config d)) (w_fs w)"
    and "sha_ok (de_sha env)" and "rand_ok (w_fs w)"
  shows "svc_ready (d_service d) (d_world d)"
    and "same_env (w_fs w) (w_fs (d_world d))" 
    and "fault_free (w_fs w) \<Longrightarrow> gauges_exact (svc_cache (d_service d)) (d_world d)"
proof -
  from assms(1) obtain c fs1 client where new: "cache_New (CacheDir (d_config d)) (w_fs w) = (Inr c, fs1)"
    and svc: "d_service d = new_service env (d_config d) c client" and dw: "d_world d = SeedMetrics c (w\<lparr>w_fs := fs1\<rparr>)"
    by (rule run_start_Inr)
  from cache_New_effect [OF new assms(2)] have c: "cache_ok c fs1" "same_env (w_fs w) fs1" by simp_all
  note seed = SeedMetrics_read_only [of "w\<lparr>w_fs := fs1\<rparr>" c]
  note S = same_storeD [OF seed]
  have env: "same_env (w_fs w) (w_fs (d_world d))" using same_env_trans [OF c(2)] S(7) by (simp add: dw)
  then show "same_env (w_fs w) (w_fs (d_world d))" .
  have ok: "cache_ok c (w_fs (d_world d))" using same_store_cache_ok [OF seed] c(1) by (simp add: dw)
  then show "svc_ready (d_service d) (d_world d)"
    using assms(3,4) rand_ok_env [OF env] by (simp add: ready_def svc)
  show "gauges_exact (svc_cache (d_service d)) (d_world d)" if "fault_free (w_fs w)"
    using SeedMetrics_exact [of c "w\<lparr>w_fs := fs1\<rparr>"] c that fault_free_env [OF c(2)] by (simp add: svc dw)
qed

section \<open>Properties\<close>

text \<open>A daemon that starts serves over a cache whose directory layout holds from then on, through any run of
  requests on both listeners and sweeps, whatever fails; and when nothing fails its size gauges are exact
  throughout.\<close>

lemma daemon_serves:
  assumes "run_start env args w = (Inr d, w1)" and "layout (CacheDir (d_config d)) (w_fs w)"
    and "sha_ok (de_sha env)" and "rand_ok (w_fs w)" and "joins_ok (d_service d)"
    and "(http_step (d_server d) (svc_cache (d_service d)) (CacheMaxUnusedFor (d_config d)))\<^sup>*\<^sup>* (d_world d) w'"
  shows "cache_ok (svc_cache (d_service d)) (w_fs w')
    \<and> (fault_free (w_fs w) \<longrightarrow>
         CacheSizeBytes (w_met w') = total_size (svc_cache (d_service d)) (w_fs w')
         \<and> CacheEntries (w_met w') = entry_count (svc_cache (d_service d)) (w_fs w'))"
proof -
  note R = run_start_world [OF assms(1-4)]
  from assms(1) obtain c client where svc: "d_service d = new_service env (d_config d) c client"
    and srv: "d_server d = NewServer (de_http env) (NewHandler (objects_of (d_service d) (de_bundle env)))
       (Some (probe_ready c)) (de_exposition env) (Debuginfod (d_config d))" by (rule run_start_Inr)
  have f: "svc_fetcher (d_service d) = S3_Fetch (de_GetObject env client)" and c: "svc_cache (d_service d) = c"
    by (simp_all add: svc)
  have "svc_steps (d_service d) v (snd (probe_ready c v))" for v
    using step_probe [of c v] by (auto simp: probe_ready_def on_fs_def c split: prod.splits)
  with conjunct1 [OF http_run_steps [OF assms(6) [unfolded srv] R(1) f assms(5)]]
  have "svc_steps (d_service d) (d_world d) w'" by auto
  from cache_run_invariant [OF this readyD(1,2,3) [OF R(1)]] R(3) fault_free_env [OF R(2)] show ?thesis
    by (simp add: gauges_exact_def gauges_def)
qed

text \<open>\<open>/readyz\<close> answers 200 exactly when a file can be staged in the cache and removed again, else 503; a probe
  that succeeds leaves no trace.\<close>

lemma readyz_reflects_cache:
  assumes "run_start env args w = (Inr d, w1)" and "rq_segs r = [''readyz'']" and "is_get r" and "rw_code rw = None"
    and "Probe (svc_cache (d_service d)) (w_fs v) = (p, fs')" and "cache_ok (svc_cache (d_service d)) (w_fs v)"
    and "rand_ok (w_fs v)"
  shows "srv_admin (d_server d) r rw v = (fst (srv_admin (d_server d) r rw v), v\<lparr>w_fs := fs'\<rparr>)
    \<and> wire_status (fst (srv_admin (d_server d) r rw v)) = (if p = None then 200 else 503)
    \<and> (p = None \<longrightarrow> node_at fs' = node_at (w_fs v))"
proof -
  from assms(1) obtain c client where svc: "d_service d = new_service env (d_config d) c client"
    and srv: "d_server d = NewServer (de_http env) (NewHandler (objects_of (d_service d) (de_bundle env)))
       (Some (probe_ready c)) (de_exposition env) (Debuginfod (d_config d))" by (rule run_start_Inr)
  have c: "svc_cache (d_service d) = c" by (simp add: svc)
  have a: "srv_admin (d_server d) r rw v = readyz (Some (probe_ready c)) rw v"
    using assms(2,3) by (simp add: srv NewServer_def admin_mux_def)
  have pr: "probe_ready c v = (p = None, v\<lparr>w_fs := fs'\<rparr>)"
    using assms(5) by (simp add: probe_ready_def on_fs_def c)
  have "wire_status (mux_reply m 503 rw) = 503" for m
    using replied_wire [OF replied_Error [OF unwritten_new [OF assms(4)]]] by (simp add: mux_reply_def)
  moreover have "wire_status (rw_Write b rw) = 200" for b
    using assms(4) by (simp add: wire_status_def rw_Write_def rw_WriteHeader_def Let_def)
  ultimately show ?thesis
    using Probe_effect(5) [OF assms(5-7)] pr by (auto simp: a readyz_def split: bool.splits)
qed

section \<open>Witnesses\<close>

definition ex_net :: sentry_http where
  "ex_net = \<lparr>url_JoinPath = (\<lambda>_ _. Inr ''u''), http_NewRequest = (\<lambda>_. Inr ()), client_Do = (\<lambda>_. Inl (EnvError ''net''))\<rparr>"

definition ex_daemon_env :: daemon_env where
  "ex_daemon_env = \<lparr>de_config = ex_config_env, de_unicode = ascii_tables, de_sentry = ex_net, de_aws_config = (\<lambda>_. Inr ()),
     de_GetObject = (\<lambda>_. ex_get), de_sha = sha_ex, de_flate = fl_stored, de_join = (\<lambda>_ _. None), de_bundle = ex_lib,
     de_http = ex_http, de_exposition = (\<lambda>_. []), de_go_version = ''go1.26'', de_build_info = None\<rparr>"

definition ex_daemon_args :: "string list" where
  "ex_daemon_args = [''-s3-bucket'', ''b'', ''-cache-dir=/c'']"

definition ex_start :: world where
  "ex_start = \<lparr>w_fs = ex_fs0, w_met = ex_met\<rparr>"

definition ex_daemon :: daemon where
  "ex_daemon = projr (fst (run_start ex_daemon_env ex_daemon_args ex_start))"

lemma ex_daemon_config: "\<exists>cfg. Load ex_config_env ex_daemon_args = Inr cfg \<and> CacheDir cfg = ''/c''"
proof -
  have "TrimSpace ''tok '' = ''tok''"
    using TrimSpace_ascii [of "[]" "'' ''" "''tok''"] by (simp add: ascii_space_def plain_char_def unicode_IsSpace_def)
  then show ?thesis
    by (simp add: Load_def ex_daemon_args_def ex_config_env_def split_eq_def boolFlag_def durationFlag_def string_flags_def
        set_value_def loadSecret_def sentryTokenFileEnvName_def validate_def default_config_def defaultSentryAPI_def)
qed

lemma ex_run_start: "run_start ex_daemon_env ex_daemon_args ex_start = (Inr ex_daemon, d_world ex_daemon)"
  and ex_daemon_dir: "CacheDir (d_config ex_daemon) = ''/c''"
  and ex_daemon_cache: "svc_cache (d_service ex_daemon) = ex_cache"
  and ex_daemon_joins: "joins_ok (d_service ex_daemon)"
proof -
  from ex_daemon_config obtain cfg where l: "Load ex_config_env ex_daemon_args = Inr cfg" and d: "CacheDir cfg = ''/c''" by blast
  obtain fs1 where n: "cache_New ''/c'' ex_fs0 = (Inr ex_cache, fs1)" using ex_cache_New by metis
  have "\<exists>client. run_start ex_daemon_env ex_daemon_args ex_start = (Inr ex_daemon, d_world ex_daemon)
      \<and> d_config ex_daemon = cfg \<and> d_service ex_daemon = new_service ex_daemon_env cfg ex_cache client"
    using l d n by (auto simp: run_start_def ex_daemon_def ex_start_def Let_def NewS3_def ex_daemon_env_def)
  then show "run_start ex_daemon_env ex_daemon_args ex_start = (Inr ex_daemon, d_world ex_daemon)"
    "CacheDir (d_config ex_daemon) = ''/c''" "svc_cache (d_service ex_daemon) = ex_cache" "joins_ok (d_service ex_daemon)"
    using d by (auto simp: joins_ok_def ex_daemon_env_def)
qed

lemma ex_start_layout: "layout (CacheDir (d_config ex_daemon)) (w_fs ex_start)" "rand_ok (w_fs ex_start)" "sha_ok (de_sha ex_daemon_env)"
  using layout_ex ex_env sha_ok_ex by (simp_all add: ex_daemon_dir ex_start_def ex_daemon_env_def)

text \<open>The world after a request and a sweep.\<close>

definition ex_busy :: world where
  "ex_busy = RunEviction (svc_cache (d_service ex_daemon)) (CacheMaxUnusedFor (d_config ex_daemon)) [Tick]
     (snd (snd (srv_public (d_server ex_daemon) (ex_get_req [''a'', ''b'', ''a'']) ex_rw (d_world ex_daemon))))"

lemma daemon_serves_witness: "CacheEntries (w_met ex_busy) = entry_count ex_cache (w_fs ex_busy)"
proof -
  let ?v = "snd (snd (srv_public (d_server ex_daemon) (ex_get_req [''a'', ''b'', ''a'']) ex_rw (d_world ex_daemon)))"
  have "http_step (d_server ex_daemon) (svc_cache (d_service ex_daemon)) (CacheMaxUnusedFor (d_config ex_daemon)) (d_world ex_daemon) ?v"
    by (metis http_public prod.collapse)
  moreover have "http_step (d_server ex_daemon) (svc_cache (d_service ex_daemon)) (CacheMaxUnusedFor (d_config ex_daemon)) ?v ex_busy"
    unfolding ex_busy_def by (rule http_sweep)
  ultimately have "(http_step (d_server ex_daemon) (svc_cache (d_service ex_daemon)) (CacheMaxUnusedFor (d_config ex_daemon)))\<^sup>*\<^sup>* (d_world ex_daemon) ex_busy" by simp
  from daemon_serves [OF ex_run_start ex_start_layout(1,3,2) ex_daemon_joins this] ex_env show ?thesis
    by (simp add: ex_daemon_cache ex_start_def)
qed

lemma readyz_reflects_cache_witness:
  "wire_status (fst (srv_admin (d_server ex_daemon) (ex_get_req [''readyz'']) ex_rw ex_world)) \<in> {200, 503}"
proof -
  obtain p fs' where p: "Probe (svc_cache (d_service ex_daemon)) (w_fs ex_world) = (p, fs')" by fastforce
  have "rq_segs (ex_get_req [''readyz'']) = [''readyz'']" "is_get (ex_get_req [''readyz''])" "rw_code ex_rw = None"
    by (simp_all add: ex_get_req_def is_get_def ex_rw_def)
  from readyz_reflects_cache [OF ex_run_start this p] cache_ok_ex ex_env show ?thesis by (simp add: ex_daemon_cache)
qed

end
