(* ===== verification/Frames.thy ===== *)
theory Frames
  imports Staging
begin

text \<open>
  What the operations of the cache leave alone: the staging files of others, and the bytes
  behind a file that has been opened. \<open>touches c own\<close> is a relation of file systems that every
  operation keeps, \<open>own\<close> being the staging files it may write, move or remove; it composes, so that
  it says what the environment of one request can do to it.
\<close>

section \<open>The relation\<close>

text \<open>An inode that exists and is no staging file: nothing will write to it again.\<close>

definition held :: "cache \<Rightarrow> osfs \<Rightarrow> nat \<Rightarrow> bool" where
  "held c fs i \<longleftrightarrow> i < fs_next fs \<and> (\<forall>x. file_at fs (tmp_path c @ [x]) \<noteq> Some i)"

definition touches :: "cache \<Rightarrow> path set \<Rightarrow> osfs \<Rightarrow> osfs \<Rightarrow> bool" where
  "touches c own fs fs' \<longleftrightarrow> fs_next fs \<le> fs_next fs'
     \<and> (\<forall>x i. file_at fs' (tmp_path c @ [x]) = Some i \<longrightarrow> file_at fs (tmp_path c @ [x]) = Some i \<or> fs_next fs \<le> i)
     \<and> (\<forall>x i. tmp_path c @ [x] \<notin> own \<longrightarrow> file_at fs (tmp_path c @ [x]) = Some i \<longrightarrow>
          file_at fs' (tmp_path c @ [x]) = Some i \<and> ino_data (fs_inodes fs' i) = ino_data (fs_inodes fs i))
     \<and> (\<forall>i. held c fs i \<longrightarrow> ino_data (fs_inodes fs' i) = ino_data (fs_inodes fs i))"

lemma touchesD:
  assumes "touches c own fs fs'"
  shows "fs_next fs \<le> fs_next fs'"
    and "file_at fs' (tmp_path c @ [x]) = Some i \<Longrightarrow> file_at fs (tmp_path c @ [x]) = Some i \<or> fs_next fs \<le> i"
    and "tmp_path c @ [x] \<notin> own \<Longrightarrow> file_at fs (tmp_path c @ [x]) = Some i \<Longrightarrow>
       file_at fs' (tmp_path c @ [x]) = Some i \<and> ino_data (fs_inodes fs' i) = ino_data (fs_inodes fs i)"
    and "held c fs i \<Longrightarrow> held c fs' i \<and> ino_data (fs_inodes fs' i) = ino_data (fs_inodes fs i)"
proof -
  show n: "fs_next fs \<le> fs_next fs'"
    and new: "file_at fs' (tmp_path c @ [x]) = Some i \<Longrightarrow> file_at fs (tmp_path c @ [x]) = Some i \<or> fs_next fs \<le> i"
    and "tmp_path c @ [x] \<notin> own \<Longrightarrow> file_at fs (tmp_path c @ [x]) = Some i \<Longrightarrow>
       file_at fs' (tmp_path c @ [x]) = Some i \<and> ino_data (fs_inodes fs' i) = ino_data (fs_inodes fs i)" for x i
    using assms unfolding touches_def by blast+
  assume h: "held c fs i"
  then have "held c fs' i" using n new [of _ i] by (auto simp: held_def simp del: file_at_Some)
  with h assms show "held c fs' i \<and> ino_data (fs_inodes fs' i) = ino_data (fs_inodes fs i)"
    unfolding touches_def by blast
qed

lemma touches_refl [simp]: "touches c own fs fs"
  by (simp add: touches_def)

lemma touches_mono: "touches c own fs fs' \<Longrightarrow> own \<subseteq> own' \<Longrightarrow> touches c own' fs fs'"
  unfolding touches_def by blast

lemma touches_trans:
  assumes "touches c own a b" and "touches c own' b d"
  shows "touches c (own \<union> own') a d"
  unfolding touches_def
proof (intro conjI allI impI)
  note A = touchesD [OF assms(1)] and B = touchesD [OF assms(2)]
  show "fs_next a \<le> fs_next d" using A(1) B(1) by simp
  show "file_at a (tmp_path c @ [x]) = Some i \<or> fs_next a \<le> i" if "file_at d (tmp_path c @ [x]) = Some i" for x i
    using B(2) [OF that] A(1) A(2) [of x i] by (auto simp del: file_at_Some)
  show "file_at d (tmp_path c @ [x]) = Some i" "ino_data (fs_inodes d i) = ino_data (fs_inodes a i)"
    if "tmp_path c @ [x] \<notin> own \<union> own'" "file_at a (tmp_path c @ [x]) = Some i" for x i
    using A(3) [of x i] B(3) [of x i] that by (auto simp del: file_at_Some)
  show "ino_data (fs_inodes d i) = ino_data (fs_inodes a i)" if "held c a i" for i
    using A(4) [OF that] B(4) by auto
qed

text \<open>A staging file that is new between the two ends does not count.\<close>

lemma touches_new:
  assumes "touches c {} a b" and "touches c {p} b d" and "file_at a p = None"
  shows "touches c {} a d"
proof -
  note T = touches_trans [OF assms(1,2)]
  have "tmp_path c @ [x] \<notin> {} \<union> {p}" if "file_at a (tmp_path c @ [x]) = Some i" for x i
    using that assms(3) by (auto simp del: file_at_Some)
  with T show ?thesis unfolding touches_def by blast
qed

lemma touches_staged:
  assumes "touches c own fs fs'" and "staged c fs f" and "root_ok c" and "segs (f_Name f) \<notin> own"
  shows "staged c fs' f" and "ino_data (fs_inodes fs' (f_ino f)) = ino_data (fs_inodes fs (f_ino f))"
proof -
  from assms(2) obtain x where x: "seg_ok x" "f_Name f = abspath (tmp_path c @ [x])" "file_at fs (tmp_path c @ [x]) = Some (f_ino f)"
    by (auto simp: staged_def)
  then have "tmp_path c @ [x] \<notin> own" using assms(4) segs_tmp_name [OF assms(3)] by simp
  from touchesD(3) [OF assms(1) this x(3)] x(1,2) show "staged c fs' f"
    "ino_data (fs_inodes fs' (f_ino f)) = ino_data (fs_inodes fs (f_ino f))" by (auto simp: staged_def)
qed

section \<open>The operations\<close>

lemma touches_files:
  assumes "same_env fs fs'" and "file_at fs' = file_at fs" and "\<And>i. ino_data (fs_inodes fs' i) = ino_data (fs_inodes fs i)"
  shows "touches c own fs fs'"
  using assms by (simp add: touches_def same_env_def del: file_at_Some)

lemma touches_same_files: "same_files fs fs' \<Longrightarrow> touches c own fs fs'"
  by (rule touches_files) (simp_all add: same_files_def)

lemma touches_read: "same_store fs fs' \<Longrightarrow> touches c own fs fs'"
  by (rule touches_same_files [OF same_files_store])

lemma touches_removed:
  assumes "same_env fs fs'" and "file_at fs' = (\<lambda>p. if p \<in> R then None else file_at fs p)" and "fs_inodes fs' = fs_inodes fs"
  shows "touches c R fs fs'"
  using assms by (auto simp: touches_def same_env_def simp del: file_at_Some)

lemma touches_Lookup:
  assumes "cache_Lookup sha c role ident inner fs = (r, fs')" and "root_ok c" and "sha_ok sha" and "role_ok role"
  shows "touches c own fs fs'"
  using cache_Lookup_effect [OF assms] by (intro touches_files) (simp_all add: fun_eq_iff file_at_def)

lemma touches_NewTemp:
  assumes "NewTemp c fs = (r, fs')" and "cache_ok c fs" and "rand_ok fs"
  shows "touches c {} fs fs'"
proof (cases r)
  case (Inl e)
  with NewTemp_effect(3) [OF assms] touches_read show ?thesis by blast
next
  case (Inr f)
  note e = NewTemp_effect(4) [OF assms Inr] NewTemp_effect(2) [OF assms]
  have f: "file_at fs' = (file_at fs)(segs (f_Name f) := Some (f_ino f))"
    and free: "file_at fs (segs (f_Name f)) = None" using e by (simp_all add: fun_eq_iff file_at_def)
  have "i \<noteq> f_ino f" if "file_at fs p = Some i" for p i
    using fs_okD(4) [OF cache_okD(2) [OF assms(2)]] that e by fastforce
  moreover have "i \<noteq> f_ino f" if "held c fs i" for i using that e by (simp add: held_def)
  ultimately show ?thesis
    using e f free by (simp add: touches_def same_env_def del: file_at_Some)
qed

lemma touches_write:
  assumes "cache_ok c fs" and "staged c fs f"
    and "fs' = fs\<lparr>fs_inodes := (fs_inodes fs)(f_ino f := x), fs_ops := fs_ops fs + k\<rparr>"
  shows "touches c {segs (f_Name f)} fs fs'"
proof -
  obtain y where y: "segs (f_Name f) = tmp_path c @ [y]" "file_at fs (tmp_path c @ [y]) = Some (f_ino f)"
    using stagedD [OF assms(2) cache_okD(1) [OF assms(1)]] by (metis file_at_Some)
  have fl: "file_at fs' = file_at fs" by (simp add: assms(3) fun_eq_iff file_at_def)
  have "i \<noteq> f_ino f" if "file_at fs p = Some i" "p \<noteq> segs (f_Name f)" for p i
    using fs_okD(5) [OF cache_okD(2) [OF assms(1)], of p "f_ino f"] that y by auto
  then have inode: "fs_inodes fs' i = fs_inodes fs i" if "file_at fs p = Some i" "p \<notin> {segs (f_Name f)}" for p i
    using that by (simp add: assms(3) del: file_at_Some)
  have held: "fs_inodes fs' i = fs_inodes fs i" if "held c fs i" for i
    using that y by (auto simp: held_def assms(3) simp del: file_at_Some)
  have "fs_next fs' = fs_next fs" by (simp add: assms(3))
  with fl inode held show ?thesis unfolding touches_def by (auto simp del: file_at_Some)
qed

text \<open>A commit moves its own staging file at most.\<close>

lemma touches_moved:
  assumes "same_env fs fs'" and "cache_ok c fs" and "role_ok role" and "fs_inodes fs' = fs_inodes fs"
    and "file_at fs' = (file_at fs)(segs (f_Name f) := None, entry_path sha c role ident inner := Some (f_ino f))"
  shows "touches c {segs (f_Name f)} fs fs'"
proof -
  have "tmp_path c @ [x] \<noteq> entry_path sha c role ident inner" for x using entry_not_tmp [OF assms(3)] by metis
  with assms(1,4,5) show ?thesis
    by (auto simp: touches_def same_env_def simp del: file_at_Some split: if_splits)
qed

lemma touches_Commit:
  assumes "Commit sha c f role ident inner w = (r, w')" and "ready sha c w" and "staged c (w_fs w) f" and "role_ok role"
  shows "touches c {segs (f_Name f)} (w_fs w) (w_fs w')"
proof -
  note e = Commit_effect [OF assms(1) readyD(1) [OF assms(2)] assms(3) readyD(2) [OF assms(2)] assms(4)]
  show ?thesis
  proof (cases r)
    case None
    from touches_moved [OF e(2) readyD(1) [OF assms(2)] assms(4) e(3) e(5) [OF None]] show ?thesis .
  next
    case (Some x)
    with e show ?thesis by (intro touches_files) auto
  qed
qed

lemma touches_remove:
  assumes "os_Remove fs (f_Name f) = (r, fs')" and "cache_ok c fs" and "staged c fs f"
  shows "touches c {segs (f_Name f)} fs fs'"
proof (cases "r = Inr ()")
  case True
  with remove_staged_effect [OF assms] show ?thesis by (intro touches_removed) (simp_all add: fun_eq_iff)
next
  case False
  with remove_staged_effect [OF assms] show ?thesis by (intro touches_files) simp_all
qed

lemma touches_Probe:
  assumes "Probe c fs = (r, fs')" and "cache_ok c fs" and "rand_ok fs"
  shows "touches c {} fs fs'"
proof -
  obtain rt fs1 where nt: "NewTemp c fs = (rt, fs1)" by fastforce
  note t = NewTemp_effect [OF nt assms(2,3)] and T = touches_NewTemp [OF nt assms(2,3)]
  show ?thesis
  proof (cases rt)
    case (Inl e)
    with assms(1) nt T show ?thesis by (simp add: Probe_def)
  next
    case (Inr f)
    obtain rc fs2 where cl: "f_Close fs1 f = (rc, fs2)" by fastforce
    obtain rr fs3 where rm: "os_Remove fs2 (f_Name f) = (rr, fs3)" by fastforce
    note s = read_only_calls(5) [OF cl]
    have ok2: "cache_ok c fs2" and st2: "staged c fs2 f"
      using t(1) t(4) [OF Inr] same_store_cache_ok [OF s] staged_cong [OF same_storeD(1) [OF s] refl refl] by simp_all
    have fs': "fs' = fs3" using assms(1) nt Inr cl rm by (auto simp: Probe_def split: sum.splits)
    have "touches c {} fs fs2" using touches_trans [OF T touches_read [OF s, of c "{}"]] by simp
    moreover have "file_at fs (segs (f_Name f)) = None" using t(4) [OF Inr] by (simp add: file_at_def)
    ultimately show ?thesis unfolding fs' by (rule touches_new [OF _ touches_remove [OF rm ok2 st2]])
  qed
qed

lemma touches_Evict:
  assumes "Evict c maxUnused w = (r, w')" and "cache_ok c (w_fs w)"
  shows "touches c {p. stale (time_Now (w_fs w) - maxUnused) (w_fs w) p} (w_fs w) (w_fs w')"
proof -
  obtain n err where r: "r = (n, err)" by (cases r)
  from Evict_effect [OF assms(1) [unfolded r] assms(2)] obtain R where R: "R \<subseteq> {p. stale (time_Now (w_fs w) - maxUnused) (w_fs w) p}"
    "file_at (w_fs w') = (\<lambda>p. if p \<in> R then None else file_at (w_fs w) p)" "fs_inodes (w_fs w') = fs_inodes (w_fs w)"
    "same_env (w_fs w) (w_fs w')" by blast
  from touches_mono [OF touches_removed [OF R(4,2,3)] R(1)] show ?thesis .
qed

section \<open>Runs of the cache\<close>

lemma cache_step_touches:
  assumes "cache_step sha c w w'" and "ready sha c w"
  shows "touches c UNIV (w_fs w) (w_fs w')"
  using assms(1)
proof (cases rule: cache_step.cases)
  case (step_lookup role ident inner r fs')
  with touches_Lookup [OF step_lookup(3) readyD(4,2) [OF assms(2)] step_lookup(2)] show ?thesis by simp
next
  case (step_temp r fs')
  with touches_mono [OF touches_NewTemp [OF step_temp(2) readyD(1,3) [OF assms(2)]]] show ?thesis by simp
next
  case (step_write f k x)
  with touches_mono [OF touches_write [OF readyD(1) [OF assms(2)] step_write(2) refl]] show ?thesis by simp
next
  case (step_commit role f ident inner r)
  with touches_mono [OF touches_Commit [OF step_commit(3) assms(2) step_commit(2,1)]] show ?thesis by simp
next
  case (step_drop f r fs')
  with touches_mono [OF touches_remove [OF step_drop(3) readyD(1) [OF assms(2)] step_drop(2)]] show ?thesis by simp
next
  case (step_probe r fs')
  with touches_mono [OF touches_Probe [OF step_probe(2) readyD(1,3) [OF assms(2)]]] show ?thesis by simp
next
  case (step_evict maxUnused r)
  with touches_mono [OF touches_Evict [OF step_evict readyD(1) [OF assms(2)]]] show ?thesis by simp
next
  case (step_read fs')
  with touches_read show ?thesis by simp
next
  case (step_count m)
  then show ?thesis by simp
qed

lemma cache_run_touches:
  assumes "(cache_step sha c)\<^sup>*\<^sup>* w w'" and "ready sha c w"
  shows "touches c UNIV (w_fs w) (w_fs w')"
  using assms(1)
proof (induction rule: rtranclp_induct)
  case (step y z)
  from touches_trans [OF step.IH cache_step_touches [OF step.hyps(2) ready_steps(1) [OF assms(2) step.hyps(1)]]]
  show ?case by simp
qed simp

text \<open>The inode of an entry is held: no staging file has it.\<close>

lemma entry_held:
  assumes "cache_ok c fs" and "in_cache c p" and "file_at fs p = Some i"
  shows "held c fs i"
proof -
  note ok = cache_okD(2) [OF assms(1)]
  have "i < fs_next fs" using fs_okD(4) [OF ok] assms(3) by simp
  moreover have "file_at fs (tmp_path c @ [x]) \<noteq> Some i" for x
    using fs_okD(5) [OF ok, of p i "tmp_path c @ [x]"] assms(2,3) in_cache_not_tmp [OF assms(2), of x] by auto
  ultimately show ?thesis by (simp add: held_def)
qed

end
