(* ===== verification/Threads.thy ===== *)
theory Threads
  imports Synthesis Frames
begin

text \<open>
  Requests as threads: \<open>object\<close>, \<open>download\<close>, \<open>FetchCompressed\<close> and \<open>synthesize\<close> cut at every call that
  other requests can see, one program point per call. \<open>singleflight.Group\<close> is a parameter with the
  contract its documentation gives (locale \<open>singleflight\<close>). The last section shows that a thread
  that runs alone does what the whole functions do.
\<close>

section \<open>A commit in two halves (cache.go)\<close>

text \<open>Up to the rename: the staging file is synced and closed, the directory made, the old entry examined.\<close>

definition Commit_prepare :: "(bytes \<Rightarrow> bytes) \<Rightarrow> cache \<Rightarrow> osfile \<Rightarrow> string \<Rightarrow> string \<Rightarrow> string \<Rightarrow> world
    \<Rightarrow> (int \<times> bool) result \<times> world" where
  "Commit_prepare sha c tmp role debugID inner w =
     (case f_Sync (w_fs w) tmp of
        (Inl e, fs1) \<Rightarrow> (Inl (Wrap ''fsyncing staging file'' e), w\<lparr>w_fs := fs1\<rparr>)
      | (Inr _, fs1) \<Rightarrow>
      (case f_Stat fs1 tmp of
        (Inl e, fs2) \<Rightarrow> (Inl (Wrap ''stat staging file'' e), w\<lparr>w_fs := fs2\<rparr>)
      | (Inr info, fs2) \<Rightarrow>
      (case f_Close fs2 tmp of
        (Inl e, fs3) \<Rightarrow> (Inl (Wrap ''closing staging file'' e), w\<lparr>w_fs := fs3\<rparr>)
      | (Inr _, fs3) \<Rightarrow>
      (let final = cache_path sha c role debugID inner in
       case os_MkdirAll fs3 (filepath_Dir final) of
        (Inl e, fs4) \<Rightarrow> (Inl (Wrap ''creating cache shard dir'' e), w\<lparr>w_fs := fs4\<rparr>)
      | (Inr _, fs4) \<Rightarrow>
      (case os_Stat fs4 final of
        (st, fs5) \<Rightarrow> (Inr (fi_Size info - old_size st, old_exists st), w\<lparr>w_fs := fs5\<rparr>))))))"

definition Commit_rename :: "(bytes \<Rightarrow> bytes) \<Rightarrow> cache \<Rightarrow> osfile \<Rightarrow> string \<Rightarrow> string \<Rightarrow> string \<Rightarrow> int \<Rightarrow> bool \<Rightarrow> world
    \<Rightarrow> goerr option \<times> world" where
  "Commit_rename sha c tmp role debugID inner delta existed w =
     (case os_Rename (w_fs w) (f_Name tmp) (cache_path sha c role debugID inner) of
        (Inl e, fs6) \<Rightarrow> (Some (Wrap ''committing cache entry'' e), w\<lparr>w_fs := fs6\<rparr>)
      | (Inr _, fs6) \<Rightarrow> (None, \<lparr>w_fs = fs6, w_met = met_committed delta existed (w_met w)\<rparr>))"

lemma Commit_halves:
  "Commit sha c tmp role ident inner w =
     (case Commit_prepare sha c tmp role ident inner w of
        (Inl e, w1) \<Rightarrow> (Some e, w1)
      | (Inr (delta, existed), w1) \<Rightarrow> Commit_rename sha c tmp role ident inner delta existed w1)"
  unfolding Commit_def Commit_prepare_def Commit_rename_def Let_def old_size_def old_exists_def
  by (auto split: sum.splits prod.splits)

section \<open>The flight group (golang.org/x/sync/singleflight)\<close>

text \<open>
  \<open>Do\<close> is entering, running the closure when this caller is the one to execute it, and leaving with its
  outcome; a caller that joined takes the outcome once it is there.
\<close>

record 'g flight_group =
  fg_Enter :: "string \<Rightarrow> 'g \<Rightarrow> (nat \<times> bool) \<times> 'g"
  fg_Leave :: "string \<Rightarrow> nat \<Rightarrow> goerr option \<Rightarrow> 'g \<Rightarrow> 'g"
  fg_Outcome :: "nat \<Rightarrow> 'g \<Rightarrow> goerr option option"

locale singleflight =
  fixes G :: "'g flight_group"
    and running :: "'g \<Rightarrow> string \<Rightarrow> nat option"
    and used :: "'g \<Rightarrow> nat \<Rightarrow> bool"
  assumes enter_new: "running g k = None \<Longrightarrow> fg_Enter G k g = ((n, lead), g') \<Longrightarrow>
      lead \<and> \<not> used g n \<and> running g' = (running g)(k := Some n) \<and> used g' = (used g)(n := True)
        \<and> fg_Outcome G n g' = None \<and> (\<forall>m. m \<noteq> n \<longrightarrow> fg_Outcome G m g' = fg_Outcome G m g)"
    and enter_join: "running g k = Some m \<Longrightarrow> fg_Enter G k g = ((n, lead), g') \<Longrightarrow> \<not> lead \<and> n = m \<and> g' = g"
    and leave: "running g k = Some n \<Longrightarrow> running (fg_Leave G k n r g) = (running g)(k := None)
        \<and> used (fg_Leave G k n r g) = used g \<and> fg_Outcome G n (fg_Leave G k n r g) = Some r
        \<and> (\<forall>m. m \<noteq> n \<longrightarrow> fg_Outcome G m (fg_Leave G k n r g) = fg_Outcome G m g)"

text \<open>A group as the documentation describes it: a table of the running calls and the outcomes handed out.\<close>

record map_group =
  mg_running :: "string \<Rightarrow> nat option"
  mg_next :: nat
  mg_out :: "nat \<Rightarrow> goerr option option"

definition map_flights :: "map_group flight_group" where
  "map_flights = \<lparr>
     fg_Enter = (\<lambda>k g. case mg_running g k of
        Some n \<Rightarrow> ((n, False), g)
      | None \<Rightarrow> ((mg_next g, True), g\<lparr>mg_running := (mg_running g)(k := Some (mg_next g)), mg_next := Suc (mg_next g),
           mg_out := (mg_out g)(mg_next g := None)\<rparr>)),
     fg_Leave = (\<lambda>k n r g. g\<lparr>mg_running := (mg_running g)(k := None), mg_out := (mg_out g)(n := Some r)\<rparr>),
     fg_Outcome = (\<lambda>n g. mg_out g n)\<rparr>"

definition no_flights :: map_group where
  "no_flights = \<lparr>mg_running = Map.empty, mg_next = 0, mg_out = Map.empty\<rparr>"

interpretation map_flights: singleflight map_flights mg_running "\<lambda>g n. n < mg_next g"
  by unfold_locales (auto simp: map_flights_def fun_eq_iff split: option.splits)

section \<open>Program points\<close>

text \<open>Of \<open>object\<close> with \<open>download\<close> as its closure; the number is the call of the group.\<close>

datatype obj_pc =
    ObjLookup
  | ObjDo
  | ObjWait nat
  | DlResolve nat
  | DlTemp nat location
  | DlFetch nat location osfile
  | DlPrepare nat osfile
  | DlRename nat osfile int bool
  | DlDiscard nat osfile goerr
  | ObjLeave nat "goerr option"
  | ObjReopen
  | ObjDone "opened result"

definition obj_flight :: "request \<Rightarrow> string" where
  "obj_flight req = flightKey roleObjects (fst (cacheKey req)) (snd (cacheKey req))"

definition cmp_flight :: "request \<Rightarrow> string" where
  "cmp_flight req = flightKey roleCabSynth (fst (cacheKey req)) (snd (cacheKey req))"

abbreviation req_Lookup :: "service \<Rightarrow> string \<Rightarrow> request \<Rightarrow> world \<Rightarrow> opened result \<times> world" where
  "req_Lookup s role req \<equiv> svc_Lookup s role (fst (cacheKey req)) (snd (cacheKey req))"

abbreviation req_prepare :: "service \<Rightarrow> osfile \<Rightarrow> string \<Rightarrow> request \<Rightarrow> world \<Rightarrow> (int \<times> bool) result \<times> world" where
  "req_prepare s tmp role req \<equiv> Commit_prepare (svc_sha s) (svc_cache s) tmp role (fst (cacheKey req)) (snd (cacheKey req))"

abbreviation req_rename :: "service \<Rightarrow> osfile \<Rightarrow> string \<Rightarrow> request \<Rightarrow> int \<Rightarrow> bool \<Rightarrow> world \<Rightarrow> goerr option \<times> world" where
  "req_rename s tmp role req \<equiv> Commit_rename (svc_sha s) (svc_cache s) tmp role (fst (cacheKey req)) (snd (cacheKey req))"

text \<open>One step; \<open>None\<close> when the thread waits for a call that is still running, or has ended.\<close>

fun obj_step :: "service \<Rightarrow> 'g flight_group \<Rightarrow> request \<Rightarrow> obj_pc \<Rightarrow> world \<Rightarrow> 'g \<Rightarrow> (obj_pc \<times> world \<times> 'g) option" where
  "obj_step s G req ObjLookup w g =
     Some (case req_Lookup s roleObjects req w of
        (Inl e, w1) \<Rightarrow> (ObjDone (Inl (Wrap ''looking up cached object'' e)), w1, g)
      | (Inr (Some f), w1) \<Rightarrow> (ObjDone (Inr (Some f)), on_met (met_lookup roleObjects ResultHit) w1, g)
      | (Inr None, w1) \<Rightarrow> (ObjDo, on_met (met_lookup roleObjects ResultMiss) w1, g))"
| "obj_step s G req ObjDo w g =
     Some (case fg_Enter G (obj_flight req) g of ((n, lead), g1) \<Rightarrow> (if lead then DlResolve n else ObjWait n, w, g1))"
| "obj_step s G req (ObjWait n) w g =
     (case fg_Outcome G n g of
        None \<Rightarrow> None
      | Some (Some e) \<Rightarrow> Some (ObjDone (Inl (Wrap ''producing cache entry'' e)), w, g)
      | Some None \<Rightarrow> Some (ObjReopen, on_met met_coalesced w, g))"
| "obj_step s G req (DlResolve n) w g =
     Some (case svc_resolver s req of
        Inl e \<Rightarrow>
          (if errors_is e ResolverNotFound
           then (ObjLeave n (Some ObjectsNotFound), on_met (met_resolver ResultNotFound) w, g)
           else (ObjLeave n (Some (Wrap ''resolving'' e)), on_met (met_resolver ResultError) w, g))
      | Inr loc \<Rightarrow> (DlTemp n loc, on_met met_resolver_seconds (on_met (met_resolver ResultOK) w), g))"
| "obj_step s G req (DlTemp n loc) w g =
     Some (case on_fs (NewTemp (svc_cache s)) w of
        (Inl e, w2) \<Rightarrow> (ObjLeave n (Some (Wrap ''creating staging file'' e)), w2, g)
      | (Inr tmp, w2) \<Rightarrow> (DlFetch n loc tmp, w2, g))"
| "obj_step s G req (DlFetch n loc tmp) w g =
     Some (case on_file tmp (svc_fetcher s (Bucket loc) (Key loc)) w of
        ((k, Some e), tmp1, w3) \<Rightarrow>
          (if errors_is e StorageNotFound then (DlDiscard n tmp1 ObjectsNotFound, w3, g)
           else (DlDiscard n tmp1 (Wrap ''fetching object bytes'' e), on_met met_storage_error w3, g))
      | ((k, None), tmp1, w3) \<Rightarrow> (DlPrepare n tmp1, on_met (met_fetched k) w3, g))"
| "obj_step s G req (DlPrepare n tmp) w g =
     Some (case req_prepare s tmp roleObjects req w of
        (Inl e, w1) \<Rightarrow> (DlDiscard n tmp (Wrap ''committing object to cache'' e), w1, g)
      | (Inr (delta, existed), w1) \<Rightarrow> (DlRename n tmp delta existed, w1, g))"
| "obj_step s G req (DlRename n tmp delta existed) w g =
     Some (case req_rename s tmp roleObjects req delta existed w of
        (Some e, w1) \<Rightarrow> (DlDiscard n tmp (Wrap ''committing object to cache'' e), w1, g)
      | (None, w1) \<Rightarrow> (ObjLeave n None, w1, g))"
| "obj_step s G req (DlDiscard n tmp e) w g = Some (ObjLeave n (Some e), discard tmp w, g)"
| "obj_step s G req (ObjLeave n r) w g =
     Some (case r of Some e \<Rightarrow> ObjDone (Inl (Wrap ''producing cache entry'' e)) | None \<Rightarrow> ObjReopen, w, fg_Leave G (obj_flight req) n r g)"
| "obj_step s G req ObjReopen w g =
     Some (case req_Lookup s roleObjects req w of
        (Inl e, w1) \<Rightarrow> (ObjDone (Inl (Wrap ''opening downloaded object'' e)), w1, g)
      | (Inr f, w1) \<Rightarrow> (ObjDone (Inr f), w1, g))"
| "obj_step s G req (ObjDone r) w g = None"

text \<open>Of \<open>FetchCompressed\<close> with \<open>synthesize\<close> as its closure. The lookups carry the roles still to be tried.\<close>

datatype cmp_pc =
    CmpLookup "string list"
  | CmpDo
  | CmpWait nat
  | CmpObject nat obj_pc
  | SynMagic nat osfile fileinfo
  | SynSeek nat osfile fileinfo bool
  | SynTemp nat osfile fileinfo bool
  | SynFill nat osfile fileinfo bool osfile
  | SynPrepare nat osfile osfile string
  | SynRename nat osfile osfile string int bool
  | SynDiscard nat osfile osfile goerr
  | SynClose nat osfile "goerr option"
  | CmpLeave nat "goerr option"
  | CmpReopen "string list"
  | CmpDone "opened result"

fun cmp_step :: "service \<Rightarrow> 'g flight_group \<Rightarrow> request \<Rightarrow> cmp_pc \<Rightarrow> world \<Rightarrow> 'g \<Rightarrow> (cmp_pc \<times> world \<times> 'g) option" where
  "cmp_step s G req (CmpLookup []) w g = Some (CmpDo, on_met (met_lookup labelCompressed ResultMiss) w, g)"
| "cmp_step s G req (CmpLookup (role # roles)) w g =
     Some (case req_Lookup s role req w of
        (Inl e, w1) \<Rightarrow> (CmpDone (Inl (Wrap ''looking up cache'' e)), w1, g)
      | (Inr (Some f), w1) \<Rightarrow> (CmpDone (Inr (Some f)), on_met (met_lookup role ResultHit) w1, g)
      | (Inr None, w1) \<Rightarrow> (CmpLookup roles, w1, g))"
| "cmp_step s G req CmpDo w g =
     Some (case fg_Enter G (cmp_flight req) g of ((n, lead), g1) \<Rightarrow> (if lead then CmpObject n ObjLookup else CmpWait n, w, g1))"
| "cmp_step s G req (CmpWait n) w g =
     (case fg_Outcome G n g of
        None \<Rightarrow> None
      | Some (Some e) \<Rightarrow> Some (CmpDone (Inl (Wrap ''producing cache entry'' e)), w, g)
      | Some None \<Rightarrow> Some (CmpReopen [roleRawCompressed, roleCabSynth], on_met met_coalesced w, g))"
| "cmp_step s G req (CmpObject n (ObjDone r)) w g =
     Some (case r of
        Inl e \<Rightarrow> CmpLeave n (Some e)
      | Inr None \<Rightarrow> CmpLeave n (Some (Wrap ''reading object magic'' (EnvError ''invalid argument'')))
      | Inr (Some (obj, info)) \<Rightarrow> SynMagic n obj info, w, g)"
| "cmp_step s G req (CmpObject n p) w g =
     (case obj_step s G req p w g of None \<Rightarrow> None | Some (p', w1, g1) \<Rightarrow> Some (CmpObject n p', w1, g1))"
| "cmp_step s G req (SynMagic n obj info) w g =
     Some (case on_fs (\<lambda>fs. reader_of fs obj) w of (head, w1) \<Rightarrow>
       (case fst (startsWithCabMagic head) of
          Inl e \<Rightarrow> SynClose n obj (Some e)
        | Inr isCab \<Rightarrow> SynSeek n obj info isCab, w1, g))"
| "cmp_step s G req (SynSeek n obj info isCab) w g =
     Some (case f_SeekStart (w_fs w) obj of
        (Inl e, _, fs2) \<Rightarrow> (SynClose n obj (Some (Wrap ''rewinding object'' e)), w\<lparr>w_fs := fs2\<rparr>, g)
      | (Inr _, obj1, fs2) \<Rightarrow> (SynTemp n obj1 info isCab, w\<lparr>w_fs := fs2\<rparr>, g))"
| "cmp_step s G req (SynTemp n obj info isCab) w g =
     Some (case on_fs (NewTemp (svc_cache s)) w of
        (Inl e, w1) \<Rightarrow> (SynClose n obj (Some (Wrap ''creating staging file'' e)), w1, g)
      | (Inr tmp, w1) \<Rightarrow> (SynFill n obj info isCab tmp, w1, g))"
| "cmp_step s G req (SynFill n obj info isCab tmp) w g =
     Some (case on_fs (\<lambda>fs. reader_of fs obj) w of (input, w1) \<Rightarrow>
       (case synth_fill s req isCab info tmp input w1 of
          (Inl e, tmp1, w2) \<Rightarrow> (SynDiscard n obj tmp1 e, w2, g)
        | (Inr role, tmp1, w2) \<Rightarrow> (SynPrepare n obj tmp1 role, w2, g)))"
| "cmp_step s G req (SynPrepare n obj tmp role) w g =
     Some (case req_prepare s tmp role req w of
        (Inl e, w1) \<Rightarrow> (SynDiscard n obj tmp (Wrap ''committing cabinet to cache'' e), w1, g)
      | (Inr (delta, existed), w1) \<Rightarrow> (SynRename n obj tmp role delta existed, w1, g))"
| "cmp_step s G req (SynRename n obj tmp role delta existed) w g =
     Some (case req_rename s tmp role req delta existed w of
        (Some e, w1) \<Rightarrow> (SynDiscard n obj tmp (Wrap ''committing cabinet to cache'' e), w1, g)
      | (None, w1) \<Rightarrow> (SynClose n obj None, w1, g))"
| "cmp_step s G req (SynDiscard n obj tmp e) w g = Some (SynClose n obj (Some e), discard tmp w, g)"
| "cmp_step s G req (SynClose n obj r) w g = Some (CmpLeave n r, snd (on_fs (\<lambda>fs. f_Close fs obj) w), g)"
| "cmp_step s G req (CmpLeave n r) w g =
     Some (case r of Some e \<Rightarrow> CmpDone (Inl (Wrap ''producing cache entry'' e))
       | None \<Rightarrow> CmpReopen [roleRawCompressed, roleCabSynth], w, fg_Leave G (cmp_flight req) n r g)"
| "cmp_step s G req (CmpReopen []) w g = Some (CmpDone (Inr None), w, g)"
| "cmp_step s G req (CmpReopen (role # roles)) w g =
     Some (case req_Lookup s role req w of
        (Inl e, w1) \<Rightarrow> (CmpDone (Inl (Wrap ''looking up cache'' e)), w1, g)
      | (Inr (Some f), w1) \<Rightarrow> (CmpDone (Inr (Some f)), w1, g)
      | (Inr None, w1) \<Rightarrow> (CmpReopen roles, w1, g))"
| "cmp_step s G req (CmpDone r) w g = None"

text \<open>What the goroutine of a request is doing.\<close>

datatype activity = Idle | ObjThread request obj_pc | CmpThread request cmp_pc

fun thread_step :: "service \<Rightarrow> 'g flight_group \<Rightarrow> activity \<Rightarrow> world \<Rightarrow> 'g \<Rightarrow> (activity \<times> world \<times> 'g) option" where
  "thread_step s G Idle w g = None"
| "thread_step s G (ObjThread req p) w g = map_option (apfst (ObjThread req)) (obj_step s G req p w g)"
| "thread_step s G (CmpThread req p) w g = map_option (apfst (CmpThread req)) (cmp_step s G req p w g)"

section \<open>A thread alone\<close>

inductive runs :: "('p \<Rightarrow> world \<Rightarrow> 'g \<Rightarrow> ('p \<times> world \<times> 'g) option) \<Rightarrow> 'p \<times> world \<times> 'g \<Rightarrow> 'p \<times> world \<times> 'g \<Rightarrow> bool"
  for step where
  runs_end: "runs step q q"
| runs_step: "step p w g = Some q1 \<Longrightarrow> runs step q1 q \<Longrightarrow> runs step (p, w, g) q"

lemma runs_trans: "runs step a b \<Longrightarrow> runs step b d \<Longrightarrow> runs step a d"
  by (induction rule: runs.induct) (auto intro: runs_step)

lemma runs_embed:
  assumes "runs step (p, w, g) (p', w', g')"
    and "\<And>p w g p1 w1 g1. step p w g = Some (p1, w1, g1) \<Longrightarrow> step' (f p) w g = Some (f p1, w1, g1)"
  shows "runs step' (f p, w, g) (f p', w', g')"
  using assms(1)
proof (induction "(p, w, g)" "(p', w', g')" arbitrary: p w g rule: runs.induct)
  case (runs_step p w g q1)
  obtain p1 w1 g1 where q1: "q1 = (p1, w1, g1)" by (cases q1)
  from runs_step.hyps(3) [OF q1] assms(2) [OF runs_step.hyps(1) [unfolded q1]] show ?case by (rule runs.runs_step [rotated])
qed (rule runs_end)

lemma cmp_step_inner:
  assumes "\<And>r. p \<noteq> ObjDone r"
  shows "cmp_step s G req (CmpObject n p) w g =
    (case obj_step s G req p w g of None \<Rightarrow> None | Some (p', w1, g1) \<Rightarrow> Some (CmpObject n p', w1, g1))"
  using assms by (cases p) (simp_all del: obj_step.simps, blast)

lemma cmp_step_object:
  assumes "obj_step s G req p w g = Some (p1, w1, g1)"
  shows "cmp_step s G req (CmpObject n p) w g = Some (CmpObject n p1, w1, g1)"
  using assms by (cases p) simp_all

text \<open>The two halves of a commit, with the clean-up that follows a failure.\<close>

lemma dl_commit_runs:
  assumes "Commit (svc_sha s) (svc_cache s) tmp roleObjects (fst (cacheKey req)) (snd (cacheKey req)) w = (rc, w1)"
  shows "runs (obj_step s G req) (DlPrepare n tmp, w, g)
    (ObjLeave n (map_option (Wrap ''committing object to cache'') rc), if rc = None then w1 else discard tmp w1, g)"
proof -
  obtain p v where pr: "req_prepare s tmp roleObjects req w = (p, v)" by fastforce
  show ?thesis
  proof (cases p)
    case (Inl e)
    with assms pr show ?thesis by (intro runs_step [OF _ runs_step [OF _ runs_end]]) (auto simp: Commit_halves)
  next
    case (Inr de)
    obtain delta existed where de: "de = (delta, existed)" by (cases de)
    have rn: "req_rename s tmp roleObjects req delta existed v = (rc, w1)" using assms pr Inr de by (simp add: Commit_halves)
    have "runs (obj_step s G req) (DlRename n tmp delta existed, v, g)
      (ObjLeave n (map_option (Wrap ''committing object to cache'') rc), if rc = None then w1 else discard tmp w1, g)"
    proof (cases rc)
      case None
      with rn show ?thesis by (intro runs_step [OF _ runs_end]) auto
    next
      case (Some e)
      with rn show ?thesis by (intro runs_step [OF _ runs_step [OF _ runs_end]]) auto
    qed
    then show ?thesis by (rule runs_step [rotated]) (simp add: pr Inr de)
  qed
qed

lemma syn_commit_runs:
  assumes "Commit (svc_sha s) (svc_cache s) tmp role (fst (cacheKey req)) (snd (cacheKey req)) w = (rc, w1)"
  shows "runs (cmp_step s G req) (SynPrepare n obj tmp role, w, g)
    (SynClose n obj (map_option (Wrap ''committing cabinet to cache'') rc), if rc = None then w1 else discard tmp w1, g)"
proof -
  obtain p v where pr: "req_prepare s tmp role req w = (p, v)" by fastforce
  show ?thesis
  proof (cases p)
    case (Inl e)
    with assms pr show ?thesis by (intro runs_step [OF _ runs_step [OF _ runs_end]]) (auto simp: Commit_halves)
  next
    case (Inr de)
    obtain delta existed where de: "de = (delta, existed)" by (cases de)
    have rn: "req_rename s tmp role req delta existed v = (rc, w1)" using assms pr Inr de by (simp add: Commit_halves)
    have "runs (cmp_step s G req) (SynRename n obj tmp role delta existed, v, g)
      (SynClose n obj (map_option (Wrap ''committing cabinet to cache'') rc), if rc = None then w1 else discard tmp w1, g)"
    proof (cases rc)
      case None
      with rn show ?thesis by (intro runs_step [OF _ runs_end]) auto
    next
      case (Some e)
      with rn show ?thesis by (intro runs_step [OF _ runs_step [OF _ runs_end]]) auto
    qed
    then show ?thesis by (rule runs_step [rotated]) (simp add: pr Inr de)
  qed
qed

lemma download_runs:
  assumes "download s req w = (x, w')"
  shows "runs (obj_step s G req) (DlResolve n, w, g) (ObjLeave n x, w', g)"
proof (cases "svc_resolver s req")
  case (Inl e)
  with assms show ?thesis
    by (intro runs_step [OF _ runs_end]) (auto simp: download_def split: if_splits)
next
  case (Inr loc)
  let ?w1 = "on_met met_resolver_seconds (on_met (met_resolver ResultOK) w)"
  have start: "obj_step s G req (DlResolve n) w g = Some (DlTemp n loc, ?w1, g)" by (simp add: Inr)
  obtain rt w2 where nt: "on_fs (NewTemp (svc_cache s)) ?w1 = (rt, w2)" by fastforce
  note run = assms [unfolded download_def Inr, simplified, unfolded nt]
  have "runs (obj_step s G req) (DlTemp n loc, ?w1, g) (ObjLeave n x, w', g)"
  proof (cases rt)
    case (Inl e)
    with run nt show ?thesis by (intro runs_step [OF _ runs_end]) auto
  next
    case (Inr tmp)
    obtain k y tmp1 w3 where fw: "on_file tmp (svc_fetcher s (Bucket loc) (Key loc)) w2 = ((k, y), tmp1, w3)"
      by (metis prod.exhaust)
    have "runs (obj_step s G req) (DlFetch n loc tmp, w2, g) (ObjLeave n x, w', g)"
    proof (cases y)
      case (Some e)
      with run Inr fw show ?thesis
        by (cases "errors_is e StorageNotFound") (auto intro!: runs_step [OF _ runs_step [OF _ runs_end]])
    next
      case None
      obtain rc w5 where cm: "Commit (svc_sha s) (svc_cache s) tmp1 roleObjects (fst (cacheKey req)) (snd (cacheKey req))
          (on_met (met_fetched k) w3) = (rc, w5)" by fastforce
      have "x = map_option (Wrap ''committing object to cache'') rc" "w' = (if rc = None then w5 else discard tmp1 w5)"
        using run Inr fw None cm by (auto simp: case_prod_unfold Let_def split: option.splits)
      with dl_commit_runs [OF cm, of G n g] show ?thesis by (intro runs_step [rotated]) (simp_all add: fw None)
    qed
    then show ?thesis by (rule runs_step [rotated]) (simp add: nt Inr)
  qed
  with start show ?thesis by (rule runs_step)
qed

lemma synth_staged_runs:
  assumes "synth_staged s req isCab info obj tmp w = (x, w')"
  shows "runs (cmp_step s G req) (SynFill n obj info isCab tmp, w, g) (SynClose n obj x, w', g)"
proof -
  obtain input w4 where rd: "on_fs (\<lambda>fs. reader_of fs obj) w = (input, w4)" by fastforce
  obtain y tmp1 w5 where fl: "synth_fill s req isCab info tmp input w4 = (y, tmp1, w5)" by (metis prod.exhaust)
  show ?thesis
  proof (cases y)
    case (Inl e)
    with assms rd fl show ?thesis
      by (intro runs_step [OF _ runs_step [OF _ runs_end]]) (auto simp: synth_staged_def)
  next
    case (Inr role)
    obtain rc w6 where cm: "Commit (svc_sha s) (svc_cache s) tmp1 role (fst (cacheKey req)) (snd (cacheKey req)) w5 = (rc, w6)"
      by fastforce
    have "x = map_option (Wrap ''committing cabinet to cache'') rc" "w' = (if rc = None then w6 else discard tmp1 w6)"
      using assms rd fl Inr cm by (auto simp: synth_staged_def case_prod_unfold split: option.splits)
    with syn_commit_runs [OF cm, of G n obj g] show ?thesis by (intro runs_step [rotated]) (simp_all add: rd fl Inr)
  qed
qed

text \<open>The handle that is closed is the one that was opened: closing depends on no position.\<close>

lemma synthesize_from_runs:
  assumes "synthesize_from s req obj info w = (x, w')"
  obtains (found) obj1 where "runs (cmp_step s G req) (SynMagic n obj info, w, g) (SynClose n obj1 x, w', g)"
proof -
  obtain head w1 where h: "on_fs (\<lambda>fs. reader_of fs obj) w = (head, w1)" by fastforce
  obtain sk obj1 fs2 where sk: "f_SeekStart (w_fs w1) obj = (sk, obj1, fs2)" by (metis prod.exhaust)
  obtain rt w3 where nt: "on_fs (NewTemp (svc_cache s)) (w1\<lparr>w_fs := fs2\<rparr>) = (rt, w3)" by fastforce
  note run = assms [unfolded synthesize_from_def h, simplified, unfolded sk, simplified, unfolded nt]
  have front: thesis if "fst (startsWithCabMagic head) = Inr isCab" "sk = Inr ()"
      "runs (cmp_step s G req) (SynTemp n obj1 info isCab, w1\<lparr>w_fs := fs2\<rparr>, g) (SynClose n obj1 x, w', g)" for isCab
  proof -
    have "runs (cmp_step s G req) (SynSeek n obj info isCab, w1, g) (SynClose n obj1 x, w', g)"
      using that(3) by (rule runs_step [rotated]) (simp add: sk that(2))
    then show thesis by (intro found [of obj1] runs_step [rotated]) (simp_all add: h that(1))
  qed
  consider e where "fst (startsWithCabMagic head) = Inl e" | isCab e where "fst (startsWithCabMagic head) = Inr isCab" "sk = Inl e"
    | isCab e where "fst (startsWithCabMagic head) = Inr isCab" "sk = Inr ()" "rt = Inl e"
    | isCab tmp where "fst (startsWithCabMagic head) = Inr isCab" "sk = Inr ()" "rt = Inr tmp"
    by (metis old.unit.exhaust sum.exhaust)
  then show thesis
  proof cases
    case 1
    with run show thesis by (intro found [of obj] runs_step [OF _ runs_end]) (simp add: h)
  next
    case 2
    with run have "x = Some (Wrap ''rewinding object'' e)" "w' = w1\<lparr>w_fs := fs2\<rparr>" by simp_all
    then have "cmp_step s G req (SynSeek n obj info isCab) w1 g = Some (SynClose n obj x, w', g)" by (simp add: sk 2)
    note seek = runs_step [where step = "cmp_step s G req", OF this runs_end]
    show thesis by (rule found [of obj], rule runs_step [OF _ seek]) (simp add: h 2)
  next
    case 3
    then have "runs (cmp_step s G req) (SynTemp n obj1 info isCab, w1\<lparr>w_fs := fs2\<rparr>, g) (SynClose n obj1 x, w', g)"
      using run by (intro runs_step [OF _ runs_end]) (simp add: nt)
    with front [OF 3(1,2)] show thesis .
  next
    case 4
    with run have "synth_staged s req isCab info obj1 tmp w3 = (x, w')" by (simp add: nt)
    from synth_staged_runs [OF this, of G n g]
    have "runs (cmp_step s G req) (SynTemp n obj1 info isCab, w1\<lparr>w_fs := fs2\<rparr>, g) (SynClose n obj1 x, w', g)"
      by (rule runs_step [rotated]) (simp add: nt 4)
    with front [OF 4(1,2)] show thesis .
  qed
qed

lemma flights_differ: "obj_flight req \<noteq> cmp_flight req'"
  by (simp add: obj_flight_def cmp_flight_def flightKey_def roleObjects_def roleCabSynth_def)

text \<open>The lookups of \<open>FetchCompressed\<close>.\<close>

lemma cmp_lookup_runs:
  assumes "lookup_roles s roles (fst (cacheKey req)) (snd (cacheKey req)) w = (q, w1)"
  shows "runs (cmp_step s G req) (CmpLookup roles, w, g)
    (case q of Inl e \<Rightarrow> (CmpDone (Inl e), w1, g)
     | Inr (Some (f, role)) \<Rightarrow> (CmpDone (Inr (Some f)), on_met (met_lookup role ResultHit) w1, g)
     | Inr None \<Rightarrow> (CmpDo, on_met (met_lookup labelCompressed ResultMiss) w1, g))"
  using assms
proof (induction roles arbitrary: w)
  case Nil
  then show ?case by (intro runs_step [OF _ runs_end]) auto
next
  case (Cons role roles)
  obtain r v where l: "req_Lookup s role req w = (r, v)" by fastforce
  consider e where "r = Inl e" | f where "r = Inr (Some f)" | "r = Inr None" by (metis option.exhaust sum.exhaust)
  then show ?case
  proof cases
    case 3
    with Cons.prems l Cons.IH [of v] show ?thesis by (intro runs_step) simp_all
  qed (use Cons.prems l in \<open>auto intro!: runs_step [OF _ runs_end]\<close>)
qed

lemma cmp_reopen_runs:
  assumes "lookup_roles s roles (fst (cacheKey req)) (snd (cacheKey req)) w = (q, w1)"
  shows "runs (cmp_step s G req) (CmpReopen roles, w, g)
    (CmpDone (case q of Inl e \<Rightarrow> Inl e | Inr h \<Rightarrow> Inr (map_option fst h)), w1, g)"
  using assms
proof (induction roles arbitrary: w)
  case Nil
  then show ?case by (intro runs_step [OF _ runs_end]) auto
next
  case (Cons role roles)
  obtain r v where l: "req_Lookup s role req w = (r, v)" by fastforce
  consider e where "r = Inl e" | f where "r = Inr (Some f)" | "r = Inr None" by (metis option.exhaust sum.exhaust)
  then show ?case
  proof cases
    case 3
    with Cons.prems l Cons.IH [of v] show ?thesis by (intro runs_step) simp_all
  qed (use Cons.prems l in \<open>auto intro!: runs_step [OF _ runs_end]\<close>)
qed

context singleflight
begin

lemma object_runs:
  assumes "object s req w = (r, w')" and "solo s" and "running g (obj_flight req) = None"
  obtains g' where "runs (obj_step s G req) (ObjLookup, w, g) (ObjDone r, w', g')" and "running g' = running g"
proof -
  obtain r1 w1 where l1: "req_Lookup s roleObjects req w = (r1, w1)" by fastforce
  note run = assms(1) [unfolded object_def case_prod_unfold, simplified, unfolded l1]
  consider (now) "r1 \<noteq> Inr None" | (miss) "r1 = Inr None" by blast
  then show thesis
  proof cases
    case now
    with run l1 show thesis
      by (intro that [of g] runs_step [OF _ runs_end]) (auto split: sum.splits option.splits)
  next
    case miss
    let ?v = "on_met (met_lookup roleObjects ResultMiss) w1"
    obtain n lead g1 where en: "fg_Enter G (obj_flight req) g = ((n, lead), g1)" by (metis prod.exhaust)
    note E = enter_new [OF assms(3) en]
    obtain x w2 where dl: "download s req ?v = (x, w2)" by fastforce
    let ?g2 = "fg_Leave G (obj_flight req) n x g1"
    have "running ?g2 = (running g1)(obj_flight req := None)" using leave [of g1 "obj_flight req" n x] E by simp
    then have g2: "running ?g2 = running g" using E assms(3) by auto
    have po: "produceOnce s (flightKey roleObjects (fst (cacheKey req)) (snd (cacheKey req))) (download s req) ?v
        = (map_option (Wrap ''producing cache entry'') x, w2)"
      using assms(2) dl by (simp add: produceOnce_def solo_def split: option.splits)
    have "runs (obj_step s G req) (DlResolve n, ?v, g1) (ObjDone r, w', ?g2)"
    proof (cases x)
      case (Some e)
      with run miss po have "r = Inl (Wrap ''producing cache entry'' e)" "w' = w2" by simp_all
      then show ?thesis
        by (intro runs_trans [OF download_runs [OF dl]] runs_step [OF _ runs_end]) (simp add: Some)
    next
      case None
      obtain r2 w3 where l2: "req_Lookup s roleObjects req w2 = (r2, w3)" by fastforce
      have "obj_step s G req ObjReopen w2 ?g2 = Some (ObjDone r, w', ?g2)"
        using run miss po l2 None by (auto split: sum.splits)
      note reopen = runs_step [where step = "obj_step s G req", OF this runs_end]
      show ?thesis
        by (rule runs_trans [OF download_runs [OF dl]], rule runs_step [OF _ reopen]) (simp add: None)
    qed
    then have "runs (obj_step s G req) (ObjDo, ?v, g) (ObjDone r, w', ?g2)"
      by (rule runs_step [rotated]) (simp add: en E)
    then have "runs (obj_step s G req) (ObjLookup, w, g) (ObjDone r, w', ?g2)"
      by (rule runs_step [rotated]) (simp add: l1 miss)
    then show thesis using g2 by (rule that)
  qed
qed

lemma synthesize_runs:
  assumes "synthesize s req w = (x, w')" and "solo s" and "running g (obj_flight req) = None"
  obtains g' where "runs (cmp_step s G req) (CmpObject n ObjLookup, w, g) (CmpLeave n x, w', g')" and "running g' = running g"
proof -
  obtain r w1 where o: "object s req w = (r, w1)" by fastforce
  from object_runs [OF o assms(2,3)] obtain g' where g': "runs (obj_step s G req) (ObjLookup, w, g) (ObjDone r, w1, g')"
    "running g' = running g" .
  note obj = runs_embed [OF g'(1), of "cmp_step s G req" "CmpObject n", OF cmp_step_object]
  have "runs (cmp_step s G req) (CmpObject n (ObjDone r), w1, g') (CmpLeave n x, w', g')"
  proof (cases "\<exists>h. r = Inr (Some h)")
    case False
    with assms(1) o show ?thesis
      by (intro runs_step [OF _ runs_end]) (auto simp: synthesize_def split: sum.splits option.splits)
  next
    case True
    then obtain ob info where r: "r = Inr (Some (ob, info))" by auto
    obtain y w2 where sf: "synthesize_from s req ob info w1 = (y, w2)" by fastforce
    from assms(1) o r sf have x: "x = y" "w' = snd (on_fs (\<lambda>fs. f_Close fs ob) w2)" by (simp_all add: synthesize_def)
    from synthesize_from_runs [OF sf, of G n g'] obtain obj1 where
      m: "runs (cmp_step s G req) (SynMagic n ob info, w1, g') (SynClose n obj1 y, w2, g')" .
    have "f_Close fs obj1 = f_Close fs ob" for fs by (simp add: f_Close_def)
    with x have "runs (cmp_step s G req) (SynClose n obj1 y, w2, g') (CmpLeave n x, w', g')"
      by (intro runs_step [OF _ runs_end]) simp
    with m show ?thesis by (intro runs_step [OF _ runs_trans]) (simp_all add: r)
  qed
  with obj g'(2) show thesis by (intro that runs_trans [OF obj])
qed

lemma compressed_runs:
  assumes "FetchCompressed s req w = (r, w')" and "solo s" and "running g = Map.empty"
  obtains g' where "runs (cmp_step s G req) (CmpLookup [roleRawCompressed, roleCabSynth], w, g) (CmpDone r, w', g')"
    and "running g' = running g"
proof -
  obtain q w1 where l1: "lookupCompressed s (fst (cacheKey req)) (snd (cacheKey req)) w = (q, w1)" by fastforce
  note L1 = cmp_lookup_runs [OF l1 [unfolded lookupCompressed_def]]
  note run = assms(1) [unfolded FetchCompressed_def case_prod_unfold, simplified, unfolded l1]
  consider (now) "q \<noteq> Inr None" | (miss) "q = Inr None" by blast
  then show thesis
  proof cases
    case now
    with run have "(CmpDone r, w', g) = (case q of Inl e \<Rightarrow> (CmpDone (Inl e), w1, g)
       | Inr (Some (f, role)) \<Rightarrow> (CmpDone (Inr (Some f)), on_met (met_lookup role ResultHit) w1, g)
       | Inr None \<Rightarrow> (CmpDo, on_met (met_lookup labelCompressed ResultMiss) w1, g))"
      by (auto split: sum.splits option.splits)
    with L1 [of G g] show thesis by (intro that [of g]) simp_all
  next
    case miss
    let ?v = "on_met (met_lookup labelCompressed ResultMiss) w1"
    obtain n lead g1 where en: "fg_Enter G (cmp_flight req) g = ((n, lead), g1)" by (metis prod.exhaust)
    have free: "running g (cmp_flight req) = None" by (simp add: assms(3))
    note E = enter_new [OF free en]
    obtain x w2 where sy: "synthesize s req ?v = (x, w2)" by fastforce
    have "running g1 (obj_flight req) = None" using E flights_differ [of req req] by (simp add: assms(3))
    from synthesize_runs [OF sy assms(2) this] obtain g2 where
      S: "runs (cmp_step s G req) (CmpObject n ObjLookup, ?v, g1) (CmpLeave n x, w2, g2)" "running g2 = running g1" .
    let ?g3 = "fg_Leave G (cmp_flight req) n x g2"
    have "running ?g3 = (running g2)(cmp_flight req := None)" using leave [of g2 "cmp_flight req" n x] E S(2) by simp
    then have g3: "running ?g3 = running g" using E S(2) by (auto simp: assms(3))
    have po: "produceOnce s (flightKey roleCabSynth (fst (cacheKey req)) (snd (cacheKey req))) (synthesize s req) ?v
        = (map_option (Wrap ''producing cache entry'') x, w2)"
      using assms(2) sy by (simp add: produceOnce_def solo_def split: option.splits)
    have "runs (cmp_step s G req) (CmpLeave n x, w2, g2) (CmpDone r, w', ?g3)"
    proof (cases x)
      case (Some e)
      with run miss po show ?thesis by (intro runs_step [OF _ runs_end]) simp
    next
      case None
      obtain q2 w3 where l2: "lookupCompressed s (fst (cacheKey req)) (snd (cacheKey req)) w2 = (q2, w3)" by fastforce
      have "r = (case q2 of Inl e \<Rightarrow> Inl e | Inr h \<Rightarrow> Inr (map_option fst h))" "w' = w3"
        using run miss po None l2 by (auto split: sum.splits)
      with cmp_reopen_runs [OF l2 [unfolded lookupCompressed_def], of G ?g3] show ?thesis
        by (intro runs_step) (simp_all add: None)
    qed
    with S(1) have "runs (cmp_step s G req) (CmpObject n ObjLookup, ?v, g1) (CmpDone r, w', ?g3)" by (rule runs_trans)
    then have "runs (cmp_step s G req) (CmpDo, ?v, g) (CmpDone r, w', ?g3)"
      by (intro runs_step) (simp_all add: en E)
    with L1 [of G g] miss have "runs (cmp_step s G req) (CmpLookup [roleRawCompressed, roleCabSynth], w, g) (CmpDone r, w', ?g3)"
      by (simp add: runs_trans)
    then show thesis using g3 by (rule that)
  qed
qed

end

end
