(* ===== verification/Actions.thy ===== *)
theory Actions
  imports Threads
begin

text \<open>
  The contract of one atomic action of a thread: the world stays \<open>sound\<close> (the cache laid out, every
  entry explained) and nothing but the thread's own staging file is disturbed. One lemma per
  action, and from them the steps of a thread.
\<close>

section \<open>Where entries come from\<close>

text \<open>
  What an entry may hold: what it held at the start, an object that was located and stored, or the compressed form
  of such bytes.
\<close>

inductive explained :: "service \<Rightarrow> (string \<Rightarrow> string \<Rightarrow> bytes option) \<Rightarrow> (path \<Rightarrow> bytes option) \<Rightarrow> path \<Rightarrow> bytes \<Rightarrow> bool"
  for s stored base where
  explained_base: "base p = Some d \<Longrightarrow> explained s stored base p d"
| explained_stored: "svc_resolver s req = Inr loc \<Longrightarrow> stored (Bucket loc) (Key loc) = Some d \<Longrightarrow>
     explained s stored base (req_entry s roleObjects req) d"
| explained_made: "explained s stored base (req_entry s roleObjects req) d \<Longrightarrow> cab_made s req d \<Longrightarrow>
     explained s stored base (req_entry s (compressed_role d) req) (compressed_form s req d)"

definition sound :: "service \<Rightarrow> (path \<Rightarrow> bytes \<Rightarrow> bool) \<Rightarrow> world \<Rightarrow> bool" where
  "sound s X w \<longleftrightarrow> svc_ready s w \<and> (\<forall>p d. svc_entries s w p = Some d \<longrightarrow> X p d)"

definition moves :: "service \<Rightarrow> (path \<Rightarrow> bytes \<Rightarrow> bool) \<Rightarrow> path set \<Rightarrow> world \<Rightarrow> world \<Rightarrow> bool" where
  "moves s X own w w' \<longleftrightarrow> touches (svc_cache s) own (w_fs w) (w_fs w') \<and> sound s X w'"

lemma soundD:
  assumes "sound s X w"
  shows "svc_ready s w" and "cache_ok (svc_cache s) (w_fs w)" and "root_ok (svc_cache s)" and "sha_ok (svc_sha s)"
    and "rand_ok (w_fs w)" and "svc_entries s w p = Some d \<Longrightarrow> X p d"
  using assms readyD unfolding sound_def by blast+

lemma moves_trans: "moves s X own a b \<Longrightarrow> moves s X own b d \<Longrightarrow> moves s X own a d"
  using touches_trans [of "svc_cache s" own "w_fs a" "w_fs b" own] by (simp add: moves_def)

lemma moves_mono: "moves s X own a b \<Longrightarrow> own \<subseteq> own' \<Longrightarrow> moves s X own' a b"
  using touches_mono by (auto simp: moves_def)

lemma moves_empty: "moves s X {} a b \<Longrightarrow> moves s X own a b"
  by (erule moves_mono) simp

lemma moves_sound: "moves s X own w w' \<Longrightarrow> sound s X w'"
  by (simp add: moves_def)

section \<open>Actions\<close>

text \<open>A quiet run keeps the world sound, whatever else it does.\<close>

lemma sound_quiet: "sound s X w \<Longrightarrow> svc_quiet s w w' \<Longrightarrow> sound s X w'"
  using quiet_ready(1) quiet_entry by (fastforce simp: sound_def)

lemma moves_met [simp]: "sound s X w \<Longrightarrow> moves s X own w (on_met f w)"
  by (simp add: moves_def sound_def ready_def)

lemma moves_read:
  assumes "sound s X w" and "same_store (w_fs w) fs'"
  shows "moves s X own w (w\<lparr>w_fs := fs'\<rparr>)"
  using sound_quiet [OF assms(1) quiet_read [OF assms(2)]] touches_read [OF assms(2)] by (simp add: moves_def)

lemma moves_NewTemp:
  assumes "on_fs (NewTemp (svc_cache s)) w = (r, w')" and "sound s X w"
  shows "moves s X {} w w'"
proof -
  from assms(1) obtain fs' where n: "NewTemp (svc_cache s) (w_fs w) = (r, fs')" and w': "w' = w\<lparr>w_fs := fs'\<rparr>" by (rule on_fsE)
  from touches_NewTemp [OF n soundD(2,5) [OF assms(2)]] sound_quiet [OF assms(2) NewTemp_quiet(1) [OF assms(1) soundD(1) [OF assms(2)]]]
  show ?thesis by (simp add: moves_def w')
qed

text \<open>A staging file that a thread has just made.\<close>

definition staged_new :: "cache \<Rightarrow> world \<Rightarrow> osfile \<Rightarrow> bool" where
  "staged_new c w f \<longleftrightarrow> staged c (w_fs w) f \<and> f_pos f = 0 \<and> ino_data (fs_inodes (w_fs w) (f_ino f)) = []"

lemma NewTemp_new:
  assumes "on_fs (NewTemp (svc_cache s)) w = (Inr f, w')" and "sound s X w"
  shows "staged_new (svc_cache s) w' f" and "file_at (w_fs w) (segs (f_Name f)) = None"
  using NewTemp_quiet(3) [OF assms(1) soundD(1) [OF assms(2)] refl] by (simp_all add: staged_new_def)

lemma moves_write:
  assumes "on_file f body w = (r, f', w')" and "sound s X w" and "staged (svc_cache s) (w_fs w) f" and "keeps_env body"
  shows "moves s X {segs (f_Name f)} w w'" and "staged (svc_cache s) (w_fs w') f'" and "segs (f_Name f') = segs (f_Name f)"
    and "r = fst (body (wfile_of (w_fs w) f))"
    and "ino_data (fs_inodes (w_fs w') (f_ino f')) = wf_buf (snd (body (wfile_of (w_fs w) f)))"
proof -
  note o = on_file_quiet [OF assms(1) soundD(1) [OF assms(2)] assms(3,4)]
  show "staged (svc_cache s) (w_fs w') f'" "segs (f_Name f') = segs (f_Name f)" "r = fst (body (wfile_of (w_fs w) f))"
    "ino_data (fs_inodes (w_fs w') (f_ino f')) = wf_buf (snd (body (wfile_of (w_fs w) f)))" using o by simp_all
  let ?v = "snd (body (wfile_of (w_fs w) f))"
  have "fs_ops (w_fs w) \<le> wf_ops ?v"
    using assms(4) [unfolded keeps_env_def wf_env_def, rule_format, of "wfile_of (w_fs w) f"] by (simp add: wfile_of_def)
  then have "w_fs w' = (w_fs w)\<lparr>fs_inodes := (fs_inodes (w_fs w))(f_ino f := \<lparr>ino_data = wf_buf ?v,
      ino_mtime = fs_time (w_fs w) (wf_ops ?v)\<rparr>), fs_ops := fs_ops (w_fs w) + (wf_ops ?v - fs_ops (w_fs w))\<rparr>"
    using assms(1) by (auto simp: on_file_def with_writer_def store_wfile_def split: prod.splits)
  from touches_write [OF soundD(2) [OF assms(2)] assms(3) this] sound_quiet [OF assms(2) o(1)]
  show "moves s X {segs (f_Name f)} w w'" by (simp add: moves_def)
qed

lemma moves_discard:
  assumes "sound s X w" and "staged (svc_cache s) (w_fs w) f"
  shows "moves s X {segs (f_Name f)} w (discard f w)"
proof -
  obtain rc fs1 where cl: "f_Close (w_fs w) f = (rc, fs1)" by fastforce
  obtain rr fs2 where rm: "os_Remove fs1 (f_Name f) = (rr, fs2)" by fastforce
  have d: "discard f w = w\<lparr>w_fs := fs2\<rparr>" by (simp add: discard_def on_fs_def cl rm)
  note s = read_only_calls(5) [OF cl]
  have ok: "cache_ok (svc_cache s) fs1" "staged (svc_cache s) fs1 f"
    using soundD(2) [OF assms(1)] same_store_cache_ok [OF s] assms(2) staged_cong [OF same_storeD(1) [OF s] refl refl] by simp_all
  from touches_trans [OF touches_read [OF s] touches_remove [OF rm ok]]
  have "touches (svc_cache s) {segs (f_Name f)} (w_fs w) (w_fs (discard f w))" by (simp add: d)
  with sound_quiet [OF assms(1) discard_quiet(1) [OF soundD(1) [OF assms(1)] assms(2)]] show ?thesis by (simp add: moves_def)
qed

lemma moves_files:
  assumes "sound s X w" and "same_files (w_fs w) (w_fs w')" and "cache_ok (svc_cache s) (w_fs w')"
  shows "moves s X own w w'"
proof -
  have "svc_entries s w' = svc_entries s w"
    using assms(2) by (auto simp: fun_eq_iff cache_entry_def content_at_file same_files_def)
  moreover have "svc_ready s w'"
    using assms soundD(4,5) [OF assms(1)] rand_ok_env [of "w_fs w" "w_fs w'"] by (simp add: ready_def same_files_def)
  ultimately show ?thesis
    using assms(1) touches_same_files [OF assms(2)] by (simp add: moves_def sound_def)
qed

text \<open>The first half of a commit makes directories only.\<close>

lemma prepare_files:
  assumes "req_prepare s tmp role req w = (r, w')" and "svc_ready s w" and "role_ok role"
  shows "same_files (w_fs w) (w_fs w')" and "cache_ok (svc_cache s) (w_fs w')"
proof -
  let ?c = "svc_cache s" and ?path = "cache_path (svc_sha s) (svc_cache s) role (fst (cacheKey req)) (snd (cacheKey req))"
  obtain r1 fs1 where c1: "f_Sync (w_fs w) tmp = (r1, fs1)" by fastforce
  obtain r2 fs2 where c2: "f_Stat fs1 tmp = (r2, fs2)" by fastforce
  obtain r3 fs3 where c3: "f_Close fs2 tmp = (r3, fs3)" by fastforce
  obtain r4 fs4 where c4: "os_MkdirAll fs3 (filepath_Dir ?path) = (r4, fs4)" by fastforce
  obtain r5 fs5 where c5: "os_Stat fs4 ?path = (r5, fs5)" by fastforce
  note s1 = read_only_calls(4) [OF c1]
  note s2 = same_store_trans [OF s1 read_only_calls(3) [OF c2]]
  note s3 = same_store_trans [OF s2 read_only_calls(5) [OF c3]]
  note s5 = read_only_calls(1) [OF c5]
  have "w_fs w' \<in> {fs1, fs2, fs3, fs4, fs5}"
    using assms(1) c1 c2 c3 c4 c5 by (auto simp: Commit_prepare_def Let_def split: sum.splits)
  then consider "same_store (w_fs w) (w_fs w')"
    | g rm fs4 where "same_store (w_fs w) g" "os_MkdirAll g (filepath_Dir ?path) = (rm, fs4)" "same_store fs4 (w_fs w')"
    using s1 s2 s3 c4 s5 by auto
  then have "same_files (w_fs w) (w_fs w') \<and> cache_ok ?c (w_fs w')"
  proof cases
    case 1
    then show ?thesis using same_files_store same_store_cache_ok readyD(1) [OF assms(2)] by blast
  next
    case 2
    from before_rename [OF 2(1,2) readyD(1,2) [OF assms(2)] assms(3)] 2(3) show ?thesis
      using same_files_store same_files_trans same_store_cache_ok by blast
  qed
  then show "same_files (w_fs w) (w_fs w')" "cache_ok ?c (w_fs w')" by blast+
qed

lemma moves_prepare:
  assumes "req_prepare s tmp role req w = (r, w')" and "sound s X w" and "role_ok role"
  shows "moves s X {} w w'"
  by (rule moves_files [OF assms(2) prepare_files [OF assms(1) soundD(1) [OF assms(2)] assms(3)]])

lemma moves_rename:
  assumes "req_rename s f role req delta existed w = (r, w')" and "sound s X w" and "staged (svc_cache s) (w_fs w) f"
    and "role_ok role" and "X (req_entry s role req) (ino_data (fs_inodes (w_fs w) (f_ino f)))"
  shows "moves s X {segs (f_Name f)} w w'" and "r \<noteq> None \<Longrightarrow> staged (svc_cache s) (w_fs w') f"
proof -
  let ?c = "svc_cache s" and ?e = "entry_path (svc_sha s) (svc_cache s) role (fst (cacheKey req)) (snd (cacheKey req))"
  obtain rn fs' where rn: "os_Rename (w_fs w) (f_Name f) (cache_path (svc_sha s) ?c role (fst (cacheKey req)) (snd (cacheKey req))) = (rn, fs')"
    by fastforce
  have w': "w_fs w' = fs'" and r: "r = None \<longleftrightarrow> rn = Inr ()"
    using assms(1) rn by (auto simp: Commit_rename_def split: sum.splits)
  note R = os_Rename_effect [OF rn cache_okD(2) [OF soundD(2) [OF assms(2)]]]
  have "moves s X {segs (f_Name f)} w w' \<and> (r \<noteq> None \<longrightarrow> staged ?c (w_fs w') f)"
  proof (cases "rn = Inr ()")
    case False
    from same_files_store [OF R(1) [OF this]] same_store_cache_ok [OF R(1) [OF this]] show ?thesis
      using moves_files [OF assms(2)] soundD(2) [OF assms(2)] same_files_staged assms(3) by (simp add: w')
  next
    case True
    note E = entry_rename [OF rn [unfolded True] soundD(2) [OF assms(2)] assms(3) soundD(4) [OF assms(2)] assms(4)]
    have t: "touches ?c {segs (f_Name f)} (w_fs w) fs'"
      by (rule touches_moved [OF R(2) soundD(2) [OF assms(2)] assms(4) R(3) E(2)])
    obtain x where x: "segs (f_Name f) = tmp_path ?c @ [x]" using stagedD [OF assms(3) soundD(3) [OF assms(2)]] by blast
    have "X p d" if "svc_entries s w' p = Some d" for p d
    proof (cases "p = ?e")
      case True
      with that E(2) R(3) assms(5) show ?thesis
        by (auto simp: cache_entry_def content_at_file w' req_entry_def simp del: file_at_Some split: if_splits)
    next
      case False
      with that E(2) R(3) x have "svc_entries s w p = Some d"
        by (auto simp: cache_entry_def content_at_file w' simp del: file_at_Some split: if_splits)
      then show ?thesis by (rule soundD(6) [OF assms(2)])
    qed
    moreover have "svc_ready s w'"
      using E(1) soundD(4,5) [OF assms(2)] rand_ok_env [OF R(2)] by (simp add: ready_def w')
    ultimately show ?thesis using t r True by (simp add: moves_def sound_def w')
  qed
  then show "moves s X {segs (f_Name f)} w w'" and "r \<noteq> None \<Longrightarrow> staged ?c (w_fs w') f" by simp_all
qed

text \<open>An open file: its bytes are an explained entry, and no operation will write to it.\<close>

definition open_ok :: "service \<Rightarrow> (path \<Rightarrow> bytes \<Rightarrow> bool) \<Rightarrow> string \<Rightarrow> request \<Rightarrow> world \<Rightarrow> osfile \<times> fileinfo \<Rightarrow> bool" where
  "open_ok s X role req w h \<longleftrightarrow> held (svc_cache s) (w_fs w) (f_ino (fst h)) \<and> f_pos (fst h) = 0
     \<and> fi_Size (snd h) = int (length (handle_bytes w h)) \<and> X (req_entry s role req) (handle_bytes w h)"

lemma moves_Lookup:
  assumes "req_Lookup s role req w = (r, w')" and "sound s X w" and "role_ok role"
  shows "moves s X {} w w'" and "r = Inr (Some h) \<Longrightarrow> open_ok s X role req w' h"
proof -
  from assms(1) obtain fs' where l: "cache_Lookup (svc_sha s) (svc_cache s) role (fst (cacheKey req)) (snd (cacheKey req)) (w_fs w) = (r, fs')"
    and w': "w' = w\<lparr>w_fs := fs'\<rparr>" unfolding svc_Lookup_def by (rule on_fsE)
  note q = svc_Lookup_quiet(1) [OF assms(1) soundD(1) [OF assms(2)] assms(3)]
  from touches_Lookup [OF l soundD(3,4) [OF assms(2)] assms(3)] sound_quiet [OF assms(2) q]
  show m: "moves s X {} w w'" by (simp add: moves_def w')
  assume "r = Inr (Some h)"
  from opens_entry_Lookup [OF assms(1) [unfolded this] soundD(1) [OF assms(2)] assms(3)]
  have o: "opens_entry s role req w' h" .
  have "held (svc_cache s) (w_fs w') (f_ino (fst h))"
    using o unfolding opens_entry_def by (intro entry_held [OF soundD(2) [OF moves_sound [OF m]] req_entry_in_cache]) blast
  with o soundD(6) [OF moves_sound [OF m]] show "open_ok s X role req w' h" by (simp add: open_ok_def opens_entry_def)
qed

section \<open>What the actions of others leave\<close>

lemma open_ok_moves: "open_ok s X role req w h \<Longrightarrow> moves s X own w w' \<Longrightarrow> open_ok s X role req w' h"
  using touchesD(4) by (fastforce simp: open_ok_def moves_def handle_bytes_def)

lemma staged_moves:
  assumes "staged (svc_cache s) (w_fs w) f" and "moves s X own w w'" and "segs (f_Name f) \<notin> own"
  shows "staged (svc_cache s) (w_fs w') f" and "ino_data (fs_inodes (w_fs w') (f_ino f)) = ino_data (fs_inodes (w_fs w) (f_ino f))"
  using touches_staged [of "svc_cache s" own "w_fs w" "w_fs w'" f] assms soundD(3) [of s X w'] by (simp_all add: moves_def)

lemma staged_new_moves: "staged_new (svc_cache s) w f \<Longrightarrow> moves s X own w w' \<Longrightarrow> segs (f_Name f) \<notin> own \<Longrightarrow>
    staged_new (svc_cache s) w' f"
  unfolding staged_new_def using staged_moves by metis

section \<open>The steps of a thread\<close>

text \<open>The staging file a program point holds.\<close>

fun obj_tmp :: "obj_pc \<Rightarrow> osfile option" where
  "obj_tmp (DlFetch n loc f) = Some f"
| "obj_tmp (DlPrepare n f) = Some f"
| "obj_tmp (DlRename n f delta existed) = Some f"
| "obj_tmp (DlDiscard n f e) = Some f"
| "obj_tmp p = None"

fun cmp_tmp :: "cmp_pc \<Rightarrow> osfile option" where
  "cmp_tmp (CmpObject n p) = obj_tmp p"
| "cmp_tmp (SynFill n obj info isCab f) = Some f"
| "cmp_tmp (SynPrepare n obj f role) = Some f"
| "cmp_tmp (SynRename n obj f role delta existed) = Some f"
| "cmp_tmp (SynDiscard n obj f e) = Some f"
| "cmp_tmp p = None"

definition own_path :: "osfile option \<Rightarrow> path set" where
  "own_path f = (case f of None \<Rightarrow> {} | Some f \<Rightarrow> {segs (f_Name f)})"

lemma own_path_simps [simp]: "own_path None = {}" "own_path (Some f) = {segs (f_Name f)}"
  by (simp_all add: own_path_def)

text \<open>A staging file is kept, given up, or new.\<close>

definition tmp_next :: "world \<Rightarrow> osfile option \<Rightarrow> osfile option \<Rightarrow> bool" where
  "tmp_next w before after \<longleftrightarrow> own_path after \<subseteq> own_path before
     \<or> (\<exists>f. after = Some f \<and> file_at (w_fs w) (segs (f_Name f)) = None)"

text \<open>What holds at each program point.\<close>

definition commit_ready :: "service \<Rightarrow> (path \<Rightarrow> bytes \<Rightarrow> bool) \<Rightarrow> string \<Rightarrow> request \<Rightarrow> world \<Rightarrow> osfile \<Rightarrow> bool" where
  "commit_ready s X role req w f \<longleftrightarrow> role_ok role \<and> staged (svc_cache s) (w_fs w) f
     \<and> X (req_entry s role req) (ino_data (fs_inodes (w_fs w) (f_ino f)))"

fun obj_ok :: "service \<Rightarrow> (path \<Rightarrow> bytes \<Rightarrow> bool) \<Rightarrow> request \<Rightarrow> world \<Rightarrow> obj_pc \<Rightarrow> bool" where
  "obj_ok s X req w (DlTemp n loc) = (svc_resolver s req = Inr loc)"
| "obj_ok s X req w (DlFetch n loc f) = (svc_resolver s req = Inr loc \<and> staged_new (svc_cache s) w f)"
| "obj_ok s X req w (DlPrepare n f) = commit_ready s X roleObjects req w f"
| "obj_ok s X req w (DlRename n f delta existed) = commit_ready s X roleObjects req w f"
| "obj_ok s X req w (DlDiscard n f e) = staged (svc_cache s) (w_fs w) f"
| "obj_ok s X req w (ObjDone r) = (\<forall>h. r = Inr (Some h) \<longrightarrow> open_ok s X roleObjects req w h)"
| "obj_ok s X req w p = True"

abbreviation cmp_roles :: "string set" where
  "cmp_roles \<equiv> {roleRawCompressed, roleCabSynth}"

fun cmp_ok :: "service \<Rightarrow> (path \<Rightarrow> bytes \<Rightarrow> bool) \<Rightarrow> request \<Rightarrow> world \<Rightarrow> cmp_pc \<Rightarrow> bool" where
  "cmp_ok s X req w (CmpLookup roles) = (set roles \<subseteq> cmp_roles)"
| "cmp_ok s X req w (CmpObject n p) = obj_ok s X req w p"
| "cmp_ok s X req w (SynMagic n obj info) = open_ok s X roleObjects req w (obj, info)"
| "cmp_ok s X req w (SynSeek n obj info isCab) =
     (open_ok s X roleObjects req w (obj, info) \<and> isCab = is_cabinet (handle_bytes w (obj, info)))"
| "cmp_ok s X req w (SynTemp n obj info isCab) =
     (open_ok s X roleObjects req w (obj, info) \<and> isCab = is_cabinet (handle_bytes w (obj, info)))"
| "cmp_ok s X req w (SynFill n obj info isCab f) =
     (open_ok s X roleObjects req w (obj, info) \<and> isCab = is_cabinet (handle_bytes w (obj, info))
      \<and> staged_new (svc_cache s) w f)"
| "cmp_ok s X req w (SynPrepare n obj f role) = commit_ready s X role req w f"
| "cmp_ok s X req w (SynRename n obj f role delta existed) = commit_ready s X role req w f"
| "cmp_ok s X req w (SynDiscard n obj f e) = staged (svc_cache s) (w_fs w) f"
| "cmp_ok s X req w (CmpReopen roles) = (set roles \<subseteq> cmp_roles)"
| "cmp_ok s X req w (CmpDone r) = (\<forall>h. r = Inr (Some h) \<longrightarrow> (\<exists>role \<in> cmp_roles. open_ok s X role req w h))"
| "cmp_ok s X req w p = True"

lemma commit_ready_moves: "commit_ready s X role req w f \<Longrightarrow> moves s X own w w' \<Longrightarrow> segs (f_Name f) \<notin> own \<Longrightarrow>
    commit_ready s X role req w' f"
  unfolding commit_ready_def using staged_moves by metis

text \<open>What holds at a point is stable under the actions of others.\<close>

lemma obj_ok_moves:
  assumes "obj_ok s X req w p" and "moves s X own w w'" and "own_path (obj_tmp p) \<inter> own = {}"
  shows "obj_ok s X req w' p"
  using assms staged_moves(1) staged_new_moves commit_ready_moves open_ok_moves by (cases p) (auto; metis)+

lemma cmp_ok_moves:
  assumes "cmp_ok s X req w p" and "moves s X own w w'" and "own_path (cmp_tmp p) \<inter> own = {}"
  shows "cmp_ok s X req w' p"
proof -
  have same: "handle_bytes w' h = handle_bytes w h" if "open_ok s X role req w h" for role h
    using that assms(2) touchesD(4) by (fastforce simp: open_ok_def moves_def handle_bytes_def)
  from assms show ?thesis
  proof (cases p)
    case (CmpDone r)
    with assms(1) open_ok_moves [OF _ assms(2)] show ?thesis by auto
  qed (use same obj_ok_moves staged_moves(1) staged_new_moves commit_ready_moves open_ok_moves in \<open>auto; metis\<close>)+
qed

text \<open>One step of a thread: its own invariant, the world, and its staging file.\<close>

definition step_ok :: "service \<Rightarrow> (path \<Rightarrow> bytes \<Rightarrow> bool) \<Rightarrow> world \<Rightarrow> osfile option \<Rightarrow> world \<Rightarrow> osfile option \<Rightarrow> bool" where
  "step_ok s X w before w' after \<longleftrightarrow> moves s X (own_path before) w w' \<and> tmp_next w before after"

lemma step_ok_kept [intro]: "moves s X (own_path before) w w' \<Longrightarrow> own_path after \<subseteq> own_path before \<Longrightarrow> step_ok s X w before w' after"
  by (simp add: step_ok_def tmp_next_def)

lemma step_ok_stays: "sound s X w \<Longrightarrow> step_ok s X w f w f"
  by (rule step_ok_kept) (simp_all add: moves_def)

lemma step_ok_new: "moves s X {} w w' \<Longrightarrow> file_at (w_fs w) (segs (f_Name f)) = None \<Longrightarrow> step_ok s X w None w' (Some f)"
  by (simp add: step_ok_def tmp_next_def)

lemma on_met_files [simp]: "staged c (w_fs (on_met f w)) = staged c (w_fs w)" "handle_bytes (on_met f w) = handle_bytes w"
    "open_ok s X role req (on_met f w) = open_ok s X role req w" "commit_ready s X role req (on_met f w) = commit_ready s X role req w"
  by (simp_all add: fun_eq_iff handle_bytes_def open_ok_def commit_ready_def)

lemma moves_then_met: "moves s X own w w1 \<Longrightarrow> moves s X own w (on_met f w1)"
  using moves_trans moves_met [OF moves_sound] by blast

text \<open>The two halves of a commit, for either producer.\<close>

lemma prepare_step:
  assumes "req_prepare s f role req w = (r, w1)" and "sound s X w" and "commit_ready s X role req w f"
  shows "step_ok s X w (Some f) w1 (Some f)" and "commit_ready s X role req w1 f" and "staged (svc_cache s) (w_fs w1) f"
proof -
  have "role_ok role" using assms(3) by (simp add: commit_ready_def)
  note m = moves_prepare [OF assms(1,2) this]
  show "commit_ready s X role req w1 f" by (rule commit_ready_moves [OF assms(3) m]) simp
  then show "staged (svc_cache s) (w_fs w1) f" by (simp add: commit_ready_def)
  show "step_ok s X w (Some f) w1 (Some f)" by (rule step_ok_kept [OF moves_empty [OF m]]) simp
qed

lemma rename_step:
  assumes "req_rename s f role req delta existed w = (r, w1)" and "sound s X w" and "commit_ready s X role req w f"
  shows "step_ok s X w (Some f) w1 (Some f)" and "step_ok s X w (Some f) w1 None" and "r \<noteq> None \<Longrightarrow> staged (svc_cache s) (w_fs w1) f"
  using moves_rename [OF assms(1,2)] assms(3) by (auto simp: commit_ready_def)

context fetcher
begin

lemma fetch_step:
  assumes "on_file f (fetch b k) w = ((n, x), f', w')" and "sound s X w" and "staged_new (svc_cache s) w f"
  shows "moves s X {segs (f_Name f)} w w'" and "staged (svc_cache s) (w_fs w') f'" and "segs (f_Name f') = segs (f_Name f)"
    and "x = None \<Longrightarrow> stored b k = Some (ino_data (fs_inodes (w_fs w') (f_ino f')))"
proof -
  have st: "staged (svc_cache s) (w_fs w) f" using assms(3) by (simp add: staged_new_def)
  note o = moves_write [OF assms(1,2) st fetch_env]
  let ?v = "wfile_of (w_fs w) f"
  have nx: "fetch b k ?v = ((n, x), snd (fetch b k ?v))" using o(4) by (simp add: prod_eq_iff)
  have v: "wf_buf ?v = []" "wf_pos ?v = 0" using assms(3) by (simp_all add: staged_new_def wfile_of_def)
  show "moves s X {segs (f_Name f)} w w'" "staged (svc_cache s) (w_fs w') f'" "segs (f_Name f') = segs (f_Name f)"
    using o by simp_all
  show "x = None \<Longrightarrow> stored b k = Some (ino_data (fs_inodes (w_fs w') (f_ino f')))"
    using fetch_into_empty [OF _ v, of b k n "snd (fetch b k ?v)"] nx o(5) by simp
qed

lemma obj_step_ok:
  assumes "obj_step s G req p w g = Some (p', w', g')" and "sound s X w" and "obj_ok s X req w p" and "svc_fetcher s = fetch"
    and X: "\<And>req loc d. svc_resolver s req = Inr loc \<Longrightarrow> stored (Bucket loc) (Key loc) = Some d \<Longrightarrow> X (req_entry s roleObjects req) d"
  shows "step_ok s X w (obj_tmp p) w' (obj_tmp p') \<and> obj_ok s X req w' p'"
proof -
  note stays = step_ok_stays [OF assms(2)]
  show ?thesis
  proof (cases p)
    case ObjLookup
    obtain r w1 where l: "req_Lookup s roleObjects req w = (r, w1)" by fastforce
    note L = moves_Lookup [OF l assms(2) role_ok_names(1)]
    from assms(1) ObjLookup l L show ?thesis
      by (auto intro!: step_ok_kept moves_then_met split: sum.splits option.splits)
  next
    case ObjReopen
    obtain r w1 where l: "req_Lookup s roleObjects req w = (r, w1)" by fastforce
    note L = moves_Lookup [OF l assms(2) role_ok_names(1)]
    from assms(1) ObjReopen l L show ?thesis by (auto intro!: step_ok_kept split: sum.splits)
  next
    case (DlTemp n loc)
    obtain r w1 where t: "on_fs (NewTemp (svc_cache s)) w = (r, w1)" by fastforce
    note T = moves_NewTemp [OF t assms(2)]
    show ?thesis
    proof (cases r)
      case (Inl e)
      with assms(1) DlTemp t T show ?thesis by (auto intro!: step_ok_kept)
    next
      case (Inr f)
      with assms(1,3) DlTemp t NewTemp_new [OF t [unfolded Inr] assms(2)] T show ?thesis by (auto intro!: step_ok_new)
    qed
  next
    case (DlFetch n loc f)
    obtain k x f1 w1 where fw: "on_file f (fetch (Bucket loc) (Key loc)) w = ((k, x), f1, w1)" by (metis prod.exhaust)
    have "staged_new (svc_cache s) w f" and loc: "svc_resolver s req = Inr loc" using assms(3) DlFetch by simp_all
    note F = fetch_step [OF fw assms(2) this(1)]
    from assms(1) DlFetch fw F X [OF loc] show ?thesis
      by (cases x) (auto simp: assms(4) commit_ready_def intro!: step_ok_kept moves_then_met split: if_splits)
  next
    case (DlPrepare n f)
    obtain r w1 where pr: "req_prepare s f roleObjects req w = (r, w1)" by fastforce
    from assms(1) DlPrepare pr prepare_step [OF pr assms(2)] assms(3) show ?thesis by (auto split: sum.splits)
  next
    case (DlRename n f delta existed)
    obtain r w1 where rn: "req_rename s f roleObjects req delta existed w = (r, w1)" by fastforce
    have cr: "commit_ready s X roleObjects req w f" using assms(3) DlRename by simp
    note R = rename_step [OF rn assms(2) cr]
    from assms(1) DlRename rn R show ?thesis by (auto split: option.splits)
  next
    case (DlDiscard n f e)
    with assms(1,3) moves_discard [OF assms(2)] show ?thesis by (auto intro!: step_ok_kept)
  next
    case (ObjWait n)
    with assms(1) stays moves_met [OF assms(2)] show ?thesis by (auto split: option.splits)
  next
    case (DlResolve n)
    note m = moves_then_met [OF moves_met [OF assms(2)]] moves_met [OF assms(2)]
    from assms(1) DlResolve show ?thesis by (auto intro!: step_ok_kept m split: sum.splits if_splits)
  next
    case (ObjLeave n r)
    with assms(1) stays show ?thesis by (auto split: option.splits)
  next
    case ObjDo
    with assms(1) stays show ?thesis by (auto split: prod.splits if_splits)
  qed (use assms(1) in simp)
qed

end

text \<open>The steps of \<open>synthesize\<close> between the object and the commit.\<close>

lemma magic_step:
  assumes "on_fs (\<lambda>fs. reader_of fs obj) w = (head, w1)" and "sound s X w" and "open_ok s X roleObjects req w (obj, info)"
  shows "moves s X own w w1" and "open_ok s X roleObjects req w1 (obj, info)"
    and "fst (startsWithCabMagic head) = Inr isCab \<Longrightarrow> isCab = is_cabinet (handle_bytes w1 (obj, info))"
proof -
  have pos: "f_pos obj = 0" using assms(3) by (simp add: open_ok_def)
  note R = reader_of_start [OF assms(1) pos]
  show m: "moves s X own w w1" for own by (subst R(2)) (rule moves_read [OF assms(2) R(1)])
  show "open_ok s X roleObjects req w1 (obj, info)" by (rule open_ok_moves [OF assms(3) m])
  show "isCab = is_cabinet (handle_bytes w1 (obj, info))" if "fst (startsWithCabMagic head) = Inr isCab"
    using startsWithCabMagic_prefix [of head isCab "snd (startsWithCabMagic head)", OF _ R(3,4)] that same_storeD(2) [OF R(1)]
    by (simp add: handle_bytes_def prod_eq_iff)
qed

lemma seek_step:
  assumes "f_SeekStart (w_fs w) obj = (sk, obj1, fs2)" and "sound s X w" and "open_ok s X roleObjects req w (obj, info)"
  shows "moves s X own w (w\<lparr>w_fs := fs2\<rparr>)" and "open_ok s X roleObjects req (w\<lparr>w_fs := fs2\<rparr>) (obj1, info)"
    and "handle_bytes (w\<lparr>w_fs := fs2\<rparr>) (obj1, info) = handle_bytes w (obj, info)"
proof -
  have s: "same_store (w_fs w) fs2" "f_ino obj1 = f_ino obj" using f_SeekStart_store [OF assms(1)] by simp_all
  show m: "moves s X own w (w\<lparr>w_fs := fs2\<rparr>)" for own by (rule moves_read [OF assms(2) s(1)])
  show h: "handle_bytes (w\<lparr>w_fs := fs2\<rparr>) (obj1, info) = handle_bytes w (obj, info)"
    using same_storeD(2) [OF s(1)] s(2) by (simp add: handle_bytes_def)
  have "f_pos obj1 = 0" using assms(1,3) by (auto simp: f_SeekStart_def open_ok_def split: option.splits)
  with open_ok_moves [OF assms(3) m] h s(2) show "open_ok s X roleObjects req (w\<lparr>w_fs := fs2\<rparr>) (obj1, info)"
    by (simp add: open_ok_def handle_bytes_def)
qed

lemma fill_step:
  assumes "on_fs (\<lambda>fs. reader_of fs obj) w = (input, w1)" and "synth_fill s req isCab info f input w1 = (x, f1, w2)"
    and "sound s X w" and "open_ok s X roleObjects req w (obj, info)" and "isCab = is_cabinet (handle_bytes w (obj, info))"
    and "staged_new (svc_cache s) w f"
    and X: "\<And>d. X (req_entry s roleObjects req) d \<Longrightarrow> cab_made s req d \<Longrightarrow>
      X (req_entry s (compressed_role d) req) (compressed_form s req d)"
  shows "moves s X {segs (f_Name f)} w w2" and "staged (svc_cache s) (w_fs w2) f1" and "segs (f_Name f1) = segs (f_Name f)"
    and "x = Inr role \<Longrightarrow> commit_ready s X role req w2 f1"
proof -
  let ?d = "handle_bytes w (obj, info)" and ?v = "wfile_of (w_fs w1) f"
  have pos: "f_pos obj = 0" using assms(4) by (simp add: open_ok_def)
  note R = reader_of_start [OF assms(1) pos]
  note m1 = magic_step(1) [OF assms(1,3,4)]
  have new: "staged_new (svc_cache s) w1 f" by (rule staged_new_moves [OF assms(6) m1 [of "{}"]]) simp
  then have st: "staged (svc_cache s) (w_fs w1) f" and v: "wf_buf ?v = []" "wf_pos ?v = 0"
    by (simp_all add: staged_new_def wfile_of_def)
  let ?b = "fill_body s req isCab info input"
  obtain w5 where of: "on_file f ?b w1 = (x, f1, w5)"
    and w2: "w2 = (if x = Inr roleCabSynth then on_met (met_synth (fi_Size info)) w5 else w5)"
    using assms(2) by (auto simp: synth_fill_body split: prod.splits)
  note o = moves_write [OF of moves_sound [OF m1] st fill_body_env]
  from o show "staged (svc_cache s) (w_fs w2) f1" "segs (f_Name f1) = segs (f_Name f)" by (simp_all add: w2)
  then show "x = Inr role \<Longrightarrow> commit_ready s X role req w2 f1"
  proof -
    assume x: "x = Inr role"
    have "?b ?v = (Inr role, snd (?b ?v))" using o(4) x by (simp add: prod_eq_iff)
    moreover have "rd_end input = AtEOF \<longrightarrow> rd_rest input = ?d" using R(4) by (simp add: handle_bytes_def)
    ultimately have "role = compressed_role ?d" "cab_made s req ?d" "wf_buf (snd (?b ?v)) = compressed_form s req ?d"
      using fill_body_made [of s req ?d info input ?v role "snd (?b ?v)"] v assms(5) by simp_all
    with X [of ?d] assms(4) o(2,5) show ?thesis by (simp add: commit_ready_def open_ok_def w2)
  qed
  have "moves s X {segs (f_Name f)} w w5" by (rule moves_trans [OF m1 o(1)])
  then show "moves s X {segs (f_Name f)} w w2" using moves_then_met by (simp add: w2)
qed

context fetcher
begin

lemma cmp_step_ok:
  assumes "cmp_step s G req p w g = Some (p', w', g')" and "sound s X w" and "cmp_ok s X req w p" and "svc_fetcher s = fetch"
    and X: "\<And>req loc d. svc_resolver s req = Inr loc \<Longrightarrow> stored (Bucket loc) (Key loc) = Some d \<Longrightarrow> X (req_entry s roleObjects req) d"
      "\<And>d. X (req_entry s roleObjects req) d \<Longrightarrow> cab_made s req d \<Longrightarrow>
        X (req_entry s (compressed_role d) req) (compressed_form s req d)"
  shows "step_ok s X w (cmp_tmp p) w' (cmp_tmp p') \<and> cmp_ok s X req w' p'"
proof -
  note stays = step_ok_stays [OF assms(2)]
  have roles_ok: "role_ok role" if "role \<in> cmp_roles" for role using that by auto
  show ?thesis
  proof (cases p)
    case (CmpLookup roles)
    show ?thesis
    proof (cases roles)
      case Nil
      with assms(1) CmpLookup show ?thesis by (auto intro!: step_ok_kept moves_met [OF assms(2)])
    next
      case (Cons role rest)
      obtain r w1 where l: "req_Lookup s role req w = (r, w1)" by fastforce
      have role: "role \<in> cmp_roles" "set rest \<subseteq> cmp_roles" using assms(3) CmpLookup Cons by simp_all
      note L = moves_Lookup [OF l assms(2) roles_ok [OF role(1)]]
      from assms(1) CmpLookup Cons l L role show ?thesis
        by (auto intro!: step_ok_kept moves_then_met split: sum.splits option.splits)
    qed
  next
    case (CmpReopen roles)
    show ?thesis
    proof (cases roles)
      case Nil
      with assms(1) CmpReopen stays show ?thesis by auto
    next
      case (Cons role rest)
      obtain r w1 where l: "req_Lookup s role req w = (r, w1)" by fastforce
      have role: "role \<in> cmp_roles" "set rest \<subseteq> cmp_roles" using assms(3) CmpReopen Cons by simp_all
      note L = moves_Lookup [OF l assms(2) roles_ok [OF role(1)]]
      from assms(1) CmpReopen Cons l L role show ?thesis
        by (auto intro!: step_ok_kept split: sum.splits option.splits)
    qed
  next
    case CmpDo
    with assms(1) stays show ?thesis by (auto split: prod.splits if_splits)
  next
    case (CmpWait n)
    with assms(1) stays moves_met [OF assms(2)] show ?thesis by (auto split: option.splits)
  next
    case (CmpObject n q)
    show ?thesis
    proof (cases "\<exists>r. q = ObjDone r")
      case True
      with assms(1,3) CmpObject stays show ?thesis by (auto split: sum.splits option.splits)
    next
      case False
      with assms(1) CmpObject obtain q' where "obj_step s G req q w g = Some (q', w', g')" "p' = CmpObject n q'"
        using cmp_step_inner [of q s G req n w g] by (auto simp del: cmp_step.simps split: option.splits)
      with obj_step_ok [OF this(1) assms(2) _ assms(4) X(1)] assms(3) CmpObject show ?thesis by simp
    qed
  next
    case (SynMagic n obj info)
    obtain head w1 where h: "on_fs (\<lambda>fs. reader_of fs obj) w = (head, w1)" by fastforce
    have "open_ok s X roleObjects req w (obj, info)" using assms(3) SynMagic by simp
    note M = magic_step [OF h assms(2) this]
    from assms(1) SynMagic h M show ?thesis by (auto intro!: step_ok_kept split: sum.splits)
  next
    case (SynSeek n obj info isCab)
    obtain sk obj1 fs2 where sk: "f_SeekStart (w_fs w) obj = (sk, obj1, fs2)" by (metis prod.exhaust)
    have "open_ok s X roleObjects req w (obj, info)" "isCab = is_cabinet (handle_bytes w (obj, info))"
      using assms(3) SynSeek by simp_all
    with seek_step [OF sk assms(2) this(1)] assms(1) SynSeek sk show ?thesis
      by (auto intro!: step_ok_kept split: sum.splits)
  next
    case (SynTemp n obj info isCab)
    obtain r w1 where t: "on_fs (NewTemp (svc_cache s)) w = (r, w1)" by fastforce
    note T = moves_NewTemp [OF t assms(2)]
    have ok: "cmp_ok s X req w1 (SynTemp n obj info isCab)"
      using cmp_ok_moves [OF assms(3) T] SynTemp by simp
    show ?thesis
    proof (cases r)
      case (Inl e)
      with assms(1) SynTemp t T show ?thesis by (auto intro!: step_ok_kept)
    next
      case (Inr f)
      with assms(1) SynTemp t NewTemp_new [OF t [unfolded Inr] assms(2)] T ok show ?thesis by (auto intro!: step_ok_new)
    qed
  next
    case (SynFill n obj info isCab f)
    obtain input w1 where rd: "on_fs (\<lambda>fs. reader_of fs obj) w = (input, w1)" by fastforce
    obtain x f1 w2 where fl: "synth_fill s req isCab info f input w1 = (x, f1, w2)" by (metis prod.exhaust)
    have "open_ok s X roleObjects req w (obj, info)" "isCab = is_cabinet (handle_bytes w (obj, info))"
      "staged_new (svc_cache s) w f" using assms(3) SynFill by simp_all
    note F = fill_step [OF rd fl assms(2) this X(2)]
    from assms(1) SynFill rd fl F show ?thesis by (cases x) (auto intro!: step_ok_kept)
  next
    case (SynPrepare n obj f role)
    obtain r w1 where pr: "req_prepare s f role req w = (r, w1)" by fastforce
    from assms(1) SynPrepare pr prepare_step [OF pr assms(2)] assms(3) show ?thesis by (auto split: sum.splits)
  next
    case (SynRename n obj f role delta existed)
    obtain r w1 where rn: "req_rename s f role req delta existed w = (r, w1)" by fastforce
    have cr: "commit_ready s X role req w f" using assms(3) SynRename by simp
    note R = rename_step [OF rn assms(2) cr]
    from assms(1) SynRename rn R show ?thesis by (auto split: option.splits)
  next
    case (SynDiscard n obj f e)
    with assms(1,3) moves_discard [OF assms(2)] show ?thesis by (auto intro!: step_ok_kept)
  next
    case (SynClose n obj r)
    obtain rc fs1 where cl: "f_Close (w_fs w) obj = (rc, fs1)" by fastforce
    from assms(1) SynClose cl moves_read [OF assms(2) read_only_calls(5) [OF cl]] show ?thesis
      by (auto simp: on_fs_def intro!: step_ok_kept)
  next
    case (CmpLeave n r)
    with assms(1) stays show ?thesis by (auto split: option.splits)
  qed (use assms(1) in simp)
qed

end

end
