(* ===== verification/Concurrent.thy ===== *)
theory Concurrent
  imports Actions
begin

text \<open>
  The daemon with many requests at once: threads that interleave at every program point, the flight
  group they share, and beside them sweeps, the removal of single files and empty directories (as a
  sweep in progress does), readiness probes, reads of open files and other counters.
\<close>

section \<open>The system\<close>

record 'g sys =
  sys_world :: world
  sys_group :: 'g
  sys_threads :: "nat \<Rightarrow> activity"

fun tmp_of :: "activity \<Rightarrow> osfile option" where
  "tmp_of Idle = None"
| "tmp_of (ObjThread req p) = obj_tmp p"
| "tmp_of (CmpThread req p) = cmp_tmp p"

abbreviation owned :: "activity \<Rightarrow> path set" where
  "owned a \<equiv> own_path (tmp_of a)"

fun ended :: "activity \<Rightarrow> bool" where
  "ended Idle = True"
| "ended (ObjThread req (ObjDone r)) = True"
| "ended (CmpThread req (CmpDone r)) = True"
| "ended a = False"

text \<open>
  A sweep does not take a staging file in use: that file would have had to stay unwritten for as long as an
  entry may stay unused.
\<close>

inductive sys_step :: "service \<Rightarrow> 'g flight_group \<Rightarrow> 'g sys \<Rightarrow> 'g sys \<Rightarrow> bool" for s G where
  sys_fetch: "sys_threads \<sigma> t = Idle \<Longrightarrow>
     sys_step s G \<sigma> (\<sigma>\<lparr>sys_threads := (sys_threads \<sigma>)(t := ObjThread req ObjLookup)\<rparr>)"
| sys_compressed: "sys_threads \<sigma> t = Idle \<Longrightarrow>
     sys_step s G \<sigma> (\<sigma>\<lparr>sys_threads := (sys_threads \<sigma>)(t := CmpThread req (CmpLookup [roleRawCompressed, roleCabSynth]))\<rparr>)"
| sys_move: "thread_step s G (sys_threads \<sigma> t) (sys_world \<sigma>) (sys_group \<sigma>) = Some (a, w', g') \<Longrightarrow>
     sys_step s G \<sigma> \<lparr>sys_world = w', sys_group = g', sys_threads = (sys_threads \<sigma>)(t := a)\<rparr>"
| sys_answer: "ended (sys_threads \<sigma> t) \<Longrightarrow> sys_step s G \<sigma> (\<sigma>\<lparr>sys_threads := (sys_threads \<sigma>)(t := Idle)\<rparr>)"
| sys_read: "same_store (w_fs (sys_world \<sigma>)) fs' \<Longrightarrow> sys_step s G \<sigma> (\<sigma>\<lparr>sys_world := (sys_world \<sigma>)\<lparr>w_fs := fs'\<rparr>\<rparr>)"
| sys_count: "sys_step s G \<sigma> (\<sigma>\<lparr>sys_world := on_met f (sys_world \<sigma>)\<rparr>)"
| sys_probe: "on_fs (Probe (svc_cache s)) (sys_world \<sigma>) = (r, w') \<Longrightarrow> sys_step s G \<sigma> (\<sigma>\<lparr>sys_world := w'\<rparr>)"
| sys_sweep: "Evict (svc_cache s) maxUnused (sys_world \<sigma>) = (r, w') \<Longrightarrow>
     (\<And>t p. p \<in> owned (sys_threads \<sigma> t) \<Longrightarrow> \<not> stale (time_Now (w_fs (sys_world \<sigma>)) - maxUnused) (w_fs (sys_world \<sigma>)) p) \<Longrightarrow>
     sys_step s G \<sigma> (\<sigma>\<lparr>sys_world := w'\<rparr>)"
| sys_unlink: "on_fs (\<lambda>fs. os_Remove fs (abspath p)) (sys_world \<sigma>) = (r, w') \<Longrightarrow>
     list_all seg_ok p \<Longrightarrow> strict_prefix (croot (svc_cache s)) p \<Longrightarrow> p \<noteq> tmp_path (svc_cache s) \<Longrightarrow>
     (\<And>t. p \<notin> owned (sys_threads \<sigma> t)) \<Longrightarrow> sys_step s G \<sigma> (\<sigma>\<lparr>sys_world := w'\<rparr>)"

text \<open>The start: no request under way, no flight, a cache that is laid out.\<close>

definition sys_start :: "service \<Rightarrow> ('g \<Rightarrow> string \<Rightarrow> nat option) \<Rightarrow> 'g sys \<Rightarrow> bool" where
  "sys_start s running \<sigma> \<longleftrightarrow> svc_ready s (sys_world \<sigma>) \<and> running (sys_group \<sigma>) = Map.empty
     \<and> sys_threads \<sigma> = (\<lambda>_. Idle)"

section \<open>The files\<close>

lemma Probe_discard:
  "snd (on_fs (Probe c) w) = (case on_fs (NewTemp c) w of (Inl e, w1) \<Rightarrow> w1 | (Inr f, w1) \<Rightarrow> discard f w1)"
  by (auto simp: on_fs_def Probe_def discard_def split: sum.splits prod.splits)

lemma moves_Probe:
  assumes "on_fs (Probe (svc_cache s)) w = (r, w')" and "sound s X w"
  shows "moves s X {} w w'"
proof -
  obtain x w1 where t: "on_fs (NewTemp (svc_cache s)) w = (x, w1)" by fastforce
  note T = moves_NewTemp [OF t assms(2)]
  have w': "w' = (case x of Inl e \<Rightarrow> w1 | Inr f \<Rightarrow> discard f w1)" using Probe_discard [of "svc_cache s" w] assms(1) t by simp
  show ?thesis
  proof (cases x)
    case (Inl e)
    with T w' show ?thesis by simp
  next
    case (Inr f)
    note n = NewTemp_new [OF t [unfolded Inr] assms(2)]
    have "staged (svc_cache s) (w_fs w1) f" using n(1) by (simp add: staged_new_def)
    note d = moves_discard [OF moves_sound [OF T] this]
    with touches_new [OF _ _ n(2), of "svc_cache s" "w_fs w1"] T w' Inr show ?thesis by (simp add: moves_def)
  qed
qed

text \<open>Files disappear, nothing else changes.\<close>

lemma moves_removed:
  assumes "sound s X w" and "cache_ok (svc_cache s) (w_fs w')" and "same_env (w_fs w) (w_fs w')"
    and "file_at (w_fs w') = (\<lambda>p. if p \<in> R then None else file_at (w_fs w) p)" and "fs_inodes (w_fs w') = fs_inodes (w_fs w)"
  shows "moves s X R w w'"
proof -
  have "svc_entries s w p = Some d" if "svc_entries s w' p = Some d" for p d
    using that assms(4,5) by (auto simp: cache_entry_def content_at_file simp del: file_at_Some split: if_splits)
  moreover have "svc_ready s w'"
    using assms(2) soundD(4,5) [OF assms(1)] rand_ok_env [OF assms(3)] by (simp add: ready_def)
  ultimately show ?thesis
    using touches_removed [OF assms(3-5)] assms(1) by (auto simp: moves_def sound_def)
qed

lemma moves_Evict:
  assumes "Evict (svc_cache s) maxUnused w = (r, w')" and "sound s X w"
  shows "moves s X {p. stale (time_Now (w_fs w) - maxUnused) (w_fs w) p} w w'"
proof -
  obtain n err where r: "r = (n, err)" by (cases r)
  from Evict_effect [OF assms(1) [unfolded r] soundD(2) [OF assms(2)]] obtain R where
    R: "R \<subseteq> {p. stale (time_Now (w_fs w) - maxUnused) (w_fs w) p}"
      "file_at (w_fs w') = (\<lambda>p. if p \<in> R then None else file_at (w_fs w) p)" "fs_inodes (w_fs w') = fs_inodes (w_fs w)"
      "cache_ok (svc_cache s) (w_fs w')" "same_env (w_fs w) (w_fs w')" by blast
  from moves_mono [OF moves_removed [OF assms(2) R(4,5,2,3)] R(1)] show ?thesis .
qed

lemma moves_unlink:
  assumes "on_fs (\<lambda>fs. os_Remove fs (abspath p)) w = (r, w')" and "sound s X w" and "list_all seg_ok p"
    and "strict_prefix (croot (svc_cache s)) p" and "p \<noteq> tmp_path (svc_cache s)"
  shows "moves s X {p} w w'"
proof -
  from assms(1) obtain fs' where rm: "os_Remove (w_fs w) (abspath p) = (r, fs')" and w': "w' = w\<lparr>w_fs := fs'\<rparr>" by (rule on_fsE)
  have p: "segs (abspath p) = p" "p \<noteq> []" using assms(3,4) by auto
  note e = os_Remove_effect [OF rm cache_okD(2) [OF soundD(2) [OF assms(2)]], unfolded p(1)]
  show ?thesis
  proof (cases "r = Inr ()")
    case False
    from moves_read [OF assms(2) e(2) [OF this]] show ?thesis by (simp add: w')
  next
    case True
    then have n: "node_at fs' = (node_at (w_fs w))(p := None)" and ok: "fs_ok fs'" using e(1) p(2) by simp_all
    have "cache_ok (svc_cache s) fs'"
      using n cache_okD(3) [OF soundD(2) [OF assms(2)]] assms(5)
      by (intro cache_ok_node_at [OF soundD(2) [OF assms(2)] ok]) (auto split: if_splits)
    then show ?thesis
      using n e(3,4) by (intro moves_removed [OF assms(2)]) (simp_all add: w' fun_eq_iff file_at_def)
  qed
qed

text \<open>The threads' own invariants.\<close>

fun act_ok :: "service \<Rightarrow> (path \<Rightarrow> bytes \<Rightarrow> bool) \<Rightarrow> world \<Rightarrow> activity \<Rightarrow> bool" where
  "act_ok s X w Idle = True"
| "act_ok s X w (ObjThread req p) = obj_ok s X req w p"
| "act_ok s X w (CmpThread req p) = cmp_ok s X req w p"

definition files_ok :: "service \<Rightarrow> (path \<Rightarrow> bytes \<Rightarrow> bool) \<Rightarrow> world \<Rightarrow> (nat \<Rightarrow> activity) \<Rightarrow> bool" where
  "files_ok s X w th \<longleftrightarrow> sound s X w \<and> (\<forall>t. act_ok s X w (th t))
     \<and> (\<forall>t t'. t \<noteq> t' \<longrightarrow> owned (th t) \<inter> owned (th t') = {})"

lemma files_okD:
  assumes "files_ok s X w th"
  shows "sound s X w" and "act_ok s X w (th t)" and "t \<noteq> t' \<Longrightarrow> owned (th t) \<inter> owned (th t') = {}"
  using assms unfolding files_ok_def by blast+

lemma act_ok_moves: "act_ok s X w a \<Longrightarrow> moves s X own w w' \<Longrightarrow> owned a \<inter> own = {} \<Longrightarrow> act_ok s X w' a"
  by (cases a) (auto intro: obj_ok_moves cmp_ok_moves)

lemma owned_staged:
  assumes "act_ok s X w a" and "tmp_of a = Some f"
  shows "staged (svc_cache s) (w_fs w) f"
proof -
  have obj: "obj_ok s X req w p \<Longrightarrow> obj_tmp p = Some f \<Longrightarrow> staged (svc_cache s) (w_fs w) f" for req p
    by (cases p) (auto simp: staged_new_def commit_ready_def)
  have "cmp_ok s X req w p \<Longrightarrow> cmp_tmp p = Some f \<Longrightarrow> staged (svc_cache s) (w_fs w) f" for req p
    by (cases p) (auto simp: staged_new_def commit_ready_def obj)
  with obj assms show ?thesis by (cases a) auto
qed

text \<open>What one thread does to its neighbours.\<close>

lemma files_move:
  assumes "files_ok s X w th" and "step_ok s X w (tmp_of (th t)) w' (tmp_of a)" and "act_ok s X w' a"
  shows "files_ok s X w' (th(t := a))"
proof -
  note F = files_okD [OF assms(1)]
  have m: "moves s X (owned (th t)) w w'" and next_tmp: "tmp_next w (tmp_of (th t)) (tmp_of a)"
    using assms(2) by (simp_all add: step_ok_def)
  have others: "act_ok s X w' (th u)" if "u \<noteq> t" for u
    using act_ok_moves [OF F(2) m F(3) [OF that]] .
  have apart: "owned a \<inter> owned (th u) = {}" if "u \<noteq> t" for u
  proof -
    from next_tmp consider "owned a \<subseteq> owned (th t)"
      | f where "tmp_of a = Some f" "file_at (w_fs w) (segs (f_Name f)) = None" by (auto simp: tmp_next_def)
    then show ?thesis
    proof cases
      case 1
      with F(3) [OF that] show ?thesis by blast
    next
      case 2
      show ?thesis
      proof (cases "tmp_of (th u)")
        case (Some h)
        obtain x where "node_at (w_fs w) (segs (f_Name h)) = Some (FileNode (f_ino h))"
          using stagedD [OF owned_staged [OF F(2) Some] soundD(3) [OF F(1)]] by metis
        then have "file_at (w_fs w) (segs (f_Name h)) \<noteq> None" by (simp add: file_at_def)
        then have "segs (f_Name f) \<noteq> segs (f_Name h)" using 2(2) by metis
        then show ?thesis by (simp add: 2(1) Some)
      qed simp
    qed
  qed
  have "act_ok s X w' ((th(t := a)) u)" for u using others assms(3) by simp
  moreover have "owned ((th(t := a)) u) \<inter> owned ((th(t := a)) v) = {}" if uv: "u \<noteq> v" for u v
  proof -
    consider "u = t" "v \<noteq> t" | "v = t" "u \<noteq> t" | "u \<noteq> t" "v \<noteq> t" using uv by blast
    then show ?thesis
    proof cases
      case 1
      with apart [of v] show ?thesis by simp
    next
      case 2
      with apart [of u] show ?thesis by (simp add: Int_commute [of "owned (th u)"])
    qed (simp add: F(3) [OF uv])
  qed
  ultimately show ?thesis using moves_sound [OF m] by (simp add: files_ok_def)
qed

lemma files_env:
  assumes "files_ok s X w th" and "moves s X own w w'" and "\<And>t. owned (th t) \<inter> own = {}"
  shows "files_ok s X w' th"
  using assms(1) act_ok_moves [OF _ assms(2,3)] moves_sound [OF assms(2)] by (simp add: files_ok_def)

lemma files_idle:
  assumes "files_ok s X w th" and "act_ok s X w a" and "tmp_of a = None"
  shows "files_ok s X w (th(t := a))"
  using assms by (auto simp: files_ok_def)

section \<open>The flights\<close>

text \<open>The calls whose closure a thread is running, and the call it waits for.\<close>

fun obj_leads :: "request \<Rightarrow> obj_pc \<Rightarrow> (string \<times> nat) set" where
  "obj_leads req (DlResolve n) = {(obj_flight req, n)}"
| "obj_leads req (DlTemp n loc) = {(obj_flight req, n)}"
| "obj_leads req (DlFetch n loc f) = {(obj_flight req, n)}"
| "obj_leads req (DlPrepare n f) = {(obj_flight req, n)}"
| "obj_leads req (DlRename n f delta existed) = {(obj_flight req, n)}"
| "obj_leads req (DlDiscard n f e) = {(obj_flight req, n)}"
| "obj_leads req (ObjLeave n r) = {(obj_flight req, n)}"
| "obj_leads req p = {}"

fun obj_waits :: "request \<Rightarrow> obj_pc \<Rightarrow> (string \<times> nat) set" where
  "obj_waits req (ObjWait n) = {(obj_flight req, n)}"
| "obj_waits req p = {}"

fun cmp_leads :: "request \<Rightarrow> cmp_pc \<Rightarrow> (string \<times> nat) set" where
  "cmp_leads req (CmpObject n p) = insert (cmp_flight req, n) (obj_leads req p)"
| "cmp_leads req (SynMagic n obj info) = {(cmp_flight req, n)}"
| "cmp_leads req (SynSeek n obj info isCab) = {(cmp_flight req, n)}"
| "cmp_leads req (SynTemp n obj info isCab) = {(cmp_flight req, n)}"
| "cmp_leads req (SynFill n obj info isCab f) = {(cmp_flight req, n)}"
| "cmp_leads req (SynPrepare n obj f role) = {(cmp_flight req, n)}"
| "cmp_leads req (SynRename n obj f role delta existed) = {(cmp_flight req, n)}"
| "cmp_leads req (SynDiscard n obj f e) = {(cmp_flight req, n)}"
| "cmp_leads req (SynClose n obj r) = {(cmp_flight req, n)}"
| "cmp_leads req (CmpLeave n r) = {(cmp_flight req, n)}"
| "cmp_leads req p = {}"

fun cmp_waits :: "request \<Rightarrow> cmp_pc \<Rightarrow> (string \<times> nat) set" where
  "cmp_waits req (CmpWait n) = {(cmp_flight req, n)}"
| "cmp_waits req (CmpObject n p) = obj_waits req p"
| "cmp_waits req p = {}"

fun leads :: "activity \<Rightarrow> (string \<times> nat) set" where
  "leads Idle = {}"
| "leads (ObjThread req p) = obj_leads req p"
| "leads (CmpThread req p) = cmp_leads req p"

fun waits :: "activity \<Rightarrow> (string \<times> nat) set" where
  "waits Idle = {}"
| "waits (ObjThread req p) = obj_waits req p"
| "waits (CmpThread req p) = cmp_waits req p"

text \<open>What a step does to the flights: nothing, joining, leading, or leaving.\<close>

inductive flight_move :: "'g flight_group \<Rightarrow> (string \<times> nat) set \<Rightarrow> (string \<times> nat) set \<Rightarrow> 'g
    \<Rightarrow> (string \<times> nat) set \<Rightarrow> (string \<times> nat) set \<Rightarrow> 'g \<Rightarrow> bool" for G where
  flight_none: "W' \<subseteq> W \<Longrightarrow> flight_move G L W g L W' g"
| flight_join: "fg_Enter G k g = ((n, False), g') \<Longrightarrow> flight_move G L W g L {(k, n)} g'"
| flight_lead: "fg_Enter G k g = ((n, True), g') \<Longrightarrow> flight_move G L W g (insert (k, n) L) {} g'"
| flight_leave: "(k, n) \<notin> L \<Longrightarrow> flight_move G (insert (k, n) L) W g L {} (fg_Leave G k n r g)"

lemma obj_flight_move:
  assumes "obj_step s G req p w g = Some (p', w', g')"
  shows "flight_move G (obj_leads req p \<union> K) (obj_waits req p) g (obj_leads req p' \<union> K) (obj_waits req p') g'
    \<or> (\<exists>n. (obj_flight req, n) \<in> K)"
proof (cases p)
  case ObjDo
  obtain n lead g1 where en: "fg_Enter G (obj_flight req) g = ((n, lead), g1)" by (metis prod.exhaust)
  with assms ObjDo flight_join [of G "obj_flight req" g n] flight_lead [of G "obj_flight req" g n] show ?thesis
    by (cases lead) auto
next
  case (ObjLeave n r)
  have g': "g' = fg_Leave G (obj_flight req) n r g" using assms ObjLeave by simp
  have p': "obj_leads req p' = {}" "obj_waits req p' = {}" using assms ObjLeave by (auto split: option.splits)
  show ?thesis
  proof (cases "(obj_flight req, n) \<in> K")
    case False
    with flight_leave [OF False, of G "obj_waits req p" g r] show ?thesis by (simp add: ObjLeave g' p')
  qed auto
qed (use assms in \<open>auto intro!: disjI1 flight_none split: sum.splits option.splits prod.splits if_splits\<close>)

lemma cmp_flight_move:
  assumes "cmp_step s G req p w g = Some (p', w', g')"
  shows "flight_move G (cmp_leads req p) (cmp_waits req p) g (cmp_leads req p') (cmp_waits req p') g'"
proof (cases p)
  case CmpDo
  obtain n lead g1 where en: "fg_Enter G (cmp_flight req) g = ((n, lead), g1)" by (metis prod.exhaust)
  with assms CmpDo flight_join [of G "cmp_flight req" g n] flight_lead [of G "cmp_flight req" g n "g1" "{}"] show ?thesis
    by (cases lead) auto
next
  case (CmpLeave n r)
  with assms flight_leave [of "cmp_flight req" n "{}" G "{}" g r] show ?thesis by (auto split: option.splits)
next
  case (CmpObject n q)
  show ?thesis
  proof (cases "\<exists>r. q = ObjDone r")
    case True
    with assms CmpObject show ?thesis by (auto intro!: flight_none split: sum.splits option.splits)
  next
    case False
    with assms CmpObject obtain q' where q': "obj_step s G req q w g = Some (q', w', g')" "p' = CmpObject n q'"
      using cmp_step_inner [of q s G req n w g] by (auto simp del: cmp_step.simps split: option.splits)
    from obj_flight_move [OF q'(1), of "{(cmp_flight req, n)}"] flights_differ [of req req] q'(2) CmpObject show ?thesis
      by simp
  qed
next
  case (CmpLookup roles)
  with assms show ?thesis by (cases roles) (auto intro!: flight_none split: sum.splits option.splits prod.splits)
next
  case (CmpReopen roles)
  with assms show ?thesis by (cases roles) (auto intro!: flight_none split: sum.splits option.splits prod.splits)
qed (use assms in \<open>auto intro!: flight_none split: sum.splits option.splits prod.splits\<close>)

lemma thread_flight_move:
  assumes "thread_step s G a w g = Some (a', w', g')"
  shows "flight_move G (leads a) (waits a) g (leads a') (waits a') g'"
proof (cases a)
  case (ObjThread req p)
  with assms obtain p' where "obj_step s G req p w g = Some (p', w', g')" "a' = ObjThread req p'" by auto
  with obj_flight_move [OF this(1), of "{}"] ObjThread show ?thesis by simp
next
  case (CmpThread req p)
  with assms cmp_flight_move show ?thesis by auto
qed (use assms in simp)

end
