(* ===== verification/Flights.thy ===== *)
theory Flights
  imports Concurrent
begin

text \<open>
  The flights of a running system: every call of the group has exactly one thread that runs its
  closure, a thread that waits has its outcome or such a leader, and from this that the threads are
  never all stuck. Each step brings its thread nearer to its end.
\<close>

section \<open>One leader for each flight\<close>

definition flights_ok :: "'g flight_group \<Rightarrow> ('g \<Rightarrow> string \<Rightarrow> nat option) \<Rightarrow> ('g \<Rightarrow> nat \<Rightarrow> bool) \<Rightarrow> 'g
    \<Rightarrow> (nat \<Rightarrow> activity) \<Rightarrow> bool" where
  "flights_ok G running used g th \<longleftrightarrow>
     (\<forall>t k n. (k, n) \<in> leads (th t) \<longrightarrow> running g k = Some n \<and> used g n)
     \<and> (\<forall>k n. running g k = Some n \<longrightarrow> (\<exists>t. (k, n) \<in> leads (th t)))
     \<and> (\<forall>t u k n. (k, n) \<in> leads (th t) \<longrightarrow> (k, n) \<in> leads (th u) \<longrightarrow> t = u)
     \<and> (\<forall>t k n. (k, n) \<in> waits (th t) \<longrightarrow> used g n \<and> (running g k = Some n \<or> fg_Outcome G n g \<noteq> None))"

lemma flights_okD:
  assumes "flights_ok G running used g th"
  shows "(k, n) \<in> leads (th t) \<Longrightarrow> running g k = Some n \<and> used g n"
    and "running g k = Some n \<Longrightarrow> \<exists>t. (k, n) \<in> leads (th t)"
    and "(k, n) \<in> leads (th t) \<Longrightarrow> (k, n) \<in> leads (th u) \<Longrightarrow> t = u"
    and "(k, n) \<in> waits (th t) \<Longrightarrow> used g n \<and> (running g k = Some n \<or> fg_Outcome G n g \<noteq> None)"
  using assms unfolding flights_ok_def by blast+

lemma flights_okI:
  assumes "\<And>t k n. (k, n) \<in> leads (th t) \<Longrightarrow> running g k = Some n \<and> used g n"
    and "\<And>k n. running g k = Some n \<Longrightarrow> \<exists>t. (k, n) \<in> leads (th t)"
    and "\<And>t u k n. (k, n) \<in> leads (th t) \<Longrightarrow> (k, n) \<in> leads (th u) \<Longrightarrow> t = u"
    and "\<And>t k n. (k, n) \<in> waits (th t) \<Longrightarrow> used g n \<and> (running g k = Some n \<or> fg_Outcome G n g \<noteq> None)"
  shows "flights_ok G running used g th"
  using assms unfolding flights_ok_def by blast

context singleflight
begin

lemma flights_same:
  assumes "flights_ok G running used g th" and "leads a = leads (th t)" and "waits a \<subseteq> waits (th t)"
  shows "flights_ok G running used g (th(t := a))"
proof (rule flights_okI)
  note F = flights_okD [OF assms(1)]
  have l: "leads ((th(t := a)) u) = leads (th u)" and w: "waits ((th(t := a)) u) \<subseteq> waits (th u)" for u
    using assms(2,3) by simp_all
  show "running g k = Some n \<and> used g n" if "(k, n) \<in> leads ((th(t := a)) u)" for u k n using F(1) that unfolding l .
  show "\<exists>u. (k, n) \<in> leads ((th(t := a)) u)" if "running g k = Some n" for k n using F(2) [OF that] unfolding l .
  show "u = v" if "(k, n) \<in> leads ((th(t := a)) u)" "(k, n) \<in> leads ((th(t := a)) v)" for u v k n
    using F(3) that unfolding l .
  show "used g n \<and> (running g k = Some n \<or> fg_Outcome G n g \<noteq> None)" if "(k, n) \<in> waits ((th(t := a)) u)" for u k n
    using F(4) that w by blast
qed

lemma flights_join:
  assumes "flights_ok G running used g th" and "fg_Enter G k g = ((n, False), g')" and "leads a = leads (th t)"
    and "waits a = {(k, n)}"
  shows "flights_ok G running used g' (th(t := a))"
proof -
  note F = flights_okD [OF assms(1)]
  from enter_new [OF _ assms(2)] obtain m where m: "running g k = Some m" by (cases "running g k") auto
  from enter_join [OF m assms(2)] have g': "n = m" "g' = g" by simp_all
  obtain u where "(k, n) \<in> leads (th u)" using F(2) m g' by blast
  with F(1) have used: "used g n" by blast
  show ?thesis
  proof (rule flights_okI)
    show "running g' k' = Some n' \<and> used g' n'" if "(k', n') \<in> leads ((th(t := a)) u)" for u k' n'
      using that F(1) assms(3) by (auto simp: g' split: if_splits)
    show "\<exists>u. (k', n') \<in> leads ((th(t := a)) u)" if "running g' k' = Some n'" for k' n'
      using F(2) [of k' n'] that assms(3) by (auto simp: g')
    show "u = v" if "(k', n') \<in> leads ((th(t := a)) u)" "(k', n') \<in> leads ((th(t := a)) v)" for u v k' n'
      using F(3) that assms(3) by (auto split: if_splits)
    show "used g' n' \<and> (running g' k' = Some n' \<or> fg_Outcome G n' g' \<noteq> None)" if "(k', n') \<in> waits ((th(t := a)) u)" for u k' n'
      using that F(4) [of k' n' u] assms(4) used m by (auto simp: g' split: if_splits)
  qed
qed

lemma flights_lead:
  assumes "flights_ok G running used g th" and "fg_Enter G k g = ((n, True), g')" and "leads a = insert (k, n) (leads (th t))"
    and "waits a = {}"
  shows "flights_ok G running used g' (th(t := a))"
proof -
  note F = flights_okD [OF assms(1)]
  from enter_join [OF _ assms(2)] have free: "running g k = None" by (cases "running g k") auto
  note E = enter_new [OF free assms(2)]
  have old: "k' \<noteq> k" "n' \<noteq> n" if "(k', n') \<in> leads (th u)" for k' n' u using F(1) [OF that] free E by auto
  have l: "(k', n') \<in> leads ((th(t := a)) u) \<longleftrightarrow> (k', n') \<in> leads (th u) \<or> (u = t \<and> k' = k \<and> n' = n)" for k' n' u
    using assms(3) by auto
  show ?thesis
  proof (rule flights_okI)
    show "running g' k' = Some n' \<and> used g' n'" if "(k', n') \<in> leads ((th(t := a)) u)" for u k' n'
      using that F(1) [of k' n' u] old [of k' n' u] E unfolding l by auto
    show "\<exists>u. (k', n') \<in> leads ((th(t := a)) u)" if "running g' k' = Some n'" for k' n'
      using F(2) [of k' n'] that E unfolding l by (auto split: if_splits)
    show "u = v" if "(k', n') \<in> leads ((th(t := a)) u)" "(k', n') \<in> leads ((th(t := a)) v)" for u v k' n'
      using that F(3) old unfolding l by blast
    show "used g' n' \<and> (running g' k' = Some n' \<or> fg_Outcome G n' g' \<noteq> None)" if "(k', n') \<in> waits ((th(t := a)) u)" for u k' n'
    proof -
      have "(k', n') \<in> waits (th u)" using that assms(4) by (auto split: if_splits)
      from F(4) [OF this] have u: "used g n'" "running g k' = Some n' \<or> fg_Outcome G n' g \<noteq> None" by simp_all
      with E have "n' \<noteq> n" by auto
      with u E free show ?thesis by auto
    qed
  qed
qed

lemma flights_leave:
  assumes "flights_ok G running used g th" and "leads (th t) = insert (k, n) (leads a)" and "(k, n) \<notin> leads a" and "waits a = {}"
  shows "flights_ok G running used (fg_Leave G k n r g) (th(t := a))"
proof -
  note F = flights_okD [OF assms(1)]
  let ?g = "fg_Leave G k n r g"
  have kn: "running g k = Some n" using F(1) [of k n t] assms(2) by simp
  note E = leave [OF kn, of r]
  have still: "k' \<noteq> k" "(k', n') \<in> leads (th u)" if "(k', n') \<in> leads ((th(t := a)) u)" for k' n' u
  proof -
    show l: "(k', n') \<in> leads (th u)" using that assms(2) by (auto split: if_splits)
    show "k' \<noteq> k"
    proof
      assume "k' = k"
      with F(1) [OF l] kn l have "(k, n) \<in> leads (th u)" "n' = n" by simp_all
      with F(3) [of k n u t] assms(2) have "u = t" by simp
      with that \<open>k' = k\<close> \<open>n' = n\<close> assms(3) show False by simp
    qed
  qed
  show ?thesis
  proof (rule flights_okI)
    show "running ?g k' = Some n' \<and> used ?g n'" if "(k', n') \<in> leads ((th(t := a)) u)" for u k' n'
      using still [OF that] F(1) [of k' n' u] E by simp
    show "\<exists>u. (k', n') \<in> leads ((th(t := a)) u)" if "running ?g k' = Some n'" for k' n'
    proof -
      have k': "k' \<noteq> k" "running g k' = Some n'" using that E by (auto split: if_splits)
      from F(2) [OF this(2)] obtain u where u: "(k', n') \<in> leads (th u)" by blast
      show ?thesis
      proof (cases "u = t")
        case True
        with u assms(2) k'(1) have "(k', n') \<in> leads a" by auto
        then show ?thesis by (intro exI [of _ t]) simp
      qed (use u in \<open>auto intro!: exI [of _ u]\<close>)
    qed
    show "u = v" if "(k', n') \<in> leads ((th(t := a)) u)" "(k', n') \<in> leads ((th(t := a)) v)" for u v k' n'
      using F(3) still(2) that by blast
    show "used ?g n' \<and> (running ?g k' = Some n' \<or> fg_Outcome G n' ?g \<noteq> None)" if "(k', n') \<in> waits ((th(t := a)) u)" for u k' n'
    proof -
      have "(k', n') \<in> waits (th u)" using that assms(4) by (auto split: if_splits)
      from F(4) [OF this] have u: "used g n'" "running g k' = Some n' \<or> fg_Outcome G n' g \<noteq> None" by simp_all
      with E kn show ?thesis by (cases "n' = n"; cases "k' = k") auto
    qed
  qed
qed

lemma flights_move:
  assumes "flight_move G (leads (th t)) (waits (th t)) g (leads a) (waits a) g'" and "flights_ok G running used g th"
  shows "flights_ok G running used g' (th(t := a))"
  using assms(1)
proof (cases rule: flight_move.cases)
  case flight_none
  then show ?thesis using flights_same [OF assms(2)] by simp
next
  case (flight_join k n)
  then show ?thesis using flights_join [OF assms(2)] by simp
next
  case (flight_lead k n)
  then show ?thesis using flights_lead [OF assms(2)] by simp
next
  case (flight_leave k n r)
  then show ?thesis using flights_leave [OF assms(2)] by simp
qed

end

section \<open>Progress\<close>

text \<open>A thread that cannot step has ended or waits for a call without an outcome.\<close>

lemma obj_blocked: "obj_step s G req p w g = None \<Longrightarrow> (\<exists>r. p = ObjDone r) \<or> (\<exists>n. p = ObjWait n \<and> fg_Outcome G n g = None)"
  by (cases p) (auto split: option.splits)

lemma cmp_blocked:
  assumes "cmp_step s G req p w g = None"
  shows "(\<exists>r. p = CmpDone r) \<or> (\<exists>k n. (k, n) \<in> cmp_waits req p \<and> fg_Outcome G n g = None)"
proof (cases p)
  case (CmpObject n q)
  have "q \<noteq> ObjDone r" for r using assms CmpObject by auto
  with assms CmpObject cmp_step_inner [of q s G req n w g] have "obj_step s G req q w g = None"
    by (auto simp del: cmp_step.simps split: option.splits)
  from obj_blocked [OF this] \<open>\<And>r. q \<noteq> ObjDone r\<close> CmpObject show ?thesis by auto
next
  case (CmpLookup roles)
  with assms show ?thesis by (cases roles) simp_all
next
  case (CmpReopen roles)
  with assms show ?thesis by (cases roles) simp_all
qed (use assms in \<open>auto split: option.splits\<close>)

lemma thread_blocked:
  assumes "thread_step s G a w g = None" and "\<not> ended a"
  shows "\<exists>k n. (k, n) \<in> waits a \<and> fg_Outcome G n g = None"
proof (cases a)
  case (ObjThread req p)
  with assms obj_blocked [of s G req p w g] show ?thesis by auto
next
  case (CmpThread req p)
  with assms cmp_blocked [of s G req p w g] show ?thesis by auto
qed (use assms in simp)

lemma leader_not_ended: "x \<in> leads a \<Longrightarrow> \<not> ended a"
  by (cases a rule: ended.cases) auto

lemma obj_leader_runs: "(obj_flight req', n) \<in> obj_leads req p \<Longrightarrow> obj_waits req p = {}"
  by (cases p) auto

text \<open>Who runs a download waits for nobody; who leads at all waits for a download only.\<close>

lemma download_leader_runs:
  assumes "(obj_flight req', n) \<in> leads a"
  shows "waits a = {}"
proof (cases a)
  case (ObjThread req p)
  with assms obj_leader_runs show ?thesis by auto
next
  case (CmpThread req p)
  show ?thesis
  proof (cases p)
    case (CmpObject m q)
    with assms CmpThread flights_differ [of req' req] have "(obj_flight req', n) \<in> obj_leads req q" by auto
    with obj_leader_runs CmpObject CmpThread show ?thesis by auto
  qed (use assms CmpThread in auto)
qed (use assms in simp)

lemma leader_waits_download:
  assumes "x \<in> leads a" and "(k, n) \<in> waits a"
  obtains req where "k = obj_flight req"
proof (cases a)
  case (ObjThread req p)
  with assms that show thesis by (cases p) auto
next
  case (CmpThread req p)
  show thesis
  proof (cases p)
    case (CmpObject m q)
    with assms CmpThread that show thesis by (cases q) auto
  qed (use assms CmpThread in auto)
qed (use assms in simp)

context singleflight
begin

lemma some_thread_steps:
  assumes "flights_ok G running used g th" and "\<not> ended (th t)"
  shows "\<exists>u. thread_step s G (th u) w g \<noteq> None"
proof (rule ccontr)
  assume "\<not> ?thesis"
  then have stuck: "thread_step s G (th u) w g = None" for u by blast
  note F = flights_okD [OF assms(1)]
  have leader: "\<exists>u. (k, n) \<in> leads (th u)" if "(k, n) \<in> waits (th u)" "fg_Outcome G n g = None" for k n u
    using F(4) [OF that(1)] that(2) F(2) by blast
  obtain k n where "(k, n) \<in> waits (th t)" "fg_Outcome G n g = None"
    using thread_blocked [OF stuck assms(2)] by blast
  from leader [OF this] obtain u where u: "(k, n) \<in> leads (th u)" by blast
  obtain k' n' where w': "(k', n') \<in> waits (th u)" "fg_Outcome G n' g = None"
    using thread_blocked [OF stuck leader_not_ended [OF u]] by blast
  from leader_waits_download [OF u w'(1)] obtain req where req: "k' = obj_flight req" .
  from leader [OF w'] obtain v where v: "(k', n') \<in> leads (th v)" by blast
  with download_leader_runs [of req n' "th v"] req have "waits (th v) = {}" by simp
  with thread_blocked [OF stuck leader_not_ended [OF v]] show False by blast
qed

end

section \<open>The way to the end\<close>

text \<open>The number of steps a thread has at most before it.\<close>

fun obj_left :: "obj_pc \<Rightarrow> nat" where
  "obj_left ObjLookup = 10"
| "obj_left ObjDo = 9"
| "obj_left (DlResolve n) = 8"
| "obj_left (DlTemp n loc) = 7"
| "obj_left (DlFetch n loc f) = 6"
| "obj_left (DlPrepare n f) = 5"
| "obj_left (DlRename n f delta existed) = 4"
| "obj_left (DlDiscard n f e) = 3"
| "obj_left (ObjLeave n r) = 2"
| "obj_left (ObjWait n) = 2"
| "obj_left ObjReopen = 1"
| "obj_left (ObjDone r) = 0"

fun cmp_left :: "cmp_pc \<Rightarrow> nat" where
  "cmp_left (CmpLookup roles) = 26 + length roles"
| "cmp_left CmpDo = 25"
| "cmp_left (CmpObject n p) = 14 + obj_left p"
| "cmp_left (SynMagic n obj info) = 13"
| "cmp_left (SynSeek n obj info isCab) = 12"
| "cmp_left (SynTemp n obj info isCab) = 11"
| "cmp_left (SynFill n obj info isCab f) = 10"
| "cmp_left (SynPrepare n obj f role) = 9"
| "cmp_left (SynRename n obj f role delta existed) = 8"
| "cmp_left (SynDiscard n obj f e) = 7"
| "cmp_left (SynClose n obj r) = 6"
| "cmp_left (CmpLeave n r) = 5"
| "cmp_left (CmpWait n) = 5"
| "cmp_left (CmpReopen roles) = 1 + length roles"
| "cmp_left (CmpDone r) = 0"

fun left :: "activity \<Rightarrow> nat" where
  "left Idle = 0"
| "left (ObjThread req p) = obj_left p"
| "left (CmpThread req p) = cmp_left p"

lemma obj_step_left: "obj_step s G req p w g = Some (p', w', g') \<Longrightarrow> obj_left p' < obj_left p"
  by (cases p) (auto split: sum.splits option.splits prod.splits if_splits)

lemma cmp_step_left:
  assumes "cmp_step s G req p w g = Some (p', w', g')"
  shows "cmp_left p' < cmp_left p"
proof (cases p)
  case (CmpObject n q)
  show ?thesis
  proof (cases "\<exists>r. q = ObjDone r")
    case True
    with assms CmpObject show ?thesis by (auto split: sum.splits option.splits)
  next
    case False
    with assms CmpObject cmp_step_inner [of q s G req n w g] obj_step_left show ?thesis
      by (auto simp del: cmp_step.simps split: option.splits)
  qed
next
  case (CmpLookup roles)
  with assms show ?thesis by (cases roles) (auto split: sum.splits option.splits prod.splits)
next
  case (CmpReopen roles)
  with assms show ?thesis by (cases roles) (auto split: sum.splits option.splits prod.splits)
qed (use assms in \<open>auto split: sum.splits option.splits prod.splits if_splits\<close>)

lemma thread_step_left: "thread_step s G a w g = Some (a', w', g') \<Longrightarrow> left a' < left a"
  by (cases a) (auto dest: obj_step_left cmp_step_left)

end
