(* ===== verification/ConcurrentProps.thy ===== *)
theory ConcurrentProps
  imports Flights ServiceProps
begin

text \<open>
  The invariant of the concurrent daemon, in every state it can reach, and its properties: entries
  and answers are whole and explained, answers stay what they are, one thread at most produces an
  entry, every request can be brought to its end, and a request alone is the sequential one.
\<close>

section \<open>The invariant\<close>

definition sys_ok :: "service \<Rightarrow> (path \<Rightarrow> bytes \<Rightarrow> bool) \<Rightarrow> 'g flight_group \<Rightarrow> ('g \<Rightarrow> string \<Rightarrow> nat option)
    \<Rightarrow> ('g \<Rightarrow> nat \<Rightarrow> bool) \<Rightarrow> 'g sys \<Rightarrow> bool" where
  "sys_ok s X G running used \<sigma> \<longleftrightarrow> files_ok s X (sys_world \<sigma>) (sys_threads \<sigma>)
     \<and> flights_ok G running used (sys_group \<sigma>) (sys_threads \<sigma>)"

text \<open>Every step of the system is an action of its world that no thread but the moving one can feel.\<close>

lemma thread_step_ok:
  assumes "thread_step s G a w g = Some (a', w', g')" and "sound s (explained s (s3_stored GO) old) w"
    and "act_ok s (explained s (s3_stored GO) old) w a" and "svc_fetcher s = S3_Fetch GO"
  shows "step_ok s (explained s (s3_stored GO) old) w (tmp_of a) w' (tmp_of a')"
    and "act_ok s (explained s (s3_stored GO) old) w' a'"
proof -
  let ?X = "explained s (s3_stored GO) old"
  have "step_ok s ?X w (tmp_of a) w' (tmp_of a') \<and> act_ok s ?X w' a'"
  proof (cases a)
    case (ObjThread req p)
    with assms obtain p' where "obj_step s G req p w g = Some (p', w', g')" "a' = ObjThread req p'" by auto
    with s3.obj_step_ok [OF this(1) assms(2) _ assms(4)] assms(3) ObjThread explained_stored show ?thesis by auto
  next
    case (CmpThread req p)
    with assms obtain p' where "cmp_step s G req p w g = Some (p', w', g')" "a' = CmpThread req p'" by auto
    with s3.cmp_step_ok [OF this(1) assms(2) _ assms(4)] assms(3) CmpThread explained_stored explained_made show ?thesis by auto
  qed (use assms(1) in simp)
  then show "step_ok s ?X w (tmp_of a) w' (tmp_of a')" "act_ok s ?X w' a'" by simp_all
qed

context singleflight
begin

lemma sys_start_ok:
  assumes "sys_start s running \<sigma>"
  shows "sys_ok s (explained s stored (svc_entries s (sys_world \<sigma>))) G running used \<sigma>"
  using assms explained_base [of "svc_entries s (sys_world \<sigma>)"]
  by (simp add: sys_start_def sys_ok_def files_ok_def sound_def flights_ok_def)

lemma flights_idle:
  assumes "flights_ok G running used g th" and "leads a = {}" and "waits a = {}" and "ended (th t)"
  shows "flights_ok G running used g (th(t := a))"
proof (rule flights_same [OF assms(1)])
  show "leads a = leads (th t)" using leader_not_ended [of _ "th t"] assms(2,4) by auto
qed (simp add: assms(3))

lemma sys_step_ok:
  assumes "sys_step s G \<sigma> \<sigma>'" and "sys_ok s (explained s (s3_stored GO) old) G running used \<sigma>"
    and "svc_fetcher s = S3_Fetch GO"
  shows "sys_ok s (explained s (s3_stored GO) old) G running used \<sigma>'"
    and "\<exists>own. moves s (explained s (s3_stored GO) old) own (sys_world \<sigma>) (sys_world \<sigma>')"
proof -
  let ?X = "explained s (s3_stored GO) old"
  have F: "files_ok s ?X (sys_world \<sigma>) (sys_threads \<sigma>)" and L: "flights_ok G running used (sys_group \<sigma>) (sys_threads \<sigma>)"
    using assms(2) by (simp_all add: sys_ok_def)
  note S = files_okD(1) [OF F]
  have stay: "moves s ?X {} (sys_world \<sigma>) (sys_world \<sigma>)" using S by (simp add: moves_def)
  have env: "sys_ok s ?X G running used \<sigma>' \<and> (\<exists>own. moves s ?X own (sys_world \<sigma>) (sys_world \<sigma>'))"
    if "\<sigma>' = \<sigma>\<lparr>sys_world := w'\<rparr>" "moves s ?X own (sys_world \<sigma>) w'" "\<And>t. owned (sys_threads \<sigma> t) \<inter> own = {}" for w' own
    using files_env [OF F that(2,3)] L that(1,2) by (auto simp: sys_ok_def)
  from assms(1) have "sys_ok s ?X G running used \<sigma>' \<and> (\<exists>own. moves s ?X own (sys_world \<sigma>) (sys_world \<sigma>'))"
  proof (cases rule: sys_step.cases)
    case (sys_fetch t req)
    have "files_ok s ?X (sys_world \<sigma>) ((sys_threads \<sigma>)(t := ObjThread req ObjLookup))"
      by (rule files_idle [OF F]) simp_all
    moreover have "flights_ok G running used (sys_group \<sigma>) ((sys_threads \<sigma>)(t := ObjThread req ObjLookup))"
      by (rule flights_idle [OF L]) (simp_all add: sys_fetch(2))
    ultimately show ?thesis using stay sys_fetch(1) by (auto simp: sys_ok_def)
  next
    case (sys_compressed t req)
    let ?a = "CmpThread req (CmpLookup [roleRawCompressed, roleCabSynth])"
    have "files_ok s ?X (sys_world \<sigma>) ((sys_threads \<sigma>)(t := ?a))" by (rule files_idle [OF F]) simp_all
    moreover have "flights_ok G running used (sys_group \<sigma>) ((sys_threads \<sigma>)(t := ?a))"
      by (rule flights_idle [OF L]) (simp_all add: sys_compressed(2))
    ultimately show ?thesis using stay sys_compressed(1) by (auto simp: sys_ok_def)
  next
    case (sys_move t a w' g')
    note ok = thread_step_ok [OF sys_move(2) S files_okD(2) [OF F] assms(3)]
    from files_move [OF F ok] flights_move [OF thread_flight_move [OF sys_move(2)] L] ok(1) sys_move(1)
    show ?thesis by (auto simp: sys_ok_def step_ok_def)
  next
    case (sys_answer t)
    have "files_ok s ?X (sys_world \<sigma>) ((sys_threads \<sigma>)(t := Idle))" by (rule files_idle [OF F]) simp_all
    moreover have "flights_ok G running used (sys_group \<sigma>) ((sys_threads \<sigma>)(t := Idle))"
      by (rule flights_idle [OF L]) (simp_all add: sys_answer(2))
    ultimately show ?thesis using stay sys_answer(1) by (auto simp: sys_ok_def)
  next
    case (sys_read fs')
    from env [OF sys_read(1) moves_read [OF S sys_read(2), of "{}"]] show ?thesis by simp
  next
    case (sys_count f)
    from env [OF sys_count moves_met [OF S, of "{}"]] show ?thesis by simp
  next
    case (sys_probe r w')
    from env [OF sys_probe(1) moves_Probe [OF sys_probe(2) S]] show ?thesis by simp
  next
    case (sys_sweep maxUnused r w')
    from env [OF sys_sweep(1) moves_Evict [OF sys_sweep(2) S]] sys_sweep(3) show ?thesis by blast
  next
    case (sys_unlink p r w')
    from env [OF sys_unlink(1) moves_unlink [OF sys_unlink(2) S sys_unlink(3-5)]] sys_unlink(6) show ?thesis by blast
  qed
  then show "sys_ok s ?X G running used \<sigma>'" "\<exists>own. moves s ?X own (sys_world \<sigma>) (sys_world \<sigma>')" by simp_all
qed

lemma sys_run_ok:
  assumes "(sys_step s G)\<^sup>*\<^sup>* \<sigma> \<sigma>'" and "sys_ok s (explained s (s3_stored GO) old) G running used \<sigma>"
    and "svc_fetcher s = S3_Fetch GO"
  shows "sys_ok s (explained s (s3_stored GO) old) G running used \<sigma>'"
    and "touches (svc_cache s) UNIV (w_fs (sys_world \<sigma>)) (w_fs (sys_world \<sigma>'))"
proof -
  have "sys_ok s (explained s (s3_stored GO) old) G running used \<sigma>'
    \<and> touches (svc_cache s) UNIV (w_fs (sys_world \<sigma>)) (w_fs (sys_world \<sigma>'))"
    using assms(1)
  proof (induction rule: rtranclp_induct)
    case (step \<tau> \<tau>')
    note S = sys_step_ok [OF step.hyps(2) conjunct1 [OF step.IH] assms(3)]
    from S(2) obtain own where "touches (svc_cache s) own (w_fs (sys_world \<tau>)) (w_fs (sys_world \<tau>'))"
      by (auto simp: moves_def)
    from touches_trans [OF conjunct2 [OF step.IH] this] S(1) show ?case by simp
  qed (simp add: assms(2))
  then show "sys_ok s (explained s (s3_stored GO) old) G running used \<sigma>'"
    "touches (svc_cache s) UNIV (w_fs (sys_world \<sigma>)) (w_fs (sys_world \<sigma>'))" by simp_all
qed

text \<open>A state reached from a start.\<close>

lemma sys_reach:
  assumes "(sys_step s G)\<^sup>*\<^sup>* \<sigma>0 \<sigma>" and "sys_start s running \<sigma>0" and "svc_fetcher s = S3_Fetch GO"
  defines "X \<equiv> explained s (s3_stored GO) (svc_entries s (sys_world \<sigma>0))"
  shows "sys_ok s X G running used \<sigma>" and "sound s X (sys_world \<sigma>)" and "act_ok s X (sys_world \<sigma>) (sys_threads \<sigma> t)"
    and "flights_ok G running used (sys_group \<sigma>) (sys_threads \<sigma>)"
proof -
  show ok: "sys_ok s X G running used \<sigma>"
    using sys_run_ok(1) [OF assms(1) sys_start_ok [OF assms(2)] assms(3)] by (simp add: X_def)
  then show "sound s X (sys_world \<sigma>)" "act_ok s X (sys_world \<sigma>) (sys_threads \<sigma> t)"
    "flights_ok G running used (sys_group \<sigma>) (sys_threads \<sigma>)" using files_okD by (auto simp: sys_ok_def)
qed

text \<open>Left alone, the threads of a system come to their ends.\<close>

lemma threads_finish:
  assumes "flights_ok G running used (sys_group \<sigma>) (sys_threads \<sigma>)" and "finite {t. \<not> ended (sys_threads \<sigma> t)}"
  shows "\<exists>\<sigma>'. (sys_step s G)\<^sup>*\<^sup>* \<sigma> \<sigma>' \<and> (\<forall>t. ended (sys_threads \<sigma>' t))"
  using assms
proof (induction "\<Sum>t | \<not> ended (sys_threads \<sigma> t). left (sys_threads \<sigma> t)" arbitrary: \<sigma> rule: less_induct)
  case less
  let ?busy = "\<lambda>\<sigma>. {t. \<not> ended (sys_threads \<sigma> t)}"
  show ?case
  proof (cases "?busy \<sigma> = {}")
    case True
    then show ?thesis by blast
  next
    case False
    then obtain t where "\<not> ended (sys_threads \<sigma> t)" by blast
    from some_thread_steps [OF less.prems(1) this, of s "sys_world \<sigma>"] obtain u a w' g'
      where st: "thread_step s G (sys_threads \<sigma> u) (sys_world \<sigma>) (sys_group \<sigma>) = Some (a, w', g')" by auto
    let ?\<tau> = "\<lparr>sys_world = w', sys_group = g', sys_threads = (sys_threads \<sigma>)(u := a)\<rparr>"
    have move: "sys_step s G \<sigma> ?\<tau>" by (rule sys_move [OF st])
    note fl = flights_move [OF thread_flight_move [OF st] less.prems(1)]
    have u: "u \<in> ?busy \<sigma>" using st by (cases "sys_threads \<sigma> u" rule: ended.cases) auto
    have busy: "?busy ?\<tau> \<subseteq> ?busy \<sigma>" using u by auto
    then have fin: "finite (?busy ?\<tau>)" using less.prems(2) finite_subset by blast
    have "(\<Sum>t \<in> ?busy ?\<tau>. left (sys_threads ?\<tau> t)) \<le> (\<Sum>t \<in> ?busy \<sigma>. left (sys_threads ?\<tau> t))"
      using busy less.prems(2) by (intro sum_mono2) auto
    also have "\<dots> < (\<Sum>t \<in> ?busy \<sigma>. left (sys_threads \<sigma> t))"
      using u thread_step_left [OF st] less.prems(2) by (intro sum_strict_mono_ex1) auto
    finally obtain \<sigma>' where "(sys_step s G)\<^sup>*\<^sup>* ?\<tau> \<sigma>'" "\<forall>t. ended (sys_threads \<sigma>' t)"
      using less.hyps [of ?\<tau>] fl fin by auto
    with move show ?thesis by (meson converse_rtranclp_into_rtranclp)
  qed
qed

end

text \<open>What an explanation comes to: the entry of the start, or the stored object.\<close>

lemma explained_object:
  assumes "explained s stored old p d" and "p = req_entry s roleObjects req"
  shows "old p = Some d \<or> (\<exists>req' loc. req_entry s roleObjects req' = p \<and> svc_resolver s req' = Inr loc
    \<and> stored (Bucket loc) (Key loc) = Some d)"
  using assms(1)
proof cases
  case (explained_made req' d')
  with assms(2) have "roleObjects = compressed_role d'" using req_entry_role by metis
  then show ?thesis by (auto simp: compressed_role_def split: if_splits)
qed auto

lemma explained_compressed:
  assumes "explained s stored old p d" and "p = req_entry s role req" and "role \<noteq> roleObjects"
  shows "old p = Some d \<or> (\<exists>req' d'. p = req_entry s (compressed_role d') req' \<and> d = compressed_form s req' d'
    \<and> explained s stored old (req_entry s roleObjects req') d')"
  using assms(1)
proof cases
  case (explained_stored req' loc)
  with assms(2) have "role = roleObjects" using req_entry_role by metis
  with assms(3) show ?thesis by simp
qed auto

text \<open>The run of one thread as a run of the system.\<close>

lemma runs_sys:
  assumes "runs (thread_step s G) (a, w, g) (a', w', g')"
  shows "(sys_step s G)\<^sup>*\<^sup>* \<lparr>sys_world = w, sys_group = g, sys_threads = th(t := a)\<rparr>
    \<lparr>sys_world = w', sys_group = g', sys_threads = th(t := a')\<rparr>"
  using assms
proof (induction "(a, w, g)" "(a', w', g')" arbitrary: a w g rule: runs.induct)
  case (runs_step a w g q1)
  obtain a1 w1 g1 where q1: "q1 = (a1, w1, g1)" by (cases q1)
  have "sys_step s G \<lparr>sys_world = w, sys_group = g, sys_threads = th(t := a)\<rparr>
      \<lparr>sys_world = w1, sys_group = g1, sys_threads = (th(t := a))(t := a1)\<rparr>"
    using sys_move [of s G "\<lparr>sys_world = w, sys_group = g, sys_threads = th(t := a)\<rparr>" t a1 w1 g1] runs_step.hyps(1) q1 by simp
  with runs_step.hyps(3) [OF q1] show ?case by (simp add: converse_rtranclp_into_rtranclp)
qed simp

lemma concurrent_reach:
  assumes "singleflight G running used" and "svc_fetcher s = S3_Fetch GO" and "sys_start s running \<sigma>0"
    and "(sys_step s G)\<^sup>*\<^sup>* \<sigma>0 \<sigma>"
  shows "cache_ok (svc_cache s) (w_fs (sys_world \<sigma>))"
    and "svc_entries s (sys_world \<sigma>) p = Some d \<Longrightarrow> explained s (s3_stored GO) (svc_entries s (sys_world \<sigma>0)) p d"
  using soundD(2,6) [OF singleflight.sys_reach(2) [OF assms(1,4,3,2)]] by blast+

section \<open>Properties\<close>

text \<open>C2: with any number of requests, sweeps and probes interleaved, what a verbatim request answers is the entry
  the cache held at the start, or the whole object stored for a request with the same entry; and the open answer
  reads the same from then on, whatever is evicted or replaced meanwhile.\<close>

theorem concurrent_answers:
  assumes "singleflight G running used" and "svc_fetcher s = S3_Fetch GO" and "sys_start s running \<sigma>0"
    and "(sys_step s G)\<^sup>*\<^sup>* \<sigma>0 \<sigma>" and "sys_threads \<sigma> t = ObjThread req (ObjDone (Inr (Some f)))"
    and "(sys_step s G)\<^sup>*\<^sup>* \<sigma> \<sigma>'"
  shows "(svc_entries s (sys_world \<sigma>0) (req_entry s roleObjects req) = Some (handle_bytes (sys_world \<sigma>') f)
      \<or> (\<exists>req' loc. req_entry s roleObjects req' = req_entry s roleObjects req \<and> svc_resolver s req' = Inr loc
          \<and> s3_stored GO (Bucket loc) (Key loc) = Some (handle_bytes (sys_world \<sigma>') f)))
    \<and> fi_Size (snd f) = int (length (handle_bytes (sys_world \<sigma>') f))"
proof -
  note R = singleflight.sys_reach [OF assms(1,4,3,2)]
  note T = singleflight.sys_run_ok(2) [OF assms(1,6) R(1) assms(2)]
  let ?X = "explained s (s3_stored GO) (svc_entries s (sys_world \<sigma>0))"
  have o: "open_ok s ?X roleObjects req (sys_world \<sigma>) f" using R(3) [of t] assms(5) by simp
  with touchesD(4) [OF T] have "handle_bytes (sys_world \<sigma>') f = handle_bytes (sys_world \<sigma>) f"
    by (simp add: open_ok_def handle_bytes_def)
  with o explained_object [OF _ refl, of s "s3_stored GO" "svc_entries s (sys_world \<sigma>0)" req "handle_bytes (sys_world \<sigma>) f"]
  show ?thesis by (auto simp: open_ok_def)
qed

text \<open>C11: a compressed answer is, under the same interleavings, an entry of the start, or the mirror or cabinet
  made of a whole object; it stays what it is.\<close>

theorem concurrent_cabinets:
  assumes "singleflight G running used" and "svc_fetcher s = S3_Fetch GO" and "sys_start s running \<sigma>0"
    and "(sys_step s G)\<^sup>*\<^sup>* \<sigma>0 \<sigma>" and "sys_threads \<sigma> t = CmpThread req (CmpDone (Inr (Some f)))"
    and "(sys_step s G)\<^sup>*\<^sup>* \<sigma> \<sigma>'"
  shows "\<exists>role \<in> {roleRawCompressed, roleCabSynth}.
      svc_entries s (sys_world \<sigma>0) (req_entry s role req) = Some (handle_bytes (sys_world \<sigma>') f)
      \<or> (\<exists>req' d. req_entry s role req = req_entry s (compressed_role d) req'
          \<and> handle_bytes (sys_world \<sigma>') f = compressed_form s req' d
          \<and> explained s (s3_stored GO) (svc_entries s (sys_world \<sigma>0)) (req_entry s roleObjects req') d)"
proof -
  note R = singleflight.sys_reach [OF assms(1,4,3,2)]
  note T = singleflight.sys_run_ok(2) [OF assms(1,6) R(1) assms(2)]
  let ?X = "explained s (s3_stored GO) (svc_entries s (sys_world \<sigma>0))"
  obtain role where role: "role \<in> cmp_roles" and o: "open_ok s ?X role req (sys_world \<sigma>) f"
    using R(3) [of t] assms(5) by auto
  from o touchesD(4) [OF T] have "handle_bytes (sys_world \<sigma>') f = handle_bytes (sys_world \<sigma>) f"
    by (simp add: open_ok_def handle_bytes_def)
  with o role explained_compressed [OF _ refl, of s "s3_stored GO" "svc_entries s (sys_world \<sigma>0)" role req "handle_bytes (sys_world \<sigma>) f"]
  show ?thesis by (intro bexI [OF _ role]) (auto simp: open_ok_def)
qed

text \<open>C7: in every state the interleaved requests can reach, the cache is laid out and no entry is partial: each
  holds what it held at the start, a whole stored object, or the compressed form of such bytes.\<close>

theorem concurrent_entries:
  assumes "singleflight G running used" and "svc_fetcher s = S3_Fetch GO" and "sys_start s running \<sigma>0"
    and "(sys_step s G)\<^sup>*\<^sup>* \<sigma>0 \<sigma>"
  shows "cache_ok (svc_cache s) (w_fs (sys_world \<sigma>))
    \<and> (\<forall>p d. svc_entries s (sys_world \<sigma>) p = Some d \<longrightarrow>
          explained s (s3_stored GO) (svc_entries s (sys_world \<sigma>0)) p d)"
  using concurrent_reach [OF assms] by blast

text \<open>C16: at most one thread at a time runs the download of an object, or the synthesis of a cabinet.\<close>

theorem one_producer:
  assumes "singleflight G running used" and "svc_fetcher s = S3_Fetch GO" and "sys_start s running \<sigma>0"
    and "(sys_step s G)\<^sup>*\<^sup>* \<sigma>0 \<sigma>"
    and "(key, m) \<in> leads (sys_threads \<sigma> t)" and "(key, n) \<in> leads (sys_threads \<sigma> u)"
  shows "t = u \<and> m = n"
proof -
  note F = flights_okD [OF singleflight.sys_reach(4) [OF assms(1,4,3,2)]]
  from F(1) [OF assms(5)] F(1) [OF assms(6)] have "m = n" by simp
  with F(3) assms(5,6) show ?thesis by blast
qed

text \<open>C4: no request is ever stuck: from every reachable state, whatever waits for whatever, the requests under way
  can all run to their answers, without any new event and each in at most 28 steps of its own.\<close>

theorem requests_finish:
  assumes "singleflight G running used" and "svc_fetcher s = S3_Fetch GO" and "sys_start s running \<sigma>0"
    and "(sys_step s G)\<^sup>*\<^sup>* \<sigma>0 \<sigma>" and "finite {t. \<not> ended (sys_threads \<sigma> t)}"
  shows "(\<exists>\<sigma>'. (sys_step s G)\<^sup>*\<^sup>* \<sigma> \<sigma>' \<and> (\<forall>t. ended (sys_threads \<sigma>' t)))
    \<and> (\<forall>a w g a' w' g'. thread_step s G a w g = Some (a', w', g') \<longrightarrow> left a' < left a)
    \<and> left (CmpThread req (CmpLookup [roleRawCompressed, roleCabSynth])) = 28"
  using singleflight.threads_finish [OF assms(1) singleflight.sys_reach(4) [OF assms(1,4,3,2)] assms(5)] thread_step_left
  by auto

text \<open>C39: the program points are the program: a request that runs alone ends with the result and in the world of
  \<open>Fetch\<close> and \<open>FetchCompressed\<close>, and leaves no flight behind.\<close>

theorem alone_equivalent:
  assumes "singleflight G running used" and "solo s" and "running g = Map.empty"
  shows "(\<exists>g'. running g' = Map.empty \<and> runs (thread_step s G) (ObjThread req ObjLookup, w, g)
        (ObjThread req (ObjDone (fst (Fetch s req w))), snd (Fetch s req w), g'))
    \<and> (\<exists>g'. running g' = Map.empty \<and> runs (thread_step s G) (CmpThread req (CmpLookup [roleRawCompressed, roleCabSynth]), w, g)
        (CmpThread req (CmpDone (fst (FetchCompressed s req w))), snd (FetchCompressed s req w), g'))"
proof
  have "running g (obj_flight req) = None" by (simp add: assms(3))
  from singleflight.object_runs [OF assms(1) surjective_pairing assms(2) this] obtain g' where
    g': "runs (obj_step s G req) (ObjLookup, w, g) (ObjDone (fst (object s req w)), snd (object s req w), g')"
      "running g' = running g" .
  show "\<exists>g'. running g' = Map.empty \<and> runs (thread_step s G) (ObjThread req ObjLookup, w, g)
        (ObjThread req (ObjDone (fst (Fetch s req w))), snd (Fetch s req w), g')"
    using runs_embed [OF g'(1), of "thread_step s G" "ObjThread req"] g'(2) assms(3) by (auto simp: Fetch_def)
  from singleflight.compressed_runs [OF assms(1) surjective_pairing assms(2,3)] obtain g2 where
    g2: "runs (cmp_step s G req) (CmpLookup [roleRawCompressed, roleCabSynth], w, g)
        (CmpDone (fst (FetchCompressed s req w)), snd (FetchCompressed s req w), g2)" "running g2 = running g" .
  show "\<exists>g'. running g' = Map.empty \<and> runs (thread_step s G) (CmpThread req (CmpLookup [roleRawCompressed, roleCabSynth]), w, g)
        (CmpThread req (CmpDone (fst (FetchCompressed s req w))), snd (FetchCompressed s req w), g')"
    using runs_embed [OF g2(1), of "thread_step s G" "CmpThread req"] g2(2) assms(3) by auto
qed

section \<open>Witnesses\<close>

definition ex_sys :: "map_group sys" where
  "ex_sys = \<lparr>sys_world = ex_world, sys_group = no_flights, sys_threads = (\<lambda>_. Idle)\<rparr>"

lemma ex_sys_start: "sys_start ex_svc mg_running ex_sys"
  using ex_ready by (simp add: sys_start_def ex_sys_def no_flights_def)

lemmas ex_flights = map_flights.singleflight_axioms

text \<open>Thread 0 takes up a request and runs alone.\<close>

lemma ex_sys_run:
  assumes "runs (thread_step ex_svc map_flights) (a, ex_world, no_flights) (a', w', g')"
    and "sys_step ex_svc map_flights ex_sys (ex_sys\<lparr>sys_threads := (sys_threads ex_sys)(0 := a)\<rparr>)"
  shows "(sys_step ex_svc map_flights)\<^sup>*\<^sup>* ex_sys \<lparr>sys_world = w', sys_group = g', sys_threads = (\<lambda>_. Idle)(0 := a')\<rparr>"
proof -
  have "ex_sys\<lparr>sys_threads := (sys_threads ex_sys)(0 := a)\<rparr>
      = \<lparr>sys_world = ex_world, sys_group = no_flights, sys_threads = (\<lambda>_. Idle)(0 := a)\<rparr>" by (simp add: ex_sys_def)
  with runs_sys [OF assms(1), of "\<lambda>_. Idle" 0] assms(2) show ?thesis by (simp add: converse_rtranclp_into_rtranclp)
qed

lemma no_flights_running: "mg_running no_flights = Map.empty" "mg_running no_flights k = None"
  by (simp_all add: no_flights_def)

lemma ex_answered:
  obtains \<sigma> f where "(sys_step ex_svc map_flights)\<^sup>*\<^sup>* ex_sys \<sigma>" and "sys_threads \<sigma> 0 = ObjThread (ex_req ''a'') (ObjDone (Inr (Some f)))"
proof -
  from ex_fetch obtain q w' where o: "object ex_svc (ex_req ''a'') ex_world = (Inr q, w')" by (auto simp: Fetch_def)
  with s3.object_solo(4) [OF o ex_ready ex_svc_simps(2,6)] obtain f where f: "q = Some f" by (cases q) auto
  from map_flights.object_runs [OF o ex_svc_simps(6) no_flights_running(2)] obtain g' where
    g': "runs (obj_step ex_svc map_flights (ex_req ''a'')) (ObjLookup, ex_world, no_flights) (ObjDone (Inr q), w', g')" .
  have "runs (thread_step ex_svc map_flights) (ObjThread (ex_req ''a'') ObjLookup, ex_world, no_flights)
      (ObjThread (ex_req ''a'') (ObjDone (Inr q)), w', g')"
    by (rule runs_embed [OF g']) simp
  note run = ex_sys_run [OF this sys_fetch]
  show thesis by (rule that [OF run]) (simp_all add: ex_sys_def f)
qed

lemma ex_cabinet_answered:
  obtains \<sigma> f where "(sys_step ex_svc map_flights)\<^sup>*\<^sup>* ex_sys \<sigma>" and "sys_threads \<sigma> 0 = CmpThread (ex_req ''a'') (CmpDone (Inr (Some f)))"
proof -
  from ex_fetch_compressed obtain f w' where o: "FetchCompressed ex_svc (ex_req ''a'') ex_world = (Inr (Some f), w')" by blast
  from map_flights.compressed_runs [OF o ex_svc_simps(6) no_flights_running(1)] obtain g' where
    g': "runs (cmp_step ex_svc map_flights (ex_req ''a'')) (CmpLookup [roleRawCompressed, roleCabSynth], ex_world, no_flights)
      (CmpDone (Inr (Some f)), w', g')" .
  have "runs (thread_step ex_svc map_flights) (CmpThread (ex_req ''a'') (CmpLookup [roleRawCompressed, roleCabSynth]), ex_world, no_flights)
      (CmpThread (ex_req ''a'') (CmpDone (Inr (Some f))), w', g')"
    by (rule runs_embed [OF g']) simp
  note run = ex_sys_run [OF this sys_compressed]
  show thesis by (rule that [OF run]) (simp_all add: ex_sys_def)
qed

lemma ex_sys_empty: "svc_entries ex_svc (sys_world ex_sys) p = None"
  using ex_empty [of p] by (simp add: ex_sys_def)

lemma concurrent_answers_witness:
  "\<exists>\<sigma> f. (sys_step ex_svc map_flights)\<^sup>*\<^sup>* ex_sys \<sigma>
    \<and> sys_threads \<sigma> 0 = ObjThread (ex_req ''a'') (ObjDone (Inr (Some f))) \<and> handle_bytes (sys_world \<sigma>) f = [1, 2, 3]"
proof -
  obtain \<sigma> f where r: "(sys_step ex_svc map_flights)\<^sup>*\<^sup>* ex_sys \<sigma>" "sys_threads \<sigma> 0 = ObjThread (ex_req ''a'') (ObjDone (Inr (Some f)))"
    by (rule ex_answered)
  have "s3_stored ex_get b k = Some d \<Longrightarrow> d = [1, 2, 3]" for b k d by (simp add: s3_stored_def ex_get_def split: if_splits)
  then have "handle_bytes (sys_world \<sigma>) f = [1, 2, 3]"
    using concurrent_answers [OF ex_flights ex_svc_simps(2) ex_sys_start r rtranclp.rtrancl_refl] ex_sys_empty by auto
  with r show ?thesis by blast
qed

lemma concurrent_cabinets_witness:
  "\<exists>\<sigma> f req' d. (sys_step ex_svc map_flights)\<^sup>*\<^sup>* ex_sys \<sigma>
    \<and> sys_threads \<sigma> 0 = CmpThread (ex_req ''a'') (CmpDone (Inr (Some f))) \<and> handle_bytes (sys_world \<sigma>) f = compressed_form ex_svc req' d"
proof -
  obtain \<sigma> f where r: "(sys_step ex_svc map_flights)\<^sup>*\<^sup>* ex_sys \<sigma>" "sys_threads \<sigma> 0 = CmpThread (ex_req ''a'') (CmpDone (Inr (Some f)))"
    by (rule ex_cabinet_answered)
  obtain req' d where "handle_bytes (sys_world \<sigma>) f = compressed_form ex_svc req' d"
    using concurrent_cabinets [OF ex_flights ex_svc_simps(2) ex_sys_start r rtranclp.rtrancl_refl] ex_sys_empty by auto
  with r show ?thesis by blast
qed

lemma concurrent_entries_witness:
  "\<exists>\<sigma>. (sys_step ex_svc map_flights)\<^sup>*\<^sup>* ex_sys \<sigma> \<and> cache_ok ex_cache (w_fs (sys_world \<sigma>)) \<and> sys_threads \<sigma> 0 \<noteq> Idle"
proof -
  obtain \<sigma> f where r: "(sys_step ex_svc map_flights)\<^sup>*\<^sup>* ex_sys \<sigma>" "sys_threads \<sigma> 0 = CmpThread (ex_req ''a'') (CmpDone (Inr (Some f)))"
    by (rule ex_cabinet_answered)
  from concurrent_entries [OF ex_flights ex_svc_simps(2) ex_sys_start r(1)] r show ?thesis by (intro exI [of _ \<sigma>]) (simp add: r(2))
qed

text \<open>A thread that has just taken the lead of a download.\<close>

lemma ex_leading:
  obtains \<sigma> n where "(sys_step ex_svc map_flights)\<^sup>*\<^sup>* ex_sys \<sigma>" and "sys_threads \<sigma> = (\<lambda>_. Idle)(0 := ObjThread (ex_req ''a'') (DlResolve n))"
proof -
  obtain r w1 where l: "req_Lookup ex_svc roleObjects (ex_req ''a'') ex_world = (r, w1)" by fastforce
  note L = svc_Lookup_quiet [OF l ex_ready role_ok_names(1)]
  have "r \<noteq> Inr (Some h)" for h using L(3) [of "fst h" "snd h"] ex_empty by auto
  moreover have "is_ok r" by (rule L(5) [OF ex_fault_free])
  ultimately have r: "r = Inr None" by (metis is_ok_simps(2) not_None_eq sum.exhaust)
  let ?w = "on_met (met_lookup roleObjects ResultMiss) w1"
  obtain n lead g1 where en: "fg_Enter map_flights (obj_flight (ex_req ''a'')) no_flights = ((n, lead), g1)" by (metis prod.exhaust)
  have lead by (rule conjunct1 [OF map_flights.enter_new [OF no_flights_running(2) en]])
  with en have en': "obj_step ex_svc map_flights (ex_req ''a'') ObjDo ?w no_flights = Some (DlResolve n, ?w, g1)" by simp
  have "runs (obj_step ex_svc map_flights (ex_req ''a'')) (ObjLookup, ex_world, no_flights) (DlResolve n, ?w, g1)"
    by (rule runs_step [OF _ runs_step [where step = "obj_step ex_svc map_flights (ex_req ''a'')", OF en' runs_end]]) (simp add: l r)
  from runs_embed [OF this, of "thread_step ex_svc map_flights" "ObjThread (ex_req ''a'')"]
  have "runs (thread_step ex_svc map_flights) (ObjThread (ex_req ''a'') ObjLookup, ex_world, no_flights)
      (ObjThread (ex_req ''a'') (DlResolve n), ?w, g1)" by simp
  from ex_sys_run [OF this sys_fetch] show thesis by (rule that) (simp_all add: ex_sys_def)
qed

lemma one_producer_witness:
  "\<exists>\<sigma> n. (sys_step ex_svc map_flights)\<^sup>*\<^sup>* ex_sys \<sigma> \<and> (obj_flight (ex_req ''a''), n) \<in> leads (sys_threads \<sigma> 0)
    \<and> (\<forall>u m. (obj_flight (ex_req ''a''), m) \<in> leads (sys_threads \<sigma> u) \<longrightarrow> u = 0)"
proof -
  obtain \<sigma> n where s: "(sys_step ex_svc map_flights)\<^sup>*\<^sup>* ex_sys \<sigma>" "sys_threads \<sigma> = (\<lambda>_. Idle)(0 := ObjThread (ex_req ''a'') (DlResolve n))"
    by (rule ex_leading)
  have l: "(obj_flight (ex_req ''a''), n) \<in> leads (sys_threads \<sigma> 0)" by (simp add: s(2))
  from one_producer [OF ex_flights ex_svc_simps(2) ex_sys_start s(1) _ l] s(1) l show ?thesis by blast
qed

lemma requests_finish_witness: "\<exists>\<sigma>. (sys_step ex_svc map_flights)\<^sup>*\<^sup>* ex_sys \<sigma> \<and> \<not> ended (sys_threads \<sigma> 0)
    \<and> (\<exists>\<sigma>'. (sys_step ex_svc map_flights)\<^sup>*\<^sup>* \<sigma> \<sigma>' \<and> (\<forall>t. ended (sys_threads \<sigma>' t)))"
proof -
  obtain \<sigma> n where s: "(sys_step ex_svc map_flights)\<^sup>*\<^sup>* ex_sys \<sigma>" "sys_threads \<sigma> = (\<lambda>_. Idle)(0 := ObjThread (ex_req ''a'') (DlResolve n))"
    by (rule ex_leading)
  have "{t. \<not> ended (sys_threads \<sigma> t)} \<subseteq> {0}" by (auto simp: s(2))
  then have "finite {t. \<not> ended (sys_threads \<sigma> t)}" using finite_subset by blast
  from requests_finish [OF ex_flights ex_svc_simps(2) ex_sys_start s(1) this] s show ?thesis by auto
qed

lemma alone_equivalent_witness:
  "\<exists>g'. runs (thread_step ex_svc map_flights) (ObjThread (ex_req ''a'') ObjLookup, ex_world, no_flights)
     (ObjThread (ex_req ''a'') (ObjDone (fst (Fetch ex_svc (ex_req ''a'') ex_world))), snd (Fetch ex_svc (ex_req ''a'') ex_world), g')"
  using alone_equivalent [OF ex_flights ex_svc_simps(6) no_flights_running(1), of "ex_req ''a''" ex_world] by blast

end
