(* ===== verification/Process.thy ===== *)
theory Process
  imports Daemon ConcurrentProps
begin

text \<open>
  The program as a process: \<open>main\<close> with its exit status and what it logs, from the initialisation of
  the package \<open>metrics\<close> to the end of \<open>run\<close>; and a second process over the cache that the first
  left behind, whether it ended or was killed with requests under way.
\<close>

section \<open>Logging\<close>

datatype log_value = LogString string | LogBool bool | LogError goerr

record log_line =
  ll_level :: log_level
  ll_msg :: string
  ll_attrs :: "(string \<times> log_value) list"

text \<open>The numbers of \<open>slog\<close>'s levels; a handler drops what is below its own.\<close>

fun slog_number :: "log_level \<Rightarrow> int" where
  "slog_number LevelDebug = - 4"
| "slog_number LevelInfo = 0"
| "slog_number LevelWarn = 4"
| "slog_number LevelError = 8"

definition slog_emit :: "log_level \<Rightarrow> log_line \<Rightarrow> log_line list" where
  "slog_emit lvl l = (if slog_number lvl \<le> slog_number (ll_level l) then [l] else [])"

definition starting_line :: "daemon \<Rightarrow> log_line" where
  "starting_line d = \<lparr>ll_level = LevelInfo, ll_msg = ''debugsymd starting'',
     ll_attrs = [(''version'', LogString (Version (d_build d))), (''revision'', LogString (Revision (d_build d))),
       (''go_version'', LogString (GoVersion (d_build d))), (''bind'', LogString (Bind (d_config d))),
       (''admin'', LogString (Admin (d_config d))), (''cache_dir'', LogString (CacheDir (d_config d))),
       (''bucket'', LogString (st_Bucket (Storage (d_config d)))), (''debuginfod'', LogBool (Debuginfod (d_config d)))]\<rparr>"

definition exited_line :: "goerr \<Rightarrow> log_line" where
  "exited_line e = \<lparr>ll_level = LevelError, ll_msg = ''debugsymd exited'', ll_attrs = [(''error'', LogError e)]\<rparr>"

section \<open>The process\<close>

text \<open>The level in force after \<open>run\<close>: the default logger's until the configuration is loaded.\<close>

definition run_level :: "daemon_env \<Rightarrow> string list \<Rightarrow> log_level" where
  "run_level env args =
     (case Load (de_config env) args of Inl e \<Rightarrow> LevelInfo | Inr cfg \<Rightarrow> setupLogging (de_unicode env) (LogLevel cfg))"

text \<open>\<open>main\<close>, given what \<open>run\<close> returned: the exit status and the lines it logs.\<close>

definition main_exit :: "log_level \<Rightarrow> goerr option \<Rightarrow> nat \<times> log_line list" where
  "main_exit lvl err = (case err of Some e \<Rightarrow> (1, slog_emit lvl (exited_line e)) | None \<Rightarrow> (0, []))"

text \<open>
  A process and its end: exit status, what \<open>main.go\<close> logged, and the world it leaves. Go exits with status 2 on a
  panic in the initialisation of a package.
\<close>

inductive process :: "'reg prom_lib \<Rightarrow> daemon_env \<Rightarrow> string list \<Rightarrow> osfs \<Rightarrow> nat \<times> log_line list \<Rightarrow> world \<Rightarrow> bool"
  for pm env args fs where
  process_panic: "newRegistry pm (de_go_version env) (de_build_info env) zero_metrics = (Inl e, m) \<Longrightarrow>
     process pm env args fs (2, []) \<lparr>w_fs = fs, w_met = m\<rparr>"
| process_no_start: "newRegistry pm (de_go_version env) (de_build_info env) zero_metrics = (Inr r, m) \<Longrightarrow>
     run_start env args \<lparr>w_fs = fs, w_met = m\<rparr> = (Inl e, w) \<Longrightarrow>
     process pm env args fs (main_exit (run_level env args) (run_exit (Inl e) ev)) w"
| process_served: "newRegistry pm (de_go_version env) (de_build_info env) zero_metrics = (Inr r, m) \<Longrightarrow>
     run_start env args \<lparr>w_fs = fs, w_met = m\<rparr> = (Inr d, w1) \<Longrightarrow>
     (http_step (d_server d) (svc_cache (d_service d)) (CacheMaxUnusedFor (d_config d)))\<^sup>*\<^sup>* w1 w \<Longrightarrow>
     (code, lines) = main_exit (d_level d) (run_exit (Inr d) ev) \<Longrightarrow>
     process pm env args fs (code, slog_emit (d_level d) (starting_line d) @ lines) w"

inductive_cases processE: "process pm env args fs out w"

lemma main_exit_simps [simp]:
  "main_exit lvl None = (0, [])" "main_exit lvl (Some e) = (1, [exited_line e])"
  by (cases lvl; simp add: main_exit_def slog_emit_def exited_line_def)+

lemma run_exit_Inl [simp]: "run_exit (Inl e) ev = Some e"
  by (simp add: run_exit_def)

lemma run_exit_None [simp]: "run_exit (Inr d) ev = None \<longleftrightarrow> ev = Cancelled \<or> ev = ListenerClosed"
  by (cases ev) (simp_all add: run_exit_def Server_Run_def)


text \<open>A start that fails: at the configuration nothing is touched, later the cache may have been laid out.\<close>

lemma run_start_Inl:
  assumes "run_start env args w = (Inl e, w1)"
  shows "Load (de_config env) args = Inl e' \<Longrightarrow> e = Wrap ''loading config'' e' \<and> w1 = w"
    and "Load (de_config env) args = Inr cfg \<Longrightarrow> layout (CacheDir cfg) (w_fs w) \<Longrightarrow> layout (CacheDir cfg) (w_fs w1)"
proof -
  show "e = Wrap ''loading config'' e' \<and> w1 = w" if "Load (de_config env) args = Inl e'"
    using assms that by (simp add: run_start_def)
  assume cfg: "Load (de_config env) args = Inr cfg" "layout (CacheDir cfg) (w_fs w)"
  obtain r fs1 where n: "cache_New (CacheDir cfg) (w_fs w) = (r, fs1)" by fastforce
  with assms cfg(1) have "w1 = w\<lparr>w_fs := fs1\<rparr>" by (auto simp: run_start_def Let_def split: result_splits)
  with cache_New_layout [OF n cfg(2)] show "layout (CacheDir cfg) (w_fs w1)" by simp
qed

lemma run_start_config:
  assumes "run_start env args w = (Inr d, w1)"
  shows "Load (de_config env) args = Inr (d_config d)" and "c_root (svc_cache (d_service d)) = CacheDir (d_config d)"
    and "w1 = d_world d" and "\<exists>client. svc_fetcher (d_service d) = S3_Fetch (de_GetObject env client)"
    and "svc_sha (d_service d) = de_sha env"
proof -
  from assms obtain c fs1 client where *: "Load (de_config env) args = Inr (d_config d)"
    "cache_New (CacheDir (d_config d)) (w_fs w) = (Inr c, fs1)" "d_service d = new_service env (d_config d) c client"
    "w1 = d_world d" by (rule run_start_Inr)
  show "Load (de_config env) args = Inr (d_config d)" "w1 = d_world d" "svc_sha (d_service d) = de_sha env"
    "\<exists>client. svc_fetcher (d_service d) = S3_Fetch (de_GetObject env client)" using * by auto
  show "c_root (svc_cache (d_service d)) = CacheDir (d_config d)"
    using * by (auto simp: cache_New_def split: prod.splits sum.splits)
qed

section \<open>Properties\<close>

text \<open>C3: a process of the daemon never panics while it initialises; it ends with status 0 or 1, with 1 exactly when it has
  logged why; a bad configuration touches no file; otherwise the cache directory it leaves is laid out for the next
  process, and after a run that ended well, in which nothing failed, the size gauges it last exposed were exact.\<close>

theorem daemon_process:
  assumes "registers_fresh pm taken lib_names" and "process pm env args fs (code, lines) w"
    and "sha_ok (de_sha env)" and "rand_ok fs"
    and "\<And>m d w1. run_start env args \<lparr>w_fs = fs, w_met = m\<rparr> = (Inr d, w1) \<Longrightarrow> joins_ok (d_service d)"
  shows "(code = 0 \<or> code = 1) \<and> (code = 1 \<longleftrightarrow> (\<exists>e. exited_line e \<in> set lines))
    \<and> (case Load (de_config env) args of
         Inl e \<Rightarrow> code = 1 \<and> lines = [exited_line (Wrap ''loading config'' e)] \<and> w_fs w = fs
       | Inr cfg \<Rightarrow> layout (CacheDir cfg) fs \<longrightarrow> layout (CacheDir cfg) (w_fs w)
           \<and> (code = 0 \<and> fault_free fs \<longrightarrow>
               CacheSizeBytes (w_met w) = total_size \<lparr>c_root = CacheDir cfg\<rparr> (w_fs w)
               \<and> CacheEntries (w_met w) = entry_count \<lparr>c_root = CacheDir cfg\<rparr> (w_fs w)))"
proof -
  from newRegistry_registers [OF assms(1), of "de_go_version env" "de_build_info env"] obtain r m where
    reg: "newRegistry pm (de_go_version env) (de_build_info env) zero_metrics = (Inr r, m)" by blast
  from assms(2) show ?thesis
  proof (cases rule: process.cases)
    case (process_panic e m)
    with reg show ?thesis by simp
  next
    case (process_no_start r m e ev)
    note F = run_start_Inl [OF process_no_start(3)]
    from process_no_start(1) have "code = 1" "lines = [exited_line e]" by simp_all
    with F show ?thesis by (auto split: sum.splits)
  next
    case (process_served r m d w1 lines0 ev)
    note C = run_start_config [OF process_served(3)]
    have code: "code = 0 \<and> lines0 = [] \<or> (\<exists>e. code = 1 \<and> lines0 = [exited_line e])"
      using process_served(5) by (cases "run_exit (Inr d) ev") auto
    have start: "exited_line e \<notin> set (slog_emit (d_level d) (starting_line d))" for e
      by (simp add: slog_emit_def starting_line_def exited_line_def)
    have "cache_ok (svc_cache (d_service d)) (w_fs w)
      \<and> (fault_free fs \<longrightarrow> CacheSizeBytes (w_met w) = total_size (svc_cache (d_service d)) (w_fs w)
          \<and> CacheEntries (w_met w) = entry_count (svc_cache (d_service d)) (w_fs w))"
      if "layout (CacheDir (d_config d)) fs"
      using daemon_serves [OF process_served(3) _ assms(3)] process_served(4) that assms(4) assms(5) [OF process_served(3)] C(3)
      by simp
    moreover have "svc_cache (d_service d) = \<lparr>c_root = CacheDir (d_config d)\<rparr>"
      using C(2) by (cases "svc_cache (d_service d)") simp
    ultimately have "layout (CacheDir (d_config d)) (w_fs w) \<and> (fault_free fs \<longrightarrow>
        CacheSizeBytes (w_met w) = total_size \<lparr>c_root = CacheDir (d_config d)\<rparr> (w_fs w)
        \<and> CacheEntries (w_met w) = entry_count \<lparr>c_root = CacheDir (d_config d)\<rparr> (w_fs w))"
      if "layout (CacheDir (d_config d)) fs" using that cache_ok_layout by fastforce
    with code start process_served(1) C(1) show ?thesis by auto
  qed
qed

text \<open>
  Another process finds the files of the one before it; the faults, clock and random names it meets are its own. (The
  process was killed, not the machine: what was written is there.)
\<close>

definition same_files_found :: "osfs \<Rightarrow> osfs \<Rightarrow> bool" where
  "same_files_found fs fs' \<longleftrightarrow> fs_nodes fs' = fs_nodes fs \<and> fs_inodes fs' = fs_inodes fs \<and> fs_next fs' = fs_next fs"

lemma same_files_found_ok: "same_files_found fs fs' \<Longrightarrow> cache_ok c fs \<Longrightarrow> cache_ok c fs'"
  by (simp add: same_files_found_def cache_ok_def fs_ok_def inodes_ok_def)

lemma run_start_again:
  assumes "Load (de_config env) args = Inr cfg" and "cache_ok c (w_fs w)" and "fault_free (w_fs w)"
    and "\<And>r. de_aws_config env r = Inr ()" and "c_root c = CacheDir cfg"
  shows "\<exists>d w1. run_start env args w = (Inr d, w1) \<and> d_config d = cfg"
proof -
  obtain fs1 where "cache_New (CacheDir cfg) (w_fs w) = (Inr c, fs1)"
    using cache_New_again [OF assms(2,3)] assms(5) by auto
  with assms(1,4) show ?thesis by (simp add: run_start_def Let_def NewS3_def)
qed

lemma run_start_entries:
  assumes "run_start env args w = (Inr d, w1)" and "layout (CacheDir (d_config d)) (w_fs w)"
  shows "svc_entries (d_service d) (d_world d) = svc_entries (d_service d) w"
proof -
  from assms(1) obtain c fs1 client where new: "cache_New (CacheDir (d_config d)) (w_fs w) = (Inr c, fs1)"
    and dw: "d_world d = SeedMetrics c (w\<lparr>w_fs := fs1\<rparr>)" by (rule run_start_Inr)
  note S = same_storeD [OF SeedMetrics_read_only [of "w\<lparr>w_fs := fs1\<rparr>" c]]
  have "content_at (w_fs (d_world d)) p = content_at (w_fs w) p" for p
    using cache_New_effect [OF new assms(2)] S by (simp add: dw content_at_file file_at_def)
  then show ?thesis by (simp add: cache_entry_def fun_eq_iff)
qed

text \<open>C12: the daemon may be killed at any moment, with any number of requests half done: unless a call fails then, the next
  process starts, over exactly the entries that were committed, each of them whole, and with exact gauges.\<close>

theorem restart_after_kill:
  assumes "run_start env args w = (Inr d, w1)" and "layout (CacheDir (d_config d)) (w_fs w)"
    and "sha_ok (de_sha env)" and "rand_ok (w_fs w)"
    and "singleflight G running used" and "running g = Map.empty"
    and "(sys_step (d_service d) G)\<^sup>*\<^sup>* \<lparr>sys_world = d_world d, sys_group = g, sys_threads = (\<lambda>_. Idle)\<rparr> \<sigma>"
    and "same_files_found (w_fs (sys_world \<sigma>)) fs2" and "rand_ok fs2" and "fault_free fs2"
    and "Load (de_config env2) args2 = Inr cfg2" and "CacheDir cfg2 = CacheDir (d_config d)"
    and "sha_ok (de_sha env2)" and "\<And>r. de_aws_config env2 r = Inr ()"
  shows "\<exists>d2 w2. run_start env2 args2 \<lparr>w_fs = fs2, w_met = m\<rparr> = (Inr d2, w2)
    \<and> svc_ready (d_service d2) (d_world d2) \<and> gauges_exact (svc_cache (d_service d2)) (d_world d2)
    \<and> svc_entries (d_service d2) (d_world d2) = svc_entries (d_service d) (sys_world \<sigma>)
    \<and> (\<exists>client. \<forall>p e. svc_entries (d_service d2) (d_world d2) p = Some e \<longrightarrow>
          explained (d_service d) (s3_stored (de_GetObject env client)) (svc_entries (d_service d) w) p e)"
proof -
  let ?s = "d_service d" and ?w2 = "\<lparr>w_fs = fs2, w_met = m\<rparr>"
  note C = run_start_config [OF assms(1)]
  from C(4) obtain client where f: "svc_fetcher ?s = S3_Fetch (de_GetObject env client)" by blast
  have "sys_start ?s running \<lparr>sys_world = d_world d, sys_group = g, sys_threads = (\<lambda>_. Idle)\<rparr>"
    using run_start_world(1) [OF assms(1-4)] assms(6) by (simp add: sys_start_def)
  from concurrent_reach [OF assms(5) f this assms(7)] have ok: "cache_ok (svc_cache ?s) (w_fs (sys_world \<sigma>))"
    and ex: "\<And>p e. svc_entries ?s (sys_world \<sigma>) p = Some e \<Longrightarrow>
      explained ?s (s3_stored (de_GetObject env client)) (svc_entries ?s w) p e"
    using run_start_entries [OF assms(1,2)] by simp_all
  have ok2: "cache_ok (svc_cache ?s) fs2" and l: "layout (CacheDir cfg2) fs2"
    using same_files_found_ok [OF assms(8) ok] cache_ok_layout C(2) assms(12) by fastforce+
  obtain d2 w2 where d2: "run_start env2 args2 ?w2 = (Inr d2, w2)" and cfg2: "d_config d2 = cfg2"
    using run_start_again [OF assms(11) _ _ assms(14), of "svc_cache ?s" ?w2] ok2 assms(10,12) C(2) by auto
  note R = run_start_world [OF d2] and E = run_start_entries [OF d2]
  have "svc_cache (d_service d2) = svc_cache ?s"
    using C(2) run_start_config(2) [OF d2] assms(12) cfg2 by (metis cache.equality unit.exhaust)
  moreover have "content_at fs2 p = content_at (w_fs (sys_world \<sigma>)) p" for p
    using assms(8) by (auto simp: content_at_def same_files_found_def split: option.split node.split)
  ultimately have "svc_entries (d_service d2) (d_world d2) = svc_entries ?s (sys_world \<sigma>)"
    using E l cfg2 by (simp add: cache_entry_def fun_eq_iff)
  with R l cfg2 assms(9,10,13) ex d2 show ?thesis by (intro exI conjI) auto
qed

section \<open>Witnesses\<close>

lemma ex_process:
  obtains r m d w1 where "newRegistry ex_prom ''go1.26'' None zero_metrics = (Inr r, m)"
    and "run_start ex_daemon_env ex_daemon_args \<lparr>w_fs = ex_fs0, w_met = m\<rparr> = (Inr d, w1)"
    and "CacheDir (d_config d) = ''/c''"
proof -
  from ex_daemon_config obtain cfg where l: "Load ex_config_env ex_daemon_args = Inr cfg" and d: "CacheDir cfg = ''/c''" by blast
  obtain fs1 where n: "cache_New ''/c'' ex_fs0 = (Inr ex_cache, fs1)" using ex_cache_New by metis
  obtain r m where reg: "newRegistry ex_prom ''go1.26'' None zero_metrics = (Inr r, m)" 
    using newRegistry_registers [OF ex_prom_fresh] by metis
  have "\<exists>d w1. run_start ex_daemon_env ex_daemon_args \<lparr>w_fs = ex_fs0, w_met = m\<rparr> = (Inr d, w1) \<and> d_config d = cfg"
    using l d n by (auto simp: run_start_def Let_def NewS3_def ex_daemon_env_def)
  with reg d that show thesis by blast
qed

lemma ex_joins: "run_start ex_daemon_env args w = (Inr d, w1) \<Longrightarrow> joins_ok (d_service d)"
  by (auto elim!: run_start_Inr simp: joins_ok_def ex_daemon_env_def)

lemma daemon_process_witness:
  "\<exists>lines w. process ex_prom ex_daemon_env ex_daemon_args ex_fs0 (0, lines) w \<and> layout ''/c'' (w_fs w)
     \<and> CacheEntries (w_met w) = entry_count ex_cache (w_fs w)"
proof -
  obtain r m d w1 where p: "newRegistry ex_prom ''go1.26'' None zero_metrics = (Inr r, m)"
    "run_start ex_daemon_env ex_daemon_args \<lparr>w_fs = ex_fs0, w_met = m\<rparr> = (Inr d, w1)" "CacheDir (d_config d) = ''/c''"
    by (rule ex_process)
  have "process ex_prom ex_daemon_env ex_daemon_args ex_fs0 (0, slog_emit (d_level d) (starting_line d) @ []) w1"
    by (rule process_served [where ev = Cancelled, OF _ p(2)]) (simp_all add: p(1) ex_daemon_env_def run_exit_def Server_Run_def)
  moreover from daemon_process [OF ex_prom_fresh this _ _ ex_joins] run_start_config(1) [OF p(2)] p(3)
  have "layout ''/c'' (w_fs w1)" "CacheEntries (w_met w1) = entry_count \<lparr>c_root = ''/c''\<rparr> (w_fs w1)"
    using ex_start_layout ex_env layout_ex by (simp_all add: ex_start_def)
  moreover have "ex_cache = \<lparr>c_root = ''/c''\<rparr>" by (simp add: ex_cache_def)
  ultimately show ?thesis by auto
qed

lemma ex_daemon_aws: "de_aws_config ex_daemon_env r = Inr ()"
  by (simp add: ex_daemon_env_def)

text \<open>Killed with the first request looking up its entry, and started again.\<close>

lemma restart_after_kill_witness:
  "\<exists>\<sigma> d2 w2. sys_threads \<sigma> (0::nat) = ObjThread (ServiceProps.ex_req ''a'') ObjLookup
     \<and> run_start ex_daemon_env ex_daemon_args \<lparr>w_fs = w_fs (sys_world (\<sigma> :: map_group sys)), w_met = zero_metrics\<rparr> = (Inr d2, w2)
     \<and> svc_entries (d_service d2) (d_world d2) = svc_entries (d_service ex_daemon) (sys_world \<sigma>)"
proof -
  let ?start = "\<lparr>sys_world = d_world ex_daemon, sys_group = no_flights, sys_threads = (\<lambda>_. Idle)\<rparr>"
  let ?\<sigma> = "?start\<lparr>sys_threads := (sys_threads ?start)(0 := ObjThread (ServiceProps.ex_req ''a'') ObjLookup)\<rparr>"
  have run: "(sys_step (d_service ex_daemon) map_flights)\<^sup>*\<^sup>* ?start ?\<sigma>"
    using sys_fetch [of ?start 0] by (intro r_into_rtranclp) simp
  note E = run_start_world(2) [OF ex_run_start ex_start_layout(1,3,2)]
  have env: "fault_free (w_fs (d_world ex_daemon))" "rand_ok (w_fs (d_world ex_daemon))"
    using fault_free_env [OF E] rand_ok_env [OF E] ex_env by (simp_all add: ex_start_def)
  from ex_daemon_config obtain cfg where l: "Load (de_config ex_daemon_env) ex_daemon_args = Inr cfg" "CacheDir cfg = ''/c''"
    by (auto simp: ex_daemon_env_def)
  have "same_files_found (w_fs (sys_world ?\<sigma>)) (w_fs (sys_world ?\<sigma>))" by (simp add: same_files_found_def)
  from restart_after_kill [OF ex_run_start ex_start_layout(1,3,2) ex_flights no_flights_running(1) run this _ _ l(1) _
      ex_start_layout(3), of zero_metrics] env l(2)
  obtain d2 w2 where "run_start ex_daemon_env ex_daemon_args \<lparr>w_fs = w_fs (sys_world ?\<sigma>), w_met = zero_metrics\<rparr> = (Inr d2, w2)"
    "svc_entries (d_service d2) (d_world d2) = svc_entries (d_service ex_daemon) (sys_world ?\<sigma>)"
    by (auto simp: ex_daemon_dir ex_daemon_aws)
  moreover have "sys_threads ?\<sigma> 0 = ObjThread (ServiceProps.ex_req ''a'') ObjLookup" by simp
  ultimately show ?thesis by blast
qed

end
