(* ===== verification/Mszip.thy ===== *)
theory Mszip
  imports Cab
begin

text \<open>
  \<open>mszipWriter\<close> of \<open>mszip.go\<close> with its state: one compressor and two buffers that all blocks of a
  cabinet share. The compressor is what it has been fed since its last \<open>Reset\<close>; \<open>flate_lib\<close> says when it
  fails and what it has emitted by its \<open>Close\<close>. The result is that the sharing cannot be seen:
  each block comes out as \<open>mszip_block\<close>, which the cabinet writer of \<open>Cab\<close> uses, makes it.
\<close>

record mszipWriter =
  mz_sink :: bytes     \<comment> \<open>raw output of the compressor for the current block\<close>
  mz_fw :: bytes       \<comment> \<open>what the compressor has been fed since it was reset: its history\<close>
  mz_out :: bytes      \<comment> \<open>the assembled payload\<close>

definition newMszipWriter :: mszipWriter where
  "newMszipWriter = \<lparr>mz_sink = [], mz_fw = [], mz_out = []\<rparr>"

text \<open>The calls on the compressor and on the buffers.\<close>

definition fw_Write :: "flate_lib \<Rightarrow> bytes \<Rightarrow> mszipWriter \<Rightarrow> goerr option \<times> mszipWriter" where
  "fw_Write fl data m = (fl_Write_err fl (mz_fw m @ data), m\<lparr>mz_fw := mz_fw m @ data\<rparr>)"

definition fw_Close :: "flate_lib \<Rightarrow> mszipWriter \<Rightarrow> goerr option \<times> mszipWriter" where
  "fw_Close fl m =
     (case fl_Close fl (mz_fw m) of
        Inl e \<Rightarrow> (Some e, m)
      | Inr deflated \<Rightarrow> (None, m\<lparr>mz_sink := mz_sink m @ deflated\<rparr>))"

definition out_Write :: "bytes \<Rightarrow> mszipWriter \<Rightarrow> mszipWriter" where
  "out_Write b m = m\<lparr>mz_out := mz_out m @ b\<rparr>"

definition mz_writeStored :: "bytes \<Rightarrow> mszipWriter \<Rightarrow> mszipWriter" where
  "mz_writeStored data m =
     out_Write data (out_Write (put_uint16 (word_of_nat (length data)) @ put_uint16 (not (word_of_nat (length data))))
       (out_Write [deflateStoredFinalByte] m))"

definition mz_block :: "flate_lib \<Rightarrow> bytes \<Rightarrow> mszipWriter \<Rightarrow> bytes result \<times> mszipWriter" where
  "mz_block fl data m =
     (let m1 = m\<lparr>mz_sink := []\<rparr>;
          m2 = m1\<lparr>mz_fw := []\<rparr>
      in case fw_Write fl data m2 of
        (Some e, m3) \<Rightarrow> (Inl (Wrap ''deflating block'' e), m3)
      | (None, m3) \<Rightarrow>
        (case fw_Close fl m3 of
           (Some e, m4) \<Rightarrow> (Inl (Wrap ''finishing deflate block'' e), m4)
         | (None, m4) \<Rightarrow>
           (let deflated = mz_sink m4;
                m5 = out_Write mszipSignature (m4\<lparr>mz_out := []\<rparr>);
                m6 = (if length deflated > storedHeaderLen + length data
                      then mz_writeStored data m5 else out_Write deflated m5)
            in (Inr (mz_out m6), m6))))"

text \<open>The blocks of a folder, one after the other through one writer, until one fails.\<close>

fun mz_blocks :: "flate_lib \<Rightarrow> bytes list \<Rightarrow> mszipWriter \<Rightarrow> bytes list result \<times> mszipWriter" where
  "mz_blocks fl [] m = (Inr [], m)"
| "mz_blocks fl (c # cs) m =
     (case mz_block fl c m of
        (Inl e, m1) \<Rightarrow> (Inl e, m1)
      | (Inr p, m1) \<Rightarrow>
        (case mz_blocks fl cs m1 of
           (Inl e, m2) \<Rightarrow> (Inl e, m2)
         | (Inr ps, m2) \<Rightarrow> (Inr (p # ps), m2)))"

lemma mz_block_fresh: "fst (mz_block fl data m) = mszip_block fl data"
  by (simp add: mz_block_def mszip_block_def Let_def fw_Write_def fw_Close_def mz_writeStored_def out_Write_def writeStored_def
    split: option.splits sum.splits)

text \<open>A block never depends on the blocks before it: whatever a writer has been used for, the next block comes out as
  a fresh compressor makes it; so the blocks that pass through the shared writer are each chunk's own.\<close>

lemma mszip_no_history:
  "fst (mz_block fl data m) = fst (mz_block fl data newMszipWriter)
    \<and> fst (mz_block fl data m) = mszip_block fl data
    \<and> (case fst (mz_blocks fl cs m) of
         Inr ps \<Rightarrow> map Inr ps = map (mszip_block fl) cs
       | Inl e \<Rightarrow> \<exists>c \<in> set cs. mszip_block fl c = Inl e)"
proof -
  have "case fst (mz_blocks fl cs m) of Inr ps \<Rightarrow> map Inr ps = map (mszip_block fl) cs
       | Inl e \<Rightarrow> \<exists>c \<in> set cs. mszip_block fl c = Inl e"
  proof (induction cs arbitrary: m)
    case (Cons c cs)
    obtain x m1 where b: "mz_block fl c m = (x, m1)" by fastforce
    obtain y m2 where bs: "mz_blocks fl cs m1 = (y, m2)" by fastforce
    from Cons.IH [of m1] mz_block_fresh [of fl c m] b bs show ?case by (auto split: sum.splits)
  qed simp
  then show ?thesis by (simp add: mz_block_fresh)
qed

end
