(* ===== verification/Sweeping.thy ===== *)
theory Sweeping
  imports Staging CacheProps "HOL-Library.Multiset_Order"
begin

text \<open>
  The sweep of \<open>eviction.go\<close> one call at a time: \<open>filepath.WalkDir\<close> reads each directory when it comes
  to it, a file is examined and then removed, and at the end the directories listed are tried. The
  theory shows that a sweep nobody disturbs is \<open>Evict\<close>, and that every sweep ends, whatever happens to the
  cache between its calls.
\<close>

section \<open>Directories\<close>

text \<open>
  \<open>os.ReadDir\<close>: the entries by name, each with whether it was a directory at that time. \<open>WalkDir\<close> visits
  an entry by this mark, not by what is there when it comes to it.
\<close>

definition children :: "osfs \<Rightarrow> path \<Rightarrow> path list" where
  "children fs q = sort (filter (\<lambda>p. p \<noteq> [] \<and> butlast p = q) (map fst (fs_nodes fs)))"

definition dir_entries :: "osfs \<Rightarrow> path \<Rightarrow> (path \<times> bool) list" where
  "dir_entries fs q = map (\<lambda>p. (p, node_at fs p = Some DirNode)) (children fs q)"

definition os_ReadDir :: "osfs \<Rightarrow> string \<Rightarrow> (path \<times> bool) list result \<times> osfs" where
  "os_ReadDir fs p = syscall fs (\<lambda>fs.
     if node_at fs (segs p) = Some DirNode then (Inr (dir_entries fs (segs p)), fs) else (Inl ErrNotExist, fs))"

section \<open>Program points\<close>

text \<open>
  Of \<open>Evict\<close> with \<open>walkFiles\<close> and \<open>pruneEmptyDirs\<close>: the cutoff, what \<open>WalkDir\<close> has still to visit, and the
  counters. \<open>SwRemove\<close> is between the examination of a stale file and its removal.
\<close>

datatype sweep_pc =
    SwStart
  | SwWalk int "(path \<times> bool) list" sweep
  | SwRemove int path fileinfo "(path \<times> bool) list" sweep
  | SwPrune "string list" sweep
  | SwDone "int \<times> goerr option"

definition no_sweep :: sweep where
  "no_sweep = \<lparr>removed = 0, removedEntries = 0, removedBytes = 0, dirs = []\<rparr>"

definition sweep_removed :: "bool \<Rightarrow> fileinfo \<Rightarrow> sweep \<Rightarrow> sweep" where
  "sweep_removed inTmp info st =
     (let st1 = st\<lparr>removed := removed st + 1\<rparr> in
      if inTmp then st1
      else st1\<lparr>removedEntries := removedEntries st1 + 1, removedBytes := removedBytes st1 + fi_Size info\<rparr>)"

fun sweep_step :: "cache \<Rightarrow> int \<Rightarrow> sweep_pc \<Rightarrow> world \<Rightarrow> (sweep_pc \<times> world) option" where
  "sweep_step c maxUnused SwStart w =
     Some (case on_fs (\<lambda>fs. os_Stat fs (c_root c)) w of
        (Inl e, w1) \<Rightarrow> (SwDone (0, Some (Wrap ''walking cache dir'' e)), w1)
      | (Inr _, w1) \<Rightarrow> (SwWalk (time_Now (w_fs w) - maxUnused) [(segs (c_root c), True)] no_sweep, w1))"
| "sweep_step c maxUnused (SwWalk cutoff [] st) w = Some (SwPrune (sort_func longer_first (dirs st)) st, w)"
| "sweep_step c maxUnused (SwWalk cutoff ((q, isDir) # todo) st) w =
     (let path = walk_path (c_root c) q; tmpDir = filepath_Join (c_root c) tmpSubdir in
      Some (if isDir then
        (let st1 = (if path \<noteq> c_root c \<and> path \<noteq> tmpDir then evict_dir path st else st) in
         case on_fs (\<lambda>fs. os_ReadDir fs path) w of
           (Inl e, w1) \<Rightarrow> (SwDone (removed st1, Some (Wrap ''walking cache dir'' e)), w1)
         | (Inr es, w1) \<Rightarrow> (SwWalk cutoff (es @ todo) st1, w1))
      else
        (case on_fs (\<lambda>fs. os_Stat fs path) w of
           (Inl _, w1) \<Rightarrow> (SwWalk cutoff todo st, w1)
         | (Inr info, w1) \<Rightarrow>
             (if \<not> fi_ModTime info < cutoff then SwWalk cutoff todo st else SwRemove cutoff q info todo st, w1))))"
| "sweep_step c maxUnused (SwRemove cutoff q info todo st) w =
     (let path = walk_path (c_root c) q; tmpDir = filepath_Join (c_root c) tmpSubdir in
      Some (case on_fs (\<lambda>fs. os_Remove fs path) w of
        (Inl _, w1) \<Rightarrow> (SwWalk cutoff todo st, w1)
      | (Inr _, w1) \<Rightarrow> (SwWalk cutoff todo (sweep_removed (filepath_Dir path = tmpDir) info st), w1)))"
| "sweep_step c maxUnused (SwPrune (d # ds) st) w = Some (SwPrune ds st, snd (on_fs (\<lambda>fs. os_Remove fs d) w))"
| "sweep_step c maxUnused (SwPrune [] st) w =
     Some (SwDone (removed st, None), on_met (met_evicted (removedBytes st) (removedEntries st) (time_Now (w_fs w))) w)"
| "sweep_step c maxUnused (SwDone r) w = None"

text \<open>Only a sweep that is over has no next call.\<close>

lemma sweep_step_next:
  assumes "\<And>r. p \<noteq> SwDone r"
  obtains p' w' where "sweep_step c maxUnused p w = Some (p', w')"
proof -
  have "sweep_step c maxUnused p w \<noteq> None"
    using assms by (cases "(c, maxUnused, p, w)" rule: sweep_step.cases) (simp_all add: Let_def)
  then show thesis using that by fastforce
qed

text \<open>A sweep with nothing in between.\<close>

definition sweeps :: "cache \<Rightarrow> int \<Rightarrow> sweep_pc \<times> world \<Rightarrow> sweep_pc \<times> world \<Rightarrow> bool" where
  "sweeps c maxUnused x y \<longleftrightarrow> sweep_step c maxUnused (fst x) (snd x) = Some y"

section \<open>The order of a walk\<close>

text \<open>Paths in the order of their segments: a directory comes before what is below it.\<close>

lemma path_less_append: "q @ a # u < q @ b # v \<longleftrightarrow> a < b \<or> (a = b \<and> u < v)" for a b :: "'a :: order"
  by (induction q) simp_all

lemma path_le_append: "q \<le> q @ u" for q :: "'a :: order list"
  by (induction q) simp_all

lemma sorted_concat:
  assumes "sorted_wrt R xs" and "\<And>x. x \<in> set xs \<Longrightarrow> sorted (f x)"
    and "\<And>x y u v. R x y \<Longrightarrow> x \<in> set xs \<Longrightarrow> y \<in> set xs \<Longrightarrow> u \<in> set (f x) \<Longrightarrow> v \<in> set (f y) \<Longrightarrow> u \<le> v"
  shows "sorted (concat (map f xs))"
  using assms by (induction xs) (auto simp: sorted_append)

lemma distinct_concat_map:
  assumes "distinct xs" and "\<And>x. x \<in> set xs \<Longrightarrow> distinct (f x)"
    and "\<And>x y. x \<in> set xs \<Longrightarrow> y \<in> set xs \<Longrightarrow> x \<noteq> y \<Longrightarrow> set (f x) \<inter> set (f y) = {}"
  shows "distinct (concat (map f xs))"
  using assms by (induction xs) fastforce+

lemma sorted_walk_order: "sorted (walk_order fs q)"
  by (simp add: walk_order_def)

lemma set_children: "set (children fs q) = {q @ [a] |a. node_at fs (q @ [a]) \<noteq> None}"
proof -
  have "set (map fst (fs_nodes fs)) = {q. node_at fs q \<noteq> None}" by (auto simp: map_of_eq_None_iff)
  moreover have "p \<noteq> [] \<and> butlast p = q \<longleftrightarrow> (\<exists>a. p = q @ [a])" for p by (metis append_butlast_last_id snoc_eq_iff_butlast)
  ultimately show ?thesis by (auto simp: children_def)
qed

lemma walk_order_unfold:
  assumes "fs_ok fs" and "node_at fs q = Some DirNode"
  shows "walk_order fs q = q # concat (map (walk_order fs) (children fs q))"
proof (rule sorted_distinct_set_unique)
  let ?cs = "children fs q"
  note W = set_walk_order [OF assms(1)]
  have in_tree: "\<exists>a x. p = q @ [a] \<and> u = q @ a # x" if "u \<in> set (walk_order fs p)" "p \<in> set ?cs" for u p
    using that by (auto simp: W set_children prefix_def)
  have cs: "sorted_wrt (<) ?cs" "distinct ?cs" using fs_okD(1) [OF assms(1)] by (simp_all add: children_def strict_sorted_iff)
  show "sorted (walk_order fs q)" by (rule sorted_walk_order)
  show "distinct (walk_order fs q)" by (rule W)
  have "sorted (concat (map (walk_order fs) ?cs))"
  proof (rule sorted_concat [OF cs(1) sorted_walk_order])
    fix x y u v assume "x < y" and "u \<in> set (walk_order fs x)" "v \<in> set (walk_order fs y)" "x \<in> set ?cs" "y \<in> set ?cs"
    with in_tree [of u x] in_tree [of v y] obtain a b t r where
      "x = q @ [a]" "y = q @ [b]" "u = q @ a # t" "v = q @ b # r" by blast
    with \<open>x < y\<close> show "u \<le> v" using path_less_append [of q a t b r] path_less_append [of q a "[]" b "[]"] by simp
  qed
  moreover have "q \<le> u" if "u \<in> set (concat (map (walk_order fs) ?cs))" for u
    using that in_tree path_le_append by fastforce
  ultimately show "sorted (q # concat (map (walk_order fs) ?cs))" by simp
  have "set (walk_order fs x) \<inter> set (walk_order fs y) = {}" if "x \<in> set ?cs" "y \<in> set ?cs" "x \<noteq> y" for x y
    using that by (fastforce dest: in_tree)
  then have "distinct (concat (map (walk_order fs) ?cs))" by (intro distinct_concat_map cs W(2))
  moreover have "q \<notin> set (concat (map (walk_order fs) ?cs))" using in_tree by fastforce
  ultimately show "distinct (q # concat (map (walk_order fs) ?cs))" by simp
  show "set (walk_order fs q) = set (q # concat (map (walk_order fs) ?cs))" (is "?l = ?r")
  proof (intro equalityI subsetI)
    fix u assume "u \<in> ?l"
    then obtain x where u: "u = q @ x" "node_at fs u \<noteq> None" by (auto simp: W prefix_def)
    show "u \<in> ?r"
    proof (cases x)
      case (Cons a t)
      have "node_at fs (q @ [a]) \<noteq> None"
        using ancestor_is_dir [OF assms(1), of u _ "q @ [a]"] u Cons by (cases t) (auto simp: strict_prefix_def)
      with u Cons have "q @ [a] \<in> set ?cs" "u \<in> set (walk_order fs (q @ [a]))" by (auto simp: W set_children)
      then show ?thesis by auto
    qed (use u in simp)
  qed (use assms(2) in \<open>auto simp: W set_children prefix_def\<close>)
qed

lemma walk_order_file:
  assumes "fs_ok fs" and "node_at fs q = Some (FileNode i)"
  shows "walk_order fs q = [q]"
proof -
  note W = set_walk_order [OF assms(1), of q]
  have "u = q" if "prefix q u" "node_at fs u \<noteq> None" for u
    using ancestor_is_dir [OF assms(1), of u _ q] that assms(2) by (auto simp: strict_prefix_def)
  with W(1) assms(2) have "set (walk_order fs q) = {q}" by auto
  with W(2) show ?thesis by (cases "walk_order fs q"; cases "tl (walk_order fs q)") auto
qed

section \<open>A sweep alone\<close>

text \<open>What is left of a walk, as the list the model of \<open>walkFiles\<close> makes at its start.\<close>

definition to_visit :: "osfs \<Rightarrow> (path \<times> bool) list \<Rightarrow> path list" where
  "to_visit fs todo = concat (map (\<lambda>(q, isDir). if isDir then walk_order fs q else [q]) todo)"

definition waiting :: "cache \<Rightarrow> osfs \<Rightarrow> path \<times> bool \<Rightarrow> bool" where
  "waiting c fs x \<longleftrightarrow> prefix (croot c) (fst x) \<and> (\<exists>n. node_at fs (fst x) = Some n \<and> snd x = (n = DirNode))"

lemma to_visit_simps [simp]:
  "to_visit fs [] = []" "to_visit fs ((q, False) # todo) = q # to_visit fs todo"
  by (simp_all add: to_visit_def)

lemma to_visit_tick: "to_visit (os_tick fs) todo = to_visit fs todo"
proof -
  have "walk_order (os_tick fs) = walk_order fs" by (simp add: walk_order_def fun_eq_iff)
  then show ?thesis unfolding to_visit_def by (rule arg_cong)
qed

lemma to_visit_dir:
  assumes "fs_ok fs" and "node_at fs q = Some DirNode"
  shows "to_visit fs ((q, True) # todo) = q # to_visit fs (dir_entries fs q @ todo)"
proof -
  have "(if node_at fs p = Some DirNode then walk_order fs p else [p]) = walk_order fs p" if "p \<in> set (children fs q)" for p
    using that walk_order_file [OF assms(1), of p] by (auto simp: set_children split: node.splits) (metis node.exhaust)
  then have "to_visit fs (dir_entries fs q) = concat (map (walk_order fs) (children fs q))"
    by (simp add: to_visit_def dir_entries_def comp_def cong: map_cong)
  with walk_order_unfold [OF assms] show ?thesis by (simp add: to_visit_def)
qed

lemma waiting_entries:
  assumes "prefix (croot c) q" and "x \<in> set (dir_entries fs q)"
  shows "waiting c fs x"
  using assms by (auto simp: waiting_def dir_entries_def set_children)

lemma walk_order_cong:
  assumes "fs_ok fs" and "fs_ok fs'" and "\<And>p. prefix q p \<Longrightarrow> (node_at fs' p = None) = (node_at fs p = None)"
  shows "walk_order fs' q = walk_order fs q"
proof (rule sorted_distinct_set_unique)
  show "set (walk_order fs' q) = set (walk_order fs q)"
    unfolding set_walk_order(1) [OF assms(1)] set_walk_order(1) [OF assms(2)] by (rule Collect_cong) (metis assms(3))
qed (simp_all add: sorted_walk_order set_walk_order(2) assms)

text \<open>Nothing that is still to be visited changes when a file that was visited goes.\<close>

lemma to_visit_removed:
  assumes "fs_ok fs" and "fs_ok fs'" and "\<And>p. p \<noteq> q \<Longrightarrow> node_at fs' p = node_at fs p"
    and "node_at fs q \<noteq> None" and "q \<notin> set (to_visit fs todo)" and "\<And>x. x \<in> set todo \<Longrightarrow> waiting c fs x"
  shows "to_visit fs' todo = to_visit fs todo \<and> (\<forall>x \<in> set todo. waiting c fs' x)"
proof -
  have one: "q \<noteq> fst x \<and> (snd x \<longrightarrow> walk_order fs' (fst x) = walk_order fs (fst x))" if x: "x \<in> set todo" for x
  proof -
    have n: "q \<notin> set (if snd x then walk_order fs (fst x) else [fst x])"
      using assms(5) x by (auto simp: to_visit_def case_prod_beta)
    have "walk_order fs' (fst x) = walk_order fs (fst x)" if "snd x"
    proof (rule walk_order_cong [OF assms(1,2)])
      fix p assume "prefix (fst x) p"
      with n that assms(3) [of p] show "(node_at fs' p = None) = (node_at fs p = None)"
        using assms(4) by (cases "p = q") (auto simp: set_walk_order(1) [OF assms(1)])
    qed
    moreover have "q \<noteq> fst x" using n assms(6) [OF x] set_walk_order(1) [OF assms(1)] by (auto simp: waiting_def split: if_splits)
    ultimately show ?thesis by blast
  qed
  then have "to_visit fs' todo = to_visit fs todo"
    unfolding to_visit_def by (intro arg_cong [where f = concat] map_cong) auto
  moreover have "waiting c fs' x" if "x \<in> set todo" for x
    using assms(6) [OF that] one [OF that] assms(3) [of "fst x"] by (auto simp: waiting_def)
  ultimately show ?thesis by blast
qed

text \<open>One file: examined, and removed when stale.\<close>

lemma sweeps_file:
  assumes "cache_ok c (w_fs w)" and q: "q = croot c @ r" and n: "node_at (w_fs w) q = Some (FileNode i)"
  obtains st1 fs1 where "(sweeps c maxUnused)\<^sup>*\<^sup>* (SwWalk cutoff ((q, False) # todo) st, w) (SwWalk cutoff todo st1, w\<lparr>w_fs := fs1\<rparr>)"
    and "walk_list c (evict_file cutoff) evict_dir (q # qs) (st, w_fs w) = walk_list c (evict_file cutoff) evict_dir qs (st1, fs1)"
    and "cache_ok c fs1" and "\<And>p. p \<noteq> q \<Longrightarrow> node_at fs1 p = node_at (w_fs w) p"
proof -
  note root = cache_okD(1) [OF assms(1)]
  have ok: "list_all seg_ok r" "r \<noteq> []" using cache_okD(4) [OF assms(1)] n q by (fastforce simp: fits_def)+
  have path: "walk_path (c_root c) q = abspath q" by (simp add: q walk_path_eq [OF root ok(1)])
  have inTmp: "filepath_Dir (abspath q) = filepath_Join (c_root c) tmpSubdir \<longleftrightarrow> butlast q = tmp_path c"
    using in_tmp_iff [OF root ok] by (simp add: tmp_dir_eq [OF root] q)
  obtain y fs1 where st: "os_Stat (w_fs w) (abspath q) = (y, fs1)" by fastforce
  note same = read_only_calls(1) [OF st]
  note walk = walk_list_file [OF assms(1) n [unfolded q], of "evict_file cutoff" evict_dir qs st, folded q, unfolded st]
  note stat = sweep_step.simps(3) [of c maxUnused cutoff q False todo st w]
  show thesis
  proof (cases y)
    case (Inl e)
    have "sweeps c maxUnused (SwWalk cutoff ((q, False) # todo) st, w) (SwWalk cutoff todo st, w\<lparr>w_fs := fs1\<rparr>)"
      using st Inl by (simp add: sweeps_def path on_fs_def Let_def)
    with walk Inl same_store_cache_ok [OF same] assms(1) same_storeD(1) [OF same] show thesis by (intro that [of st fs1]) auto
  next
    case (Inr info)
    obtain st1 fs2 where ev: "evict_file cutoff (abspath q) info (butlast q = tmp_path c) (st, fs1) = (st1, fs2)" by fastforce
    have run: "(sweeps c maxUnused)\<^sup>*\<^sup>* (SwWalk cutoff ((q, False) # todo) st, w) (SwWalk cutoff todo st1, w\<lparr>w_fs := fs2\<rparr>)"
    proof (cases "fi_ModTime info < cutoff")
      case False
      then have "sweeps c maxUnused (SwWalk cutoff ((q, False) # todo) st, w) (SwWalk cutoff todo st1, w\<lparr>w_fs := fs2\<rparr>)"
        using st Inr ev by (simp add: sweeps_def path on_fs_def Let_def evict_file_def)
      then show ?thesis by simp
    next
      case True
      then have "sweeps c maxUnused (SwWalk cutoff ((q, False) # todo) st, w) (SwRemove cutoff q info todo st, w\<lparr>w_fs := fs1\<rparr>)"
        using st Inr by (simp add: sweeps_def path on_fs_def Let_def)
      moreover have "sweeps c maxUnused (SwRemove cutoff q info todo st, w\<lparr>w_fs := fs1\<rparr>) (SwWalk cutoff todo st1, w\<lparr>w_fs := fs2\<rparr>)"
        using True ev by (auto simp: sweeps_def path on_fs_def Let_def evict_file_def inTmp sweep_removed_def split: prod.splits sum.splits)
      ultimately show ?thesis by (meson converse_rtranclp_into_rtranclp r_into_rtranclp)
    qed
    from evict_file_swept [OF assms(1) n q st [unfolded Inr] ev] obtain R where R: "swept c cutoff [q] R (w_fs w) fs2 st st1" by blast
    with run walk Inr ev sweptD(1,3,5) [OF R] show thesis by (intro that [of st1 fs2]) auto
  qed
qed

lemma sweeps_walk:
  assumes "cache_ok c (w_fs w)" and "distinct (to_visit (w_fs w) todo)" and "\<And>x. x \<in> set todo \<Longrightarrow> waiting c (w_fs w) x"
    and "walk_list c (evict_file cutoff) evict_dir (to_visit (w_fs w) todo) (st, w_fs w) = (e, st2, fs2)"
  shows "(sweeps c maxUnused)\<^sup>*\<^sup>* (SwWalk cutoff todo st, w)
    (case e of None \<Rightarrow> SwWalk cutoff [] st2 | Some e \<Rightarrow> SwDone (removed st2, Some (Wrap ''walking cache dir'' e)), w\<lparr>w_fs := fs2\<rparr>)"
  using assms
proof (induction "length (to_visit (w_fs w) todo)" arbitrary: todo st w rule: less_induct)
  case less
  note ok = cache_okD(1,2) [OF less.prems(1)]
  show ?case
  proof (cases todo)
    case Nil
    with less.prems(4) have "fs2 = w_fs w" "e = None" "st2 = st" by simp_all
    with Nil show ?thesis by simp
  next
    case (Cons x todo')
    obtain q d where x: "x = (q, d)" by fastforce
    from less.prems(3) [of x] Cons x obtain r n where q: "q = croot c @ r" and n: "node_at (w_fs w) q = Some n" "d = (n = DirNode)"
      by (auto simp: waiting_def prefix_def)
    show ?thesis
    proof (cases n)
      case (FileNode i)
      let ?qs = "to_visit (w_fs w) todo'"
      have tv: "to_visit (w_fs w) todo = q # ?qs" using Cons x n FileNode by simp
      from sweeps_file [OF less.prems(1) q, of i maxUnused cutoff todo' st ?qs] n FileNode obtain st1 fs1 where
        run: "(sweeps c maxUnused)\<^sup>*\<^sup>* (SwWalk cutoff todo st, w) (SwWalk cutoff todo' st1, w\<lparr>w_fs := fs1\<rparr>)"
        and wl: "walk_list c (evict_file cutoff) evict_dir (q # ?qs) (st, w_fs w) = walk_list c (evict_file cutoff) evict_dir ?qs (st1, fs1)"
        and ok1: "cache_ok c fs1" and same: "\<And>p. p \<noteq> q \<Longrightarrow> node_at fs1 p = node_at (w_fs w) p"
        using Cons x by auto
      have "to_visit fs1 todo' = ?qs \<and> (\<forall>x \<in> set todo'. waiting c fs1 x)"
        by (rule to_visit_removed [OF ok(2) cache_okD(2) [OF ok1] same]) (use n less.prems(2,3) tv Cons in auto)
      with less.hyps [of "w\<lparr>w_fs := fs1\<rparr>" todo' st1] ok1 less.prems(2,4) tv wl have
        "(sweeps c maxUnused)\<^sup>*\<^sup>* (SwWalk cutoff todo' st1, w\<lparr>w_fs := fs1\<rparr>)
          (case e of None \<Rightarrow> SwWalk cutoff [] st2 | Some e \<Rightarrow> SwDone (removed st2, Some (Wrap ''walking cache dir'' e)), w\<lparr>w_fs := fs2\<rparr>)"
        by simp
      with run show ?thesis by (rule rtranclp_trans)
    next
      case DirNode
      note ok_r = cache_okD(4) [OF less.prems(1)]
      have seg: "list_all seg_ok r" using ok_r n DirNode q by (fastforce simp: fits_def)
      have path: "walk_path (c_root c) q = abspath q" "segs (abspath q) = q"
        using seg ok(1) by (simp_all add: q walk_path_eq root_ok_def)
      define st1 where
        "st1 = (if abspath q \<noteq> c_root c \<and> abspath q \<noteq> filepath_Join (c_root c) tmpSubdir then evict_dir (abspath q) st else st)"
      note tv = to_visit_dir [OF ok(2) n(1) [unfolded DirNode], of todo']
      let ?todo = "dir_entries (w_fs w) q @ todo'"
      have tv': "to_visit (w_fs w) todo = q # to_visit (w_fs w) ?todo" using tv Cons x n DirNode by simp
      have wl: "walk_list c (evict_file cutoff) evict_dir (to_visit (w_fs w) todo) (st, w_fs w) =
          (case syscall (w_fs w) (\<lambda>fs. (Inr (), fs)) of
             (Inl e, fs1) \<Rightarrow> (Some e, st1, fs1)
           | (Inr _, fs1) \<Rightarrow> walk_list c (evict_file cutoff) evict_dir (to_visit (w_fs w) ?todo) (st1, fs1))"
        using n DirNode unfolding tv' walk_list.simps(2) Let_def path st1_def by simp
      have rd: "os_ReadDir (w_fs w) (abspath q) = (case fs_fault (w_fs w) (fs_ops (w_fs w)) of
          Some _ \<Rightarrow> (Inl (EnvError ''os''), os_tick (w_fs w)) | None \<Rightarrow> (Inr (dir_entries (w_fs w) q), os_tick (w_fs w)))"
        using n DirNode by (simp add: os_ReadDir_def syscall_def path(2) dir_entries_def children_def split: option.split)
      have step: "sweeps c maxUnused (SwWalk cutoff todo st, w)
          (case fs_fault (w_fs w) (fs_ops (w_fs w)) of
             Some _ \<Rightarrow> (SwDone (removed st1, Some (Wrap ''walking cache dir'' (EnvError ''os''))), w\<lparr>w_fs := os_tick (w_fs w)\<rparr>)
           | None \<Rightarrow> (SwWalk cutoff ?todo st1, w\<lparr>w_fs := os_tick (w_fs w)\<rparr>))"
        using n DirNode Cons x rd by (simp add: sweeps_def path(1) Let_def on_fs_def st1_def split: option.split)
      show ?thesis
      proof (cases "fs_fault (w_fs w) (fs_ops (w_fs w))")
        case (Some k)
        with wl less.prems(4) have "e = Some (EnvError ''os'')" "st2 = st1" "fs2 = os_tick (w_fs w)" by (auto simp: syscall_def)
        with step Some show ?thesis by simp
      next
        case None
        let ?w = "w\<lparr>w_fs := os_tick (w_fs w)\<rparr>"
        have tick: "to_visit (os_tick (w_fs w)) ?todo = to_visit (w_fs w) ?todo" "waiting c (os_tick (w_fs w)) = waiting c (w_fs w)"
          by (rule to_visit_tick) (simp add: waiting_def fun_eq_iff)
        have "waiting c (w_fs w) y" if "y \<in> set ?todo" for y
          using that less.prems(3) [of y] Cons waiting_entries [of c q y "w_fs w"] q by auto
        moreover have "cache_ok c (os_tick (w_fs w))"
          using less.prems(1) same_store_cache_ok [of "w_fs w" "os_tick (w_fs w)"] by simp
        ultimately have "(sweeps c maxUnused)\<^sup>*\<^sup>* (SwWalk cutoff ?todo st1, ?w)
          (case e of None \<Rightarrow> SwWalk cutoff [] st2 | Some e \<Rightarrow> SwDone (removed st2, Some (Wrap ''walking cache dir'' e)), ?w\<lparr>w_fs := fs2\<rparr>)"
          using less.hyps [of ?w ?todo st1] tick tv' less.prems(2,4) wl None
          by (simp add: syscall_def)
        with step None show ?thesis by (simp add: converse_rtranclp_into_rtranclp)
      qed
    qed
  qed
qed

lemma sweeps_prune:
  "(sweeps c maxUnused)\<^sup>*\<^sup>* (SwPrune ds st, w) (SwPrune [] st, w\<lparr>w_fs := fold (\<lambda>d fs. snd (os_Remove fs d)) ds (w_fs w)\<rparr>)"
proof (induction ds arbitrary: w)
  case (Cons d ds)
  have "sweeps c maxUnused (SwPrune (d # ds) st, w) (SwPrune ds st, w\<lparr>w_fs := snd (os_Remove (w_fs w) d)\<rparr>)"
    by (simp add: sweeps_def on_fs_def split: prod.split)
  with Cons.IH [of "w\<lparr>w_fs := snd (os_Remove (w_fs w) d)\<rparr>"] show ?case by (simp add: converse_rtranclp_into_rtranclp)
qed simp

text \<open>C24: the sweep cut at its calls is the sweep: when nothing comes between them it ends with the result and in the
  world of \<open>Evict\<close>, whatever calls fail.\<close>

theorem sweep_alone:
  assumes "cache_ok c (w_fs w)"
  shows "(sweeps c maxUnused)\<^sup>*\<^sup>* (SwStart, w) (SwDone (fst (Evict c maxUnused w)), snd (Evict c maxUnused w))"
proof -
  let ?cutoff = "time_Now (w_fs w) - maxUnused"
  obtain x fs1 where st: "os_Stat (w_fs w) (c_root c) = (x, fs1)" by fastforce
  show ?thesis
  proof (cases x)
    case (Inl e)
    with st have "sweeps c maxUnused (SwStart, w) (SwDone (fst (Evict c maxUnused w)), snd (Evict c maxUnused w))"
      by (simp add: sweeps_def on_fs_def Evict_def walkFiles_def Let_def)
    then show ?thesis by simp
  next
    case (Inr info)
    note same = read_only_calls(1) [OF st]
    have ok: "cache_ok c fs1" using assms same_store_cache_ok [OF same] by simp
    obtain e st2 fs2 where wl: "walk_list c (evict_file ?cutoff) evict_dir (walk_order fs1 (croot c)) (no_sweep, fs1) = (e, st2, fs2)"
      by (metis prod.collapse)
    have start: "sweeps c maxUnused (SwStart, w) (SwWalk ?cutoff [(croot c, True)] no_sweep, w\<lparr>w_fs := fs1\<rparr>)"
      using st Inr by (simp add: sweeps_def on_fs_def)
    have "to_visit fs1 [(croot c, True)] = walk_order fs1 (croot c)" by (simp add: to_visit_def)
    moreover have "waiting c fs1 (croot c, True)"
      using cache_ok_root_dir [OF ok, of "croot c"] by (simp add: waiting_def tmp_path_def)
    ultimately have "(sweeps c maxUnused)\<^sup>*\<^sup>* (SwWalk ?cutoff [(croot c, True)] no_sweep, w\<lparr>w_fs := fs1\<rparr>)
      (case e of None \<Rightarrow> SwWalk ?cutoff [] st2 | Some e \<Rightarrow> SwDone (removed st2, Some (Wrap ''walking cache dir'' e)), w\<lparr>w_fs := fs2\<rparr>)"
      using sweeps_walk [of c "w\<lparr>w_fs := fs1\<rparr>" "[(croot c, True)]" ?cutoff no_sweep e st2 fs2 maxUnused] ok wl
        set_walk_order(2) [OF cache_okD(2) [OF ok]] by simp
    with start have run: "(sweeps c maxUnused)\<^sup>*\<^sup>* (SwStart, w)
      (case e of None \<Rightarrow> SwWalk ?cutoff [] st2 | Some e \<Rightarrow> SwDone (removed st2, Some (Wrap ''walking cache dir'' e)), w\<lparr>w_fs := fs2\<rparr>)"
      by (rule converse_rtranclp_into_rtranclp)
    show ?thesis
    proof (cases e)
      case (Some e')
      with run st Inr wl show ?thesis by (simp add: Evict_def walkFiles_def Let_def no_sweep_def)
    next
      case None
      let ?w3 = "w\<lparr>w_fs := pruneEmptyDirs (dirs st2) fs2\<rparr>"
      have "sweeps c maxUnused (SwWalk ?cutoff [] st2, w\<lparr>w_fs := fs2\<rparr>) (SwPrune (sort_func longer_first (dirs st2)) st2, w\<lparr>w_fs := fs2\<rparr>)"
        by (simp add: sweeps_def)
      with run None have "(sweeps c maxUnused)\<^sup>*\<^sup>* (SwStart, w) (SwPrune (sort_func longer_first (dirs st2)) st2, w\<lparr>w_fs := fs2\<rparr>)"
        by simp
      also note sweeps_prune [of c maxUnused "sort_func longer_first (dirs st2)" st2 "w\<lparr>w_fs := fs2\<rparr>"]
      finally have "(sweeps c maxUnused)\<^sup>*\<^sup>* (SwStart, w) (SwPrune [] st2, ?w3)" by (simp add: pruneEmptyDirs_def)
      moreover have "sweeps c maxUnused (SwPrune [] st2, ?w3) (SwDone (fst (Evict c maxUnused w)), snd (Evict c maxUnused w))"
        using None st Inr wl by (simp add: sweeps_def Evict_def walkFiles_def Let_def no_sweep_def on_met_def)
      ultimately show ?thesis by simp
    qed
  qed
qed

section \<open>A sweep among others\<close>

text \<open>What the walk holds on to may be gone when it comes to it, but it lies where entries and directories lie.\<close>

definition visitable :: "cache \<Rightarrow> path \<times> bool \<Rightarrow> bool" where
  "visitable c x \<longleftrightarrow> (\<exists>r. fst x = croot c @ r \<and> (if snd x then fits r DirNode else \<exists>i. fits r (FileNode i)))"

definition shard_name :: "cache \<Rightarrow> string \<Rightarrow> bool" where
  "shard_name c d \<longleftrightarrow> (\<exists>r. d = abspath (croot c @ r) \<and> fits r DirNode \<and> r \<noteq> [] \<and> r \<noteq> [tmpSubdir])"

fun sweep_ok :: "cache \<Rightarrow> sweep_pc \<Rightarrow> bool" where
  "sweep_ok c (SwWalk cutoff todo st) \<longleftrightarrow> list_all (visitable c) todo \<and> list_all (shard_name c) (dirs st)"
| "sweep_ok c (SwRemove cutoff q info todo st) \<longleftrightarrow>
     visitable c (q, False) \<and> list_all (visitable c) todo \<and> list_all (shard_name c) (dirs st)"
| "sweep_ok c (SwPrune ds st) \<longleftrightarrow> list_all (shard_name c) ds"
| "sweep_ok c _ \<longleftrightarrow> True"

lemma visitable_path:
  assumes "visitable c (q, d)" and "root_ok c"
  shows "list_all seg_ok q" and "segs (abspath q) = q" and "walk_path (c_root c) q = abspath q"
    and "length q \<le> length (croot c) + 4" and "prefix (croot c) q" and "\<not> d \<Longrightarrow> q \<noteq> croot c \<and> q \<noteq> tmp_path c"
proof -
  from assms(1) obtain r n where r: "q = croot c @ r" "fits r n" "\<not> d \<longrightarrow> (\<exists>i. n = FileNode i)"
    by (auto simp: visitable_def split: if_splits)
  then have ok: "list_all seg_ok r" "length r \<le> 4" by (auto simp: fits_def split: node.splits)
  then show q: "list_all seg_ok q" using assms(2) by (simp add: r(1) root_ok_def)
  then show "segs (abspath q) = q" by simp
  show "walk_path (c_root c) q = abspath q" by (simp add: r(1) walk_path_eq [OF assms(2) ok(1)])
  show "length q \<le> length (croot c) + 4" "prefix (croot c) q" using ok(2) by (simp_all add: r(1))
  show "q \<noteq> croot c \<and> q \<noteq> tmp_path c" if "\<not> d" using r that by (auto simp: fits_def tmp_path_def)
qed

lemma visitable_entries:
  assumes "cache_ok c fs" and "prefix (croot c) q" and "x \<in> set (dir_entries fs q)"
  shows "visitable c x" and "length (fst x) = Suc (length q)"
proof -
  from assms(2,3) obtain r a n where x: "fst x = croot c @ r @ [a]" "q = croot c @ r" "node_at fs (croot c @ r @ [a]) = Some n"
    "snd x = (n = DirNode)" by (auto simp: dir_entries_def set_children prefix_def)
  with cache_okD(4) [OF assms(1) x(3)] show "visitable c x" by (cases n) (auto simp: visitable_def)
  show "length (fst x) = Suc (length q)" using x by simp
qed

lemma os_ReadDir_entries:
  assumes "os_ReadDir fs (abspath q) = (Inr es, fs1)" and "segs (abspath q) = q"
  shows "es = dir_entries fs q" and "same_store fs fs1"
  using assms by (auto simp: os_ReadDir_def dir_entries_def children_def elim!: syscall_cases split: if_splits)

text \<open>The work a sweep has before it, as a multiset: a directory weighs more than all there may be in it.\<close>

definition depth_left :: "cache \<Rightarrow> path \<times> bool \<Rightarrow> nat" where
  "depth_left c x = length (croot c) + 6 - length (fst x)"

fun sweep_work :: "cache \<Rightarrow> sweep_pc \<Rightarrow> nat multiset" where
  "sweep_work c SwStart = {#7#}"
| "sweep_work c (SwWalk cutoff todo st) = mset (map (depth_left c) todo) + mset (map (\<lambda>_. 1) (dirs st)) + {#0, 0#}"
| "sweep_work c (SwRemove cutoff q info todo st) =
     mset (map (depth_left c) todo) + mset (map (\<lambda>_. 1) (dirs st)) + {#1, 0, 0#}"
| "sweep_work c (SwPrune ds st) = mset (map (\<lambda>_. 1) ds) + {#0#}"
| "sweep_work c (SwDone r) = {#}"

lemma multiset_less_replace:
  assumes "\<And>x. x \<in># K \<Longrightarrow> x < k"
  shows "M + K < add_mset k (M :: nat multiset)"
proof -
  have "(M + K, M + {#k#}) \<in> mult {(x, y). x < y}" by (rule one_step_implies_mult) (use assms in auto)
  then show ?thesis by (simp add: less_multiset_def multp_def)
qed

lemma dirs_evict_dir [simp]: "dirs (evict_dir d st) = dirs st @ [d]"
  by (simp add: evict_dir_def)

lemma dirs_sweep_removed [simp]: "dirs (sweep_removed b info st) = dirs st"
  by (simp add: sweep_removed_def Let_def)

lemma sweep_list_progress:
  assumes "sweep_step c maxUnused (SwWalk cutoff ((q, True) # todo) st) w = Some (p', w')" and "cache_ok c (w_fs w)"
    and "sweep_ok c (SwWalk cutoff ((q, True) # todo) st)"
  shows "sweep_ok c p' \<and> sweep_work c p' < sweep_work c (SwWalk cutoff ((q, True) # todo) st)"
proof -
  note root = cache_okD(1) [OF assms(2)]
  have vis: "visitable c (q, True)" "list_all (visitable c) todo" "list_all (shard_name c) (dirs st)" using assms(3) by simp_all
  note V = visitable_path [OF vis(1) root]
  let ?ds = "if abspath q \<noteq> c_root c \<and> abspath q \<noteq> filepath_Join (c_root c) tmpSubdir then [abspath q] else []"
  have ds: "list_all (shard_name c) ?ds"
  proof -
    from vis(1) obtain r where r: "q = croot c @ r" "fits r DirNode" by (auto simp: visitable_def)
    have "r \<noteq> []" if "abspath q \<noteq> c_root c" using that r root by (auto simp: root_ok_def)
    moreover have "r \<noteq> [tmpSubdir]" if "abspath q \<noteq> filepath_Join (c_root c) tmpSubdir"
      using that r by (auto simp: tmp_dir_eq [OF root] tmp_path_def)
    ultimately show ?thesis using r by (auto simp: shard_name_def)
  qed
  obtain x fs1 where rd: "os_ReadDir (w_fs w) (abspath q) = (x, fs1)" by fastforce
  show ?thesis
  proof (cases x)
    case (Inl e)
    with assms(1) rd have "p' = SwDone (removed (if abspath q \<noteq> c_root c \<and> abspath q \<noteq> filepath_Join (c_root c) tmpSubdir
        then evict_dir (abspath q) st else st), Some (Wrap ''walking cache dir'' e))"
      by (simp add: V(3) on_fs_def Let_def)
    then show ?thesis by simp
  next
    case (Inr es)
    note es = os_ReadDir_entries(1) [OF rd [unfolded Inr] V(2)]
    from assms(1) rd Inr obtain st1 where p': "p' = SwWalk cutoff (es @ todo) st1" and st1: "dirs st1 = dirs st @ ?ds"
      by (auto simp: V(3) on_fs_def Let_def split: if_splits)
    have "visitable c y" "depth_left c y < depth_left c (q, True)" if "y \<in> set es" for y
      using visitable_entries [OF assms(2) V(5)] that V(4) es by (auto simp: depth_left_def)
    moreover have "1 < depth_left c (q, True)" using V(4) by (simp add: depth_left_def)
    ultimately have "mset (map (depth_left c) todo) + mset (map (\<lambda>_. 1) (dirs st)) + {#0, 0#}
        + (mset (map (depth_left c) es) + mset (map (\<lambda>_. 1) ?ds))
      < add_mset (depth_left c (q, True)) (mset (map (depth_left c) todo) + mset (map (\<lambda>_. 1) (dirs st)) + {#0, 0#})"
      by (intro multiset_less_replace) (auto split: if_splits)
    moreover have "list_all (visitable c) es" using \<open>\<And>y. y \<in> set es \<Longrightarrow> visitable c y\<close> by (simp add: list_all_iff)
    ultimately show ?thesis
      using vis ds by (simp add: p' st1 ac_simps)
  qed
qed

lemma sweep_step_progress:
  assumes "sweep_step c maxUnused p w = Some (p', w')" and "sweep_ok c p" and "cache_ok c (w_fs w)"
  shows "sweep_ok c p' \<and> sweep_work c p' < sweep_work c p"
  using assms(1)
proof (cases "(c, maxUnused, p, w)" rule: sweep_step.cases)
  case (1 c1 mu w1)
  have "{#0, 0, depth_left c (croot c, True)#} < {#7#}"
    using multiset_less_replace [of "{#0, 0, depth_left c (croot c, True)#}" 7 "{#}"] by (auto simp: depth_left_def)
  moreover have "visitable c (croot c, True)" by (auto simp: visitable_def fits_def)
  ultimately show ?thesis using assms(1) 1 by (auto simp: no_sweep_def ac_simps split: prod.splits sum.splits)
next
  case (2 c1 mu cutoff st w1)
  have "mset (map (\<lambda>_. 1) (dirs st)) + {#0#} < mset (map (\<lambda>_. 1) (dirs st)) + {#0, 0 :: nat#}"
    using multiset_less_replace [of "{#}" 0 "mset (map (\<lambda>_. 1) (dirs st)) + {#0#}"] by simp
  then show ?thesis using assms(1,2) 2 by (auto simp: list_all_iff)
next
  case (3 c1 mu cutoff q isDir todo st w1)
  have p: "p = SwWalk cutoff ((q, isDir) # todo) st" using 3 by simp
  have ok: "sweep_ok c (SwWalk cutoff ((q, isDir) # todo) st)" using assms(2) 3 by simp
  show ?thesis
  proof (cases isDir)
    case True
    with sweep_list_progress [of c maxUnused cutoff q todo st w p' w'] assms ok p show ?thesis by simp
  next
    case False
    let ?M = "mset (map (depth_left c) todo) + mset (map (\<lambda>_. 1) (dirs st)) + {#0, 0#}"
    have "1 < depth_left c (q, isDir)"
      using visitable_path(4) [of c q isDir] ok cache_okD(1) [OF assms(3)] by (simp add: depth_left_def)
    then have "?M + {#1#} < add_mset (depth_left c (q, isDir)) ?M" "?M + {#} < add_mset (depth_left c (q, isDir)) ?M"
      by (intro multiset_less_replace; simp)+
    with False ok assms(1) p show ?thesis
      by (auto simp: Let_def ac_simps split: prod.splits sum.splits if_splits)
  qed
next
  case (4 c1 mu cutoff q info todo st w1)
  let ?M = "mset (map (depth_left c) todo) + mset (map (\<lambda>_. 1) (dirs st)) + {#0, 0#}"
  have "?M + {#} < add_mset 1 ?M" by (rule multiset_less_replace) simp
  with assms(1,2) 4 show ?thesis by (auto simp: Let_def ac_simps split: prod.splits sum.splits)
next
  case (5 c1 mu d ds st w1)
  let ?M = "mset (map (\<lambda>_. 1) ds) + {#0::nat#}"
  have "?M + {#} < add_mset 1 ?M" by (rule multiset_less_replace) simp
  with assms(1,2) 5 show ?thesis by auto
qed (use assms(1,2) in auto)

section \<open>Witness\<close>

lemma sweep_alone_witness:
  "(sweeps ex_cache (- 10))\<^sup>*\<^sup>* (SwStart, ex_world)
     (SwDone (fst (Evict ex_cache (- 10) ex_world)), snd (Evict ex_cache (- 10) ex_world))"
  by (rule sweep_alone) (simp add: cache_ok_ex)

end
