(* ===== verification/SweepRuns.thy ===== *)
theory SweepRuns
  imports ConcurrentProps Sweeping
begin

text \<open>
  The daemon with its sweeper: the requests of \<open>Concurrent\<close> and, between any two of their steps, one call of
  a sweep. Every run is a run of \<open>sys_step\<close>, so what is proved there holds here; and no sweep goes on for ever.
\<close>

section \<open>The system\<close>

text \<open>A staging file that a request is writing is not old enough to be taken (see \<open>sys_step\<close>).\<close>

definition spares :: "(nat \<Rightarrow> activity) \<Rightarrow> sweep_pc \<Rightarrow> bool" where
  "spares th p \<longleftrightarrow> (case p of SwRemove cutoff q info todo st \<Rightarrow> \<forall>t. q \<notin> owned (th t) | _ \<Rightarrow> True)"

inductive swept_step :: "service \<Rightarrow> 'g flight_group \<Rightarrow> int \<Rightarrow> 'g sys \<times> sweep_pc \<Rightarrow> 'g sys \<times> sweep_pc \<Rightarrow> bool"
  for s G maxUnused where
  swept_other: "sys_step s G \<sigma> \<sigma>' \<Longrightarrow> swept_step s G maxUnused (\<sigma>, p) (\<sigma>', p)"
| swept_tick: "swept_step s G maxUnused (\<sigma>, SwDone r) (\<sigma>, SwStart)"
| swept_call: "sweep_step (svc_cache s) maxUnused p (sys_world \<sigma>) = Some (p', w') \<Longrightarrow> spares (sys_threads \<sigma>) p \<Longrightarrow>
     swept_step s G maxUnused (\<sigma>, p) (\<sigma>\<lparr>sys_world := w'\<rparr>, p')"

inductive_cases swept_stepE: "swept_step s G maxUnused x y"

section \<open>A call of the sweep is a step of the system\<close>

lemma owned_tmp:
  assumes "files_ok s X w th" and "q \<in> owned (th t)"
  shows "\<exists>x. q = tmp_path (svc_cache s) @ [x]"
proof -
  note F = files_okD [OF assms(1)]
  from assms(2) obtain f where f: "tmp_of (th t) = Some f" "q = segs (f_Name f)" by (auto simp: own_path_def split: option.splits)
  from stagedD [OF owned_staged [OF F(2) f(1)] soundD(3) [OF F(1)]] f(2) show ?thesis by metis
qed

lemma shard_name_path:
  assumes "shard_name c d" and "root_ok c"
  obtains q where "d = abspath q" and "list_all seg_ok q" and "strict_prefix (croot c) q" and "q \<noteq> tmp_path c"
    and "\<And>x. q \<noteq> tmp_path c @ [x]"
proof -
  from assms(1) obtain r where r: "d = abspath (croot c @ r)" "fits r DirNode" "r \<noteq> []" "r \<noteq> [tmpSubdir]"
    by (auto simp: shard_name_def)
  show thesis
    by (rule that [of "croot c @ r"]) (use r assms(2) in \<open>auto simp: root_ok_def fits_def tmp_path_def strict_prefix_def\<close>)
qed

lemma sys_same: "same_store (w_fs (sys_world \<sigma>)) fs' \<Longrightarrow> w' = (sys_world \<sigma>)\<lparr>w_fs := fs'\<rparr> \<Longrightarrow>
    sys_step s G \<sigma> (\<sigma>\<lparr>sys_world := w'\<rparr>)"
  using sys_read by blast

lemma sweep_call_sys:
  assumes "sweep_step (svc_cache s) maxUnused p (sys_world \<sigma>) = Some (p', w')" and "sweep_ok (svc_cache s) p"
    and "spares (sys_threads \<sigma>) p" and "files_ok s X (sys_world \<sigma>) (sys_threads \<sigma>)"
  shows "sys_step s G \<sigma> (\<sigma>\<lparr>sys_world := w'\<rparr>)"
proof -
  let ?c = "svc_cache s" and ?w = "sys_world \<sigma>"
  note root = soundD(3) [OF files_okD(1) [OF assms(4)]]
  have refl: "sys_step s G \<sigma> (\<sigma>\<lparr>sys_world := ?w\<rparr>)" by (rule sys_same [of _ "w_fs ?w"]) simp_all
  have stat: "sys_step s G \<sigma> (\<sigma>\<lparr>sys_world := ?w\<lparr>w_fs := fs1\<rparr>\<rparr>)" if "os_Stat (w_fs ?w) d = (r, fs1)" for d r fs1
    using read_only_calls(1) [OF that] by (intro sys_same) simp_all
  have rd: "sys_step s G \<sigma> (\<sigma>\<lparr>sys_world := ?w\<lparr>w_fs := fs1\<rparr>\<rparr>)" if "os_ReadDir (w_fs ?w) d = (r, fs1)" for d r fs1
    using that by (intro sys_same [of _ fs1]) (auto simp: os_ReadDir_def elim!: syscall_cases split: if_splits)
  from assms(1) show ?thesis
  proof (cases "(?c, maxUnused, p, ?w)" rule: sweep_step.cases)
    case (3 c1 mu cutoff q isDir todo st w1)
    with assms(1) stat rd show ?thesis by (auto simp: Let_def on_fs_def split: prod.splits sum.splits if_splits)
  next
    case (4 c1 mu cutoff q info todo st w1)
    then have vis: "visitable ?c (q, False)" using assms(2) by simp
    note V = visitable_path [OF vis root]
    have "sys_step s G \<sigma> (\<sigma>\<lparr>sys_world := snd (on_fs (\<lambda>fs. os_Remove fs (abspath q)) ?w)\<rparr>)"
      using V(1,5,6) assms(3) 4 by (intro sys_unlink [OF surjective_pairing]) (auto simp: strict_prefix_def spares_def)
    moreover have "w' = snd (on_fs (\<lambda>fs. os_Remove fs (abspath q)) ?w)"
      using assms(1) 4 by (auto simp: Let_def V(3) split: prod.splits sum.splits)
    ultimately show ?thesis by simp
  next
    case (5 c1 mu d ds st w1)
    then have "shard_name ?c d" using assms(2) by simp
    then obtain q where q: "d = abspath q" "list_all seg_ok q" "strict_prefix (croot ?c) q" "q \<noteq> tmp_path ?c"
      "\<And>x. q \<noteq> tmp_path ?c @ [x]" using shard_name_path [OF _ root] by metis
    have "sys_step s G \<sigma> (\<sigma>\<lparr>sys_world := snd (on_fs (\<lambda>fs. os_Remove fs (abspath q)) ?w)\<rparr>)"
      using q owned_tmp [OF assms(4)] by (intro sys_unlink [OF surjective_pairing]) blast+
    with 5 assms(1) q(1) show ?thesis by auto
  next
    case (6 c1 mu st w1)
    with assms(1) sys_count show ?thesis by auto
  qed (use assms(1) stat refl in \<open>auto simp: on_fs_def split: prod.splits sum.splits\<close>)
qed

section \<open>Runs\<close>

lemma swept_step_sys:
  assumes "swept_step s G maxUnused (\<sigma>, p) (\<sigma>', p')" and "files_ok s X (sys_world \<sigma>) (sys_threads \<sigma>)" and "sweep_ok (svc_cache s) p"
  shows "(sys_step s G)\<^sup>*\<^sup>* \<sigma> \<sigma>' \<and> sweep_ok (svc_cache s) p'
    \<and> (p' = p \<or> (\<exists>r. p = SwDone r) \<or> sweep_work (svc_cache s) p' < sweep_work (svc_cache s) p)"
  using assms(1)
proof (cases rule: swept_step.cases)
  case (swept_call w')
  from sweep_call_sys [OF swept_call(2) assms(3) swept_call(3) assms(2)]
    sweep_step_progress [OF swept_call(2) assms(3) soundD(2) [OF files_okD(1) [OF assms(2)]]]
  show ?thesis using swept_call(1) by auto
qed (use assms(3) in auto)

lemma swept_run:
  assumes "singleflight G running used" and "svc_fetcher s = S3_Fetch GO" and "sys_start s running \<sigma>0"
    and "(swept_step s G maxUnused)\<^sup>*\<^sup>* (\<sigma>0, SwDone r) x"
  shows "(sys_step s G)\<^sup>*\<^sup>* \<sigma>0 (fst x) \<and> sweep_ok (svc_cache s) (snd x)"
  using assms(4)
proof (induction rule: rtranclp_induct)
  case (step y z)
  have run: "(sys_step s G)\<^sup>*\<^sup>* \<sigma>0 (fst y)" and ok: "sweep_ok (svc_cache s) (snd y)" using step.IH by simp_all
  have "files_ok s (explained s (s3_stored GO) (svc_entries s (sys_world \<sigma>0))) (sys_world (fst y)) (sys_threads (fst y))"
    using singleflight.sys_reach(1) [OF assms(1) run assms(3,2)] by (simp add: sys_ok_def)
  from swept_step_sys [of s G maxUnused "fst y" "snd y" "fst z" "snd z", OF _ this ok] step.hyps(2) run show ?case
    by (auto intro: rtranclp_trans)
qed simp

section \<open>Properties\<close>

text \<open>C13: a sweep may be interleaved with requests at every one of its calls: every such run is a run of the
  system of requests, so in every state the cache is laid out and every entry is whole.\<close>

theorem sweep_interleaved:
  assumes "singleflight G running used" and "svc_fetcher s = S3_Fetch GO" and "sys_start s running \<sigma>0"
    and "(swept_step s G maxUnused)\<^sup>*\<^sup>* (\<sigma>0, SwDone r) (\<sigma>, p)"
  shows "(sys_step s G)\<^sup>*\<^sup>* \<sigma>0 \<sigma> \<and> cache_ok (svc_cache s) (w_fs (sys_world \<sigma>))
    \<and> (\<forall>q d. svc_entries s (sys_world \<sigma>) q = Some d \<longrightarrow>
          explained s (s3_stored GO) (svc_entries s (sys_world \<sigma>0)) q d)"
  using swept_run [OF assms] concurrent_reach [OF assms(1-3)] by fastforce

text \<open>C14: every sweep ends, whatever the requests add, replace or remove meanwhile: from any time on, either the
  sweep is over at some later time or it is no longer given a turn.\<close>

theorem sweep_ends:
  assumes "singleflight G running used" and "svc_fetcher s = S3_Fetch GO" and "sys_start s running (fst (x 0))"
    and "snd (x 0) = SwDone r" and "\<And>i. swept_step s G maxUnused (x i) (x (Suc i))"
  shows "(\<exists>j \<ge> i. \<exists>r. snd (x j) = SwDone r) \<or> (\<exists>j \<ge> i. \<forall>k \<ge> j. snd (x k) = snd (x j))"
proof (rule ccontr)
  let ?c = "svc_cache s"
  assume "\<not> ?thesis"
  then have going: "\<And>j r. i \<le> j \<Longrightarrow> snd (x j) \<noteq> SwDone r" and moves: "\<And>j. i \<le> j \<Longrightarrow> \<exists>k \<ge> j. snd (x k) \<noteq> snd (x j)" by blast+
  have run: "(swept_step s G maxUnused)\<^sup>*\<^sup>* (x 0) (x j)" for j
    using assms(5) by (induction j) (auto intro: rtranclp.rtrancl_into_rtrancl)
  have step: "snd (x (Suc j)) = snd (x j) \<or> sweep_work ?c (snd (x (Suc j))) < sweep_work ?c (snd (x j))" if "i \<le> j" for j
  proof -
    have "(sys_step s G)\<^sup>*\<^sup>* (fst (x 0)) (fst (x j))" and ok: "sweep_ok ?c (snd (x j))"
      using swept_run [OF assms(1-3), of maxUnused r "x j"] run [of j] assms(4) by (metis prod.collapse)+
    from singleflight.sys_reach(1) [OF assms(1) this(1) assms(3,2)] have
      "files_ok s (explained s (s3_stored GO) (svc_entries s (sys_world (fst (x 0))))) (sys_world (fst (x j))) (sys_threads (fst (x j)))"
      by (simp add: sys_ok_def)
    from swept_step_sys [OF _ this ok, of G maxUnused "fst (x (Suc j))" "snd (x (Suc j))"] assms(5) [of j] going [OF that]
    show ?thesis by auto
  qed
  have later: "snd (x k) = snd (x j) \<or> (\<exists>l \<ge> i. sweep_work ?c (snd (x l)) < sweep_work ?c (snd (x j)))" if "i \<le> j" "j \<le> k" for j k
    using that(2)
  proof (induction k rule: dec_induct)
    case (step k)
    with \<open>i \<le> j\<close> assms(5) step(1) have "i \<le> k" "i \<le> Suc k" by simp_all
    with step.IH \<open>\<And>j. i \<le> j \<Longrightarrow> snd (x (Suc j)) = snd (x j) \<or> sweep_work ?c (snd (x (Suc j))) < sweep_work ?c (snd (x j))\<close> [of k]
    show ?case by metis
  qed simp
  have False if "i \<le> j" for j
    using that
  proof (induction "sweep_work ?c (snd (x j))" arbitrary: j rule: less_induct)
    case less
    from moves [OF less.prems] later [OF less.prems] less.hyps show False by metis
  qed
  then show False by blast
qed

text \<open>C25: between its examination and its removal an entry can be served: the lookup hits and gives it a new time, and
  the sweep removes it all the same, so that the next request has to download it again.\<close>

theorem sweep_race:
  assumes "cache_ok c (w_fs w)" and "sha_ok sha" and "role_ok role" and "fault_free (w_fs w)" and "mono (fs_time (w_fs w))"
    and "cutoff \<le> time_Now (w_fs w)" and q_def: "q = entry_path sha c role ident inner"
    and "sweep_step c maxUnused (SwWalk cutoff ((q, False) # todo) st) w = Some (SwRemove cutoff q info todo st, w1)"
    and "cache_Lookup sha c role ident inner (w_fs w1) = (r, fs2)"
    and "sweep_step c maxUnused (SwRemove cutoff q info todo st) (w1\<lparr>w_fs := fs2\<rparr>) = Some (p, w3)"
  shows "(\<exists>f. r = Inr (Some f)) \<and> \<not> stale cutoff fs2 q \<and> cache_entry c w3 q = None"
proof -
  note root = cache_okD(1) [OF assms(1)]
  have "visitable c (q, False)" using fits_entry [OF assms(2,3)] by (fastforce simp: visitable_def q_def)
  note V = visitable_path [OF this root]
  obtain fs1 where st: "os_Stat (w_fs w) (abspath q) = (Inr info, fs1)" and w1: "w1 = w\<lparr>w_fs := fs1\<rparr>"
    using assms(8) by (auto simp: V(3) Let_def on_fs_def split: prod.splits sum.splits if_splits)
  note same = same_storeD [OF read_only_calls(1) [OF st]]
  have ok1: "cache_ok c fs1" using assms(1) same_store_cache_ok [OF read_only_calls(1) [OF st]] by simp
  have ff: "fault_free fs1" "mono (fs_time fs1)" using fault_free_env [OF same(7)] assms(4,5) same(7) by (simp_all add: same_env_def)
  obtain i where n: "node_at fs1 q = Some (FileNode i)"
  proof -
    have "node_at (w_fs w) q \<noteq> None" using st by (auto simp: os_Stat_def V(2) elim!: syscall_cases split: option.splits)
    then obtain m where "node_at fs1 q = Some m" using same(1) by auto
    with entry_not_dir [OF ok1 assms(3)] that show thesis by (cases m) (auto simp: q_def)
  qed
  have p: "segs (cache_path sha c role ident inner) = q" using segs_cache_path [OF root assms(2,3)] by (simp add: q_def)
  from assms(9) ff(1) n obtain f fi where hit: "r = Inr (Some (f, fi))"
    by (auto simp: w1 cache_Lookup_def Let_def os_Open_def f_Stat_def syscall_def fault_free_def p split: prod.splits)
  have look: "cache_Lookup sha c role ident inner fs1 = (Inr (Some (f, fi)), fs2)" using assms(9) by (simp add: w1 hit)
  note L = cache_Lookup_effect [OF look root assms(2,3)]
  have n2: "node_at fs2 q = Some (FileNode (f_ino f))" using L(1) L(7) [OF refl] by (simp add: q_def)
  have "time_Now (w_fs w) \<le> time_Now fs1"
    using assms(5) same(7) by (simp add: time_Now_def same_env_def mono_def)
  then have "\<not> stale cutoff fs2 q"
    using Lookup_touches [OF look root assms(2,3) ff] assms(6) n2 by (simp add: stale_iff)
  moreover have "node_at (w_fs w3) q = None"
    using assms(10) n2 fault_free_env [OF L(3)] ff(1)
    by (auto simp: V(2,3) Let_def on_fs_def os_Remove_def syscall_def fault_free_def)
  ultimately show ?thesis using hit by (simp add: cache_entry_def content_at_def)
qed

section \<open>Witnesses\<close>

lemma sweep_interleaved_witness:
  "\<exists>\<sigma> p. (swept_step ex_svc map_flights 0)\<^sup>*\<^sup>* (ex_sys, SwDone (0, None)) (\<sigma>, p) \<and> p \<noteq> SwStart \<and> p \<noteq> SwDone (0, None)
     \<and> cache_ok ex_cache (w_fs (sys_world \<sigma>))"
proof -
  obtain p w' where st: "sweep_step (svc_cache ex_svc) 0 SwStart (sys_world ex_sys) = Some (p, w')"
    by (rule sweep_step_next [of SwStart]) simp_all
  have "swept_step ex_svc map_flights 0 (ex_sys, SwDone (0, None)) (ex_sys, SwStart)" by (rule swept_tick)
  moreover have "swept_step ex_svc map_flights 0 (ex_sys, SwStart) (ex_sys\<lparr>sys_world := w'\<rparr>, p)"
    by (rule swept_call [OF st]) (simp add: spares_def)
  ultimately have run: "(swept_step ex_svc map_flights 0)\<^sup>*\<^sup>* (ex_sys, SwDone (0, None)) (ex_sys\<lparr>sys_world := w'\<rparr>, p)"
    by (meson converse_rtranclp_into_rtranclp r_into_rtranclp)
  from sweep_interleaved [OF ex_flights ex_svc_simps(2) ex_sys_start run] have "cache_ok ex_cache (w_fs w')" by simp
  moreover have "p \<noteq> SwStart" "p \<noteq> SwDone (0, None)" using st by (auto split: prod.splits sum.splits)
  ultimately show ?thesis using run by (intro exI [of _ "ex_sys\<lparr>sys_world := w'\<rparr>"] exI [of _ p]) simp
qed

text \<open>A sweep that starts and is never given a turn again.\<close>

lemma sweep_ends_witness:
  "\<exists>x :: nat \<Rightarrow> map_group sys \<times> sweep_pc. (\<forall>i. swept_step ex_svc map_flights 0 (x i) (x (Suc i)))
     \<and> ((\<exists>j \<ge> 1. \<exists>r. snd (x j) = SwDone r) \<or> (\<exists>j \<ge> 1. \<forall>k \<ge> j. snd (x k) = snd (x j)))"
proof -
  let ?x = "\<lambda>i :: nat. (ex_sys, if i = 0 then SwDone (0, None) else SwStart)"
  have "sys_step ex_svc map_flights ex_sys ex_sys" using sys_count [of ex_svc map_flights ex_sys id] by (simp add: on_met_def)
  then have step: "swept_step ex_svc map_flights 0 (?x i) (?x (Suc i))" for i
    by (cases i) (auto intro: swept_tick swept_other)
  have "(\<exists>j \<ge> 1. \<exists>r. snd (?x j) = SwDone r) \<or> (\<exists>j \<ge> 1. \<forall>k \<ge> j. snd (?x k) = snd (?x j))"
    by (rule sweep_ends [where x = ?x and i = 1, OF ex_flights ex_svc_simps(2) _ _ step]) (simp_all add: ex_sys_start)
  with step show ?thesis by (intro exI [of _ ?x]) simp
qed

text \<open>The entry of the example is old when the sweep comes to it.\<close>

definition ex_old :: world where
  "ex_old = ex_committed\<lparr>w_fs := (w_fs ex_committed)\<lparr>fs_ops := 20\<rparr>\<rparr>"

definition ex_old_entry :: path where
  "ex_old_entry = entry_path sha_ex ex_cache ''objects'' ''a'' ''b''"

lemma ex_old_facts:
  "cache_ok ex_cache (w_fs ex_old)" "fault_free (w_fs ex_old)" "fs_time (w_fs ex_old) = int" "fs_ops (w_fs ex_old) = 20"
  "node_at (w_fs ex_old) ex_old_entry = Some (FileNode 0)" "ino_mtime (fs_inodes (w_fs ex_old) 0) = 5"
proof -
  note eff = Commit_effect [OF ex_commit _ _ sha_ok_ex role_ok_objects, unfolded ex_world_fs, OF cache_ok_ex staged_ex(1)]
  show "cache_ok ex_cache (w_fs ex_old)" using eff(1) by (simp add: ex_old_def cache_ok_def fs_ok_def inodes_ok_def)
  show "fault_free (w_fs ex_old)" "fs_time (w_fs ex_old) = int" "fs_ops (w_fs ex_old) = 20"
    using eff(2) by (simp_all add: ex_old_def same_env_def fault_free_def ex_fs_def ex_fs0_def)
  have "file_at (w_fs ex_committed) ex_old_entry = Some (f_ino ex_tmp)" using eff(5) by (simp add: ex_old_entry_def)
  then show "node_at (w_fs ex_old) ex_old_entry = Some (FileNode 0)" by (simp add: ex_old_def ex_tmp_def)
  show "ino_mtime (fs_inodes (w_fs ex_old) 0) = 5" using eff(3) by (simp add: ex_old_def ex_fs_def ex_fs0_def)
qed

lemma sweep_race_witness:
  "\<exists>info w1 f fs2 p w3. sweep_step ex_cache 0 (SwWalk 10 [(ex_old_entry, False)] no_sweep) ex_old
       = Some (SwRemove 10 ex_old_entry info [] no_sweep, w1)
     \<and> cache_Lookup sha_ex ex_cache ''objects'' ''a'' ''b'' (w_fs w1) = (Inr (Some f), fs2)
     \<and> sweep_step ex_cache 0 (SwRemove 10 ex_old_entry info [] no_sweep) (w1\<lparr>w_fs := fs2\<rparr>) = Some (p, w3)
     \<and> cache_entry ex_cache w3 ex_old_entry = None"
proof -
  have "visitable ex_cache (ex_old_entry, False)"
    using fits_entry [OF sha_ok_ex role_ok_objects] by (fastforce simp: visitable_def ex_old_entry_def)
  note V = visitable_path [OF this ex_root(2)]
  obtain info fs1 where "os_Stat (w_fs ex_old) (abspath ex_old_entry) = (Inr info, fs1)" and "fi_ModTime info = 5"
    using ex_old_facts by (simp add: os_Stat_def syscall_def fault_free_def V(2) node_info_def)
  then have st: "sweep_step ex_cache 0 (SwWalk 10 [(ex_old_entry, False)] no_sweep) ex_old
      = Some (SwRemove 10 ex_old_entry info [] no_sweep, ex_old\<lparr>w_fs := fs1\<rparr>)"
    by (simp add: V(3) Let_def on_fs_def)
  obtain r fs2 where l: "cache_Lookup sha_ex ex_cache ''objects'' ''a'' ''b'' (w_fs (ex_old\<lparr>w_fs := fs1\<rparr>)) = (r, fs2)" by fastforce
  obtain p w3 where rm: "sweep_step ex_cache 0 (SwRemove 10 ex_old_entry info [] no_sweep) ((ex_old\<lparr>w_fs := fs1\<rparr>)\<lparr>w_fs := fs2\<rparr>) = Some (p, w3)"
    by (rule sweep_step_next [of "SwRemove 10 ex_old_entry info [] no_sweep"]) simp_all
  have "mono (fs_time (w_fs ex_old))" "10 \<le> time_Now (w_fs ex_old)" using ex_old_facts by (simp_all add: mono_def time_Now_def)
  from sweep_race [OF ex_old_facts(1) sha_ok_ex role_ok_objects ex_old_facts(2) this ex_old_entry_def st l rm] st l rm
  show ?thesis by blast
qed

end
