(* ===== verification/Races.thy ===== *)
theory Races
  imports ConcurrentProps SourceBundle
begin

text \<open>
  What a sweep does to a request it overtakes: in states that the daemon reaches, one whole sweep between two
  calls of a request makes \<open>SourceFile\<close> panic, or a commit fail, although no call of the environment does.
\<close>

section \<open>A sweep without faults\<close>

lemma Evict_removes:
  assumes "Evict c maxUnused w = (r, w')" and "cache_ok c (w_fs w)" and "fault_free (w_fs w)"
  shows "fault_free (w_fs w')" and "cache_ok c (w_fs w')"
    and "in_cache c p \<Longrightarrow> file_at (w_fs w') p =
      (if stale (time_Now (w_fs w) - maxUnused) (w_fs w) p then None else file_at (w_fs w) p)"
    and "d \<in> shard_dirs c (w_fs w') \<Longrightarrow> has_file_below (w_fs w') d"
proof -
  obtain n err where r: "r = (n, err)" by (cases r)
  from Evict_effect [OF assms(1) [unfolded r] assms(2)] assms(3) obtain R where
    R: "R = {p. prefix (croot c) p \<and> stale (time_Now (w_fs w) - maxUnused) (w_fs w) p}"
      "file_at (w_fs w') = (\<lambda>p. if p \<in> R then None else file_at (w_fs w) p)" "same_env (w_fs w) (w_fs w')"
      "cache_ok c (w_fs w')" "\<forall>p \<in> shard_dirs c (w_fs w'). has_file_below (w_fs w') p" by blast
  show "fault_free (w_fs w')" using fault_free_env [OF R(3)] assms(3) by simp
  show "cache_ok c (w_fs w')" by (rule R(4))
  show "d \<in> shard_dirs c (w_fs w') \<Longrightarrow> has_file_below (w_fs w') d" using R(5) by blast
  show "file_at (w_fs w') p = (if stale (time_Now (w_fs w) - maxUnused) (w_fs w) p then None else file_at (w_fs w) p)"
    if "in_cache c p" using that by (simp add: R(1,2))
qed

text \<open>A directory of entries that holds none but stale ones is gone when the sweep is over.\<close>

lemma Evict_prunes:
  assumes "Evict c maxUnused w = (r, w')" and "cache_ok c (w_fs w)" and "fault_free (w_fs w)" and "role_ok role"
    and "\<And>p. cache_entry c w p \<noteq> None \<Longrightarrow> butlast p = butlast (entry_path sha c role ident inner) \<Longrightarrow>
      stale (time_Now (w_fs w) - maxUnused) (w_fs w) p"
  shows "node_at (w_fs w') (butlast (entry_path sha c role ident inner)) \<noteq> Some DirNode"
proof
  let ?d = "butlast (entry_path sha c role ident inner)"
  note E = Evict_removes [OF assms(1-3)]
  obtain a b where d: "?d = croot c @ [role, a, b]" by (simp add: entry_path_def Let_def butlast_append)
  have role: "role \<noteq> tmpSubdir" using assms(4) by (simp add: role_ok_def)
  assume "node_at (w_fs w') ?d = Some DirNode"
  then have "?d \<in> shard_dirs c (w_fs w')" by (simp add: shard_dirs_def d tmp_path_def)
  from E(4) [OF this] obtain q where q: "strict_prefix ?d q" "file_at (w_fs w') q \<noteq> None" by (auto simp: has_file_below_def)
  then obtain i y where n: "node_at (w_fs w') q = Some (FileNode i)" and y: "q = croot c @ role # a # b # y" "y \<noteq> []"
    by (auto simp: d strict_prefix_def prefix_def)
  then obtain x t where x: "q = croot c @ role # a # b # x # t" by (cases y) simp_all
  from cache_okD(4) [OF E(2)] n x role have "t = []" by (fastforce simp: fits_def)
  with x have bq: "butlast q = ?d" and inq: "in_cache c q"
    using role by (simp_all add: d butlast_append tmp_path_def)
  from E(3) [OF inq] q(2) have keep: "\<not> stale (time_Now (w_fs w) - maxUnused) (w_fs w) q" "file_at (w_fs w) q \<noteq> None"
    by (auto split: if_splits)
  then have "cache_entry c w q \<noteq> None" using inq by (simp add: cache_entry_def content_at_file)
  from assms(5) [OF this bq] keep(1) show False by contradiction
qed

section \<open>Properties\<close>

text \<open>C38: when a request has had its object produced, by itself or by the caller it joined, and a sweep takes the
  entry before the request opens it, then \<open>object\<close> succeeds with a nil file, and what \<open>SourceFile\<close> does
  next (\<open>source_of\<close>) panics on it, whatever the bundle library and the path: in any state the daemon reaches, and
  with a cache that stays in order.\<close>

theorem SourceFile_can_panic:
  assumes "singleflight G running used" and "svc_fetcher s = S3_Fetch GO" and "sys_start s running \<sigma>0"
    and "(sys_step s G)\<^sup>*\<^sup>* \<sigma>0 \<sigma>" and "sys_threads \<sigma> t = ObjThread req ObjReopen" and "fault_free (w_fs (sys_world \<sigma>))"
    and "Evict (svc_cache s) maxUnused (sys_world \<sigma>) = (r, w')"
    and "\<And>u p. p \<in> owned (sys_threads \<sigma> u) \<Longrightarrow>
      \<not> stale (time_Now (w_fs (sys_world \<sigma>)) - maxUnused) (w_fs (sys_world \<sigma>)) p"
    and "stale (time_Now (w_fs (sys_world \<sigma>)) - maxUnused) (w_fs (sys_world \<sigma>)) (req_entry s roleObjects req)"
  shows "sys_step s G \<sigma> (\<sigma>\<lparr>sys_world := w'\<rparr>)
    \<and> (\<exists>w1. thread_step s G (sys_threads \<sigma> t) w' (sys_group \<sigma>) = Some (ObjThread req (ObjDone (Inr None)), w1, sys_group \<sigma>)
        \<and> svc_ready s w1 \<and> (\<forall>lib p. fst (source_of lib p (Inr None) w1) = Inl (GoPanic ''nil pointer dereference'')))"
proof -
  let ?w = "sys_world \<sigma>" and ?e = "req_entry s roleObjects req"
  note S = singleflight.sys_reach(2) [OF assms(1,4,3,2)]
  note E = Evict_removes [OF assms(7) soundD(2) [OF S] assms(6)]
  have ready: "svc_ready s w'" by (rule soundD(1) [OF moves_sound [OF moves_Evict [OF assms(7) S]]])
  have gone: "svc_entries s w' ?e = None"
    using E(3) [OF req_entry_in_cache [of s roleObjects req]] assms(9) by (simp add: cache_entry_def content_at_file)
  obtain x w1 where l: "req_Lookup s roleObjects req w' = (x, w1)" by fastforce
  note L = svc_Lookup_quiet [OF l ready role_ok_names(1)]
  have "x \<noteq> Inr (Some h)" for h using L(3) [of "fst h" "snd h"] gone by auto
  moreover have "is_ok x" by (rule L(5) [OF E(1)])
  ultimately have "x = Inr None" by (metis is_ok_simps(2) not_None_eq sum.exhaust)
  moreover have "svc_ready s w1" by (rule quiet_ready(1) [OF ready L(1)])
  moreover have "sys_step s G \<sigma> (\<sigma>\<lparr>sys_world := w'\<rparr>)" by (rule sys_sweep [OF assms(7,8)])
  ultimately show ?thesis using l by (simp add: assms(5) source_of_def)
qed

text \<open>C40: when a sweep runs between the two halves of a commit and the directory that the first half made for the
  entry holds nothing but stale entries, then the sweep prunes that directory and the rename fails, although no
  call of the environment does and the staging file is still there: the object that was downloaded is thrown
  away, and the request is answered with an error. This is so in any state the daemon reaches.\<close>

theorem commit_race:
  assumes "singleflight G running used" and "svc_fetcher s = S3_Fetch GO" and "sys_start s running \<sigma>0"
    and "(sys_step s G)\<^sup>*\<^sup>* \<sigma>0 \<sigma>" and "sys_threads \<sigma> t = ObjThread req (DlRename n tmp delta existed)"
    and "fault_free (w_fs (sys_world \<sigma>))" and "Evict (svc_cache s) maxUnused (sys_world \<sigma>) = (r, w')"
    and "\<And>u p. p \<in> owned (sys_threads \<sigma> u) \<Longrightarrow>
      \<not> stale (time_Now (w_fs (sys_world \<sigma>)) - maxUnused) (w_fs (sys_world \<sigma>)) p"
    and "\<And>p. svc_entries s (sys_world \<sigma>) p \<noteq> None \<Longrightarrow> butlast p = butlast (req_entry s roleObjects req) \<Longrightarrow>
      stale (time_Now (w_fs (sys_world \<sigma>)) - maxUnused) (w_fs (sys_world \<sigma>)) p"
  shows "sys_step s G \<sigma> (\<sigma>\<lparr>sys_world := w'\<rparr>) \<and> staged (svc_cache s) (w_fs w') tmp
    \<and> (\<exists>w2 g2. runs (thread_step s G) (sys_threads \<sigma> t, w', sys_group \<sigma>)
          (ObjThread req (ObjDone (Inl (Wrap ''producing cache entry'' (Wrap ''committing object to cache''
             (Wrap ''committing cache entry'' ErrNotExist))))), w2, g2)
        \<and> svc_entries s w2 (req_entry s roleObjects req) = None \<and> file_at (w_fs w2) (segs (f_Name tmp)) = None)"
proof -
  let ?w = "sys_world \<sigma>" and ?e = "req_entry s roleObjects req" and ?c = "svc_cache s"
  let ?p = "cache_path (svc_sha s) ?c roleObjects (fst (cacheKey req)) (snd (cacheKey req))"
  let ?err = "Wrap ''committing object to cache'' (Wrap ''committing cache entry'' ErrNotExist)"
  note R = singleflight.sys_reach [OF assms(1,4,3,2)]
  note S = R(2) and E = Evict_removes [OF assms(7) soundD(2) [OF R(2)] assms(6)]
  have st: "staged ?c (w_fs ?w) tmp" using R(3) [of t] assms(5) by (simp add: commit_ready_def)
  note M = moves_Evict [OF assms(7) S]
  have "segs (f_Name tmp) \<in> owned (sys_threads \<sigma> t)" by (simp add: assms(5))
  from staged_moves(1) [OF st M] assms(8) [OF this] have st': "staged ?c (w_fs w') tmp" by simp
  note S' = moves_sound [OF M]
  have seg: "segs ?p = ?e" using soundD(3,4) [OF S] by (simp add: req_entry_def)
  have noDir: "node_at (w_fs w') (butlast ?e) \<noteq> Some DirNode"
    using Evict_prunes [OF assms(7) soundD(2) [OF S] assms(6) role_ok_names(1)] assms(9) unfolding req_entry_def by blast
  have gone: "file_at (w_fs w') ?e = None"
    using E(3) [OF req_entry_in_cache [of s roleObjects req]] assms(9) [of ?e] req_entry_in_cache [of s roleObjects req]
    by (cases "file_at (w_fs ?w) ?e") (auto simp: cache_entry_def content_at_file simp del: file_at_Some split: if_splits)
  obtain rn fs1 where rn: "os_Rename (w_fs w') (f_Name tmp) ?p = (rn, fs1)" by fastforce
  have "node_at (w_fs w') ?e \<noteq> Some DirNode"
    unfolding req_entry_def by (rule entry_not_dir [OF E(2) role_ok_names(1)])
  then have rn_err: "rn = Inl ErrNotExist"
    using rn noDir E(1) by (auto simp: os_Rename_def seg syscall_def fault_free_def split: option.splits node.splits if_splits)
  let ?w1 = "w'\<lparr>w_fs := fs1\<rparr>" and ?g2 = "fg_Leave G (obj_flight req) n (Some ?err) (sys_group \<sigma>)"
  have same: "same_store (w_fs w') fs1" using os_Rename_effect(1) [OF rn cache_okD(2) [OF E(2)]] rn_err by simp
  have "runs (obj_step s G req) (DlRename n tmp delta existed, w', sys_group \<sigma>)
      (ObjDone (Inl (Wrap ''producing cache entry'' ?err)), discard tmp ?w1, ?g2)"
    by (rule runs_step, simp add: Commit_rename_def rn rn_err, rule runs_step, simp, rule runs_step, simp, rule runs_end)
  from runs_embed [OF this, of "thread_step s G" "ObjThread req"]
  have run: "runs (thread_step s G) (sys_threads \<sigma> t, w', sys_group \<sigma>)
      (ObjThread req (ObjDone (Inl (Wrap ''producing cache entry'' ?err))), discard tmp ?w1, ?g2)" by (simp add: assms(5))
  have st1: "staged ?c (w_fs ?w1) tmp" using st' staged_cong [OF same_storeD(1) [OF same] refl refl] by simp
  have ready: "svc_ready s ?w1" by (rule quiet_ready(1) [OF soundD(1) [OF S'] quiet_read [OF same]])
  have "fault_free (w_fs ?w1)" using E(1) fault_free_env [OF same_storeD(7) [OF same]] by simp
  note D = discard_quiet(3) [OF ready st1 this]
  have "file_at fs1 ?e = None" using gone same_storeD(1) [OF same] by (simp add: file_at_def)
  with D have "svc_entries s (discard tmp ?w1) ?e = None" "file_at (w_fs (discard tmp ?w1)) (segs (f_Name tmp)) = None"
    by (simp_all add: cache_entry_def content_at_file)
  moreover have "sys_step s G \<sigma> (\<sigma>\<lparr>sys_world := w'\<rparr>)" by (rule sys_sweep [OF assms(7,8)])
  ultimately show ?thesis using run st' by blast
qed

section \<open>Witnesses\<close>

text \<open>The download of the example, step by step, up to its rename and beyond it.\<close>

abbreviation ex_runs :: "obj_pc \<Rightarrow> world \<Rightarrow> map_group \<Rightarrow> bool" where
  "ex_runs p w g \<equiv> runs (obj_step ex_svc map_flights (ex_req ''a'')) (ObjLookup, ex_world, no_flights) (p, w, g)"

lemma runs_then: "runs step a (p, w, g) \<Longrightarrow> step p w g = Some q \<Longrightarrow> runs step a q"
  by (rule runs_trans [OF _ runs_step [OF _ runs_end]])

lemma ex_download:
  obtains v v' q w' where "req_Lookup ex_svc roleObjects (ex_req ''a'') ex_world = (Inr None, v)" and "svc_quiet ex_svc ex_world v"
    and "download ex_svc (ex_req ''a'') (on_met (met_lookup roleObjects ResultMiss) v) = (None, v')"
proof -
  from ex_fetch obtain q w' where o: "object ex_svc (ex_req ''a'') ex_world = (Inr q, w')" by (auto simp: Fetch_def)
  obtain r v where l: "req_Lookup ex_svc roleObjects (ex_req ''a'') ex_world = (r, v)" by fastforce
  note L = svc_Lookup_quiet [OF l ex_ready role_ok_names(1)]
  have "r \<noteq> Inr (Some h)" for h using L(3) [of "fst h" "snd h"] ex_empty by auto
  moreover have "is_ok r" by (rule L(5) [OF ex_fault_free])
  ultimately have r: "r = Inr None" by (metis is_ok_simps(2) not_None_eq sum.exhaust)
  obtain x v' where d: "download ex_svc (ex_req ''a'') (on_met (met_lookup roleObjects ResultMiss) v) = (x, v')" by fastforce
  have "x = None"
    using o l r d by (cases x) (auto simp: object_def produceOnce_def ex_svc_def case_prod_unfold split: option.splits)
  with l r L(1) d show thesis by (intro that) simp_all
qed

lemma ex_before_rename:
  obtains n tmp delta existed v g v' where "ex_runs (DlRename n tmp delta existed) v g"
    and "svc_entries ex_svc v = (\<lambda>_. None)" and "fault_free (w_fs v)"
    and "req_rename ex_svc tmp roleObjects (ex_req ''a'') delta existed v = (None, v')"
    and "svc_entries ex_svc v' (req_entry ex_svc roleObjects (ex_req ''a'')) \<noteq> None" and "same_env (w_fs ex_world) (w_fs v')"
proof -
  let ?req = "ex_req ''a''" and ?s = ex_svc
  from ex_download obtain v0 v' where l: "req_Lookup ?s roleObjects ?req ex_world = (Inr None, v0)" and q0: "svc_quiet ?s ex_world v0"
    and d: "download ?s ?req (on_met (met_lookup roleObjects ResultMiss) v0) = (None, v')" by metis
  let ?v0 = "on_met (met_lookup roleObjects ResultMiss) v0"
  obtain loc where loc: "svc_resolver ?s ?req = Inr loc" by (simp add: ex_resolver_def ex_req_def)
  let ?v1 = "on_met met_resolver_seconds (on_met (met_resolver ResultOK) ?v0)"
  obtain x v2 where nt: "on_fs (NewTemp (svc_cache ?s)) ?v1 = (x, v2)" by fastforce
  with d loc obtain tmp where x: "x = Inr tmp" by (cases x) (simp_all add: download_def)
  obtain k y tmp1 v3 where fw: "on_file tmp (svc_fetcher ?s (Bucket loc) (Key loc)) v2 = ((k, y), tmp1, v3)" by (metis prod.exhaust)
  with d loc nt x have y: "y = None" by (cases y) (simp_all add: download_def split: if_splits)
  let ?v3 = "on_met (met_fetched k) v3"
  obtain rc v5 where cm: "Commit (svc_sha ?s) (svc_cache ?s) tmp1 roleObjects (fst (cacheKey ?req)) (snd (cacheKey ?req)) ?v3 = (rc, v5)"
    by fastforce
  then have rc: "rc = None" "v5 = v'"
    using d loc nt x fw y by (auto simp: download_def Let_def case_prod_unfold split: option.splits)
  obtain z v4 where z: "req_prepare ?s tmp1 roleObjects ?req ?v3 = (z, v4)" by fastforce
  note cut = cm [unfolded rc Commit_halves z, simplified]
  then obtain delta existed where pr: "req_prepare ?s tmp1 roleObjects ?req ?v3 = (Inr (delta, existed), v4)"
    and rn: "req_rename ?s tmp1 roleObjects ?req delta existed v4 = (None, v')" using z by (cases z) auto
  have q1: "svc_quiet ?s ex_world ?v1"
    by (rule quiet_trans [OF q0 quiet_trans [OF quiet_met quiet_trans [OF quiet_met quiet_met]]]) simp_all
  note u = in_use_new [OF nt [unfolded x] quiet_ready(1) [OF ex_ready q1]]
  have fw': "on_file tmp (S3_Fetch ex_get (Bucket loc) (Key loc)) v2 = ((k, y), tmp1, v3)" using fw by simp
  have u3: "in_use (svc_sha ?s) (svc_cache ?s) ?v1 ?v3 tmp1"
    by (rule in_use_quiet [OF in_use_write(1) [OF fw' u(1) s3.fetch_env] quiet_met]) simp_all
  then have q3: "svc_quiet ?s ?v1 ?v3" by (simp add: in_use_def)
  note P = prepare_files [OF pr conjunct1 [OF in_use_ready [OF u3]] role_ok_names(1)]
  have "svc_entries ?s v4 = svc_entries ?s ?v3"
    using P(1) by (auto simp: fun_eq_iff cache_entry_def content_at_file same_files_def)
  then have none: "svc_entries ?s v4 = (\<lambda>_. None)" using quiet_entry [OF q1] quiet_entry [OF q3] ex_empty by (simp add: fun_eq_iff)
  have "fault_free (w_fs ?v3)" by (rule quiet_ready(3) [OF ex_ready quiet_trans [OF q1 q3] ex_fault_free])
  then have ff: "fault_free (w_fs v4)" using P(1) fault_free_env [of "w_fs ?v3" "w_fs v4"] by (simp add: same_files_def)
  note C = in_use_commit [OF cm u3 role_ok_names(1)]
  have full: "svc_entries ?s v' (req_entry ?s roleObjects ?req) \<noteq> None" using C(5) rc by (simp add: req_entry_def)
  have env: "same_env (w_fs ex_world) (w_fs v')"
    using ready_steps(2) [OF ex_ready rtranclp_trans [OF quiet_steps [OF q1] C(3)]] rc by simp
  obtain n lead g where en: "fg_Enter map_flights (obj_flight ?req) no_flights = ((n, lead), g)" by (metis prod.exhaust)
  have lead: lead by (rule conjunct1 [OF map_flights.enter_new [OF no_flights_running(2) en]])
  have "ex_runs ObjDo ?v0 no_flights" by (rule runs_then [OF runs_end]) (simp add: l)
  then have "ex_runs (DlResolve n) ?v0 g" by (rule runs_then) (simp add: en lead)
  then have "ex_runs (DlTemp n loc) ?v1 g" by (rule runs_then) (simp add: loc [simplified])
  then have "ex_runs (DlFetch n loc tmp) v2 g" by (rule runs_then) (simp add: nt [simplified] x)
  then have "ex_runs (DlPrepare n tmp1) ?v3 g" by (rule runs_then) (simp add: fw' y)
  then have "ex_runs (DlRename n tmp1 delta existed) v4 g" by (rule runs_then) (simp add: pr [simplified])
  from that [OF this none ff rn full env] show thesis .
qed

text \<open>The thread of this run in the system.\<close>

definition ex_state :: "obj_pc \<Rightarrow> world \<Rightarrow> map_group \<Rightarrow> map_group sys" where
  "ex_state p w g = \<lparr>sys_world = w, sys_group = g, sys_threads = (\<lambda>_. Idle)(0 := ObjThread (ex_req ''a'') p)\<rparr>"

lemma ex_state_reached: "ex_runs p w g \<Longrightarrow> (sys_step ex_svc map_flights)\<^sup>*\<^sup>* ex_sys (ex_state p w g)"
  unfolding ex_state_def
  by (rule ex_sys_run [OF runs_embed [where f = "ObjThread (ex_req ''a'')" and step' = "thread_step ex_svc map_flights"] sys_fetch])
    (simp_all add: ex_sys_def)

lemma ex_state_simps [simp]:
  "sys_world (ex_state p w g) = w" "sys_group (ex_state p w g) = g"
  "sys_threads (ex_state p w g) t = (if t = 0 then ObjThread (ex_req ''a'') p else Idle)"
  by (simp_all add: ex_state_def)

text \<open>The entry is taken when it has not been used for an hour, which passes while the request is not scheduled.\<close>

lemma SourceFile_can_panic_witness:
  "\<exists>\<sigma> w1 g. (sys_step ex_svc map_flights)\<^sup>*\<^sup>* ex_sys \<sigma> \<and> sys_threads \<sigma> 0 = ObjThread (ex_req ''a'') ObjReopen
     \<and> thread_step ex_svc map_flights (sys_threads \<sigma> 0) (snd (Evict ex_cache 3600 (sys_world \<sigma>))) (sys_group \<sigma>)
       = Some (ObjThread (ex_req ''a'') (ObjDone (Inr None)), w1, g)
     \<and> fst (source_of ex_lib ''/a/b.c'' (Inr None) w1) = Inl (GoPanic ''nil pointer dereference'')"
proof -
  let ?req = "ex_req ''a''" and ?e = "req_entry ex_svc roleObjects (ex_req ''a'')"
  from ex_before_rename obtain n tmp delta existed v g v' where r: "ex_runs (DlRename n tmp delta existed) v g"
    and rn: "req_rename ex_svc tmp roleObjects ?req delta existed v = (None, v')"
    and full: "svc_entries ex_svc v' ?e \<noteq> None" and env: "same_env (w_fs ex_world) (w_fs v')" by metis
  from runs_then [OF r, of "(ObjLeave n None, v', g)"] rn have "ex_runs (ObjLeave n None) v' g" by simp
  then have "ex_runs ObjReopen v' (fg_Leave map_flights (obj_flight ?req) n None g)" by (rule runs_then) simp
  note run = ex_state_reached [OF this]
  obtain i where i: "node_at (w_fs v') ?e = Some (FileNode i)"
    using full by (auto simp: cache_entry_def content_at_def split: if_splits option.splits node.splits)
  let ?t = "ino_mtime (fs_inodes (w_fs v') i)"
  let ?fs = "(w_fs v')\<lparr>fs_ops := fs_ops (w_fs v') + nat \<bar>?t\<bar> + 3601\<rparr>"
  let ?\<sigma> = "ex_state ObjReopen (v'\<lparr>w_fs := ?fs\<rparr>) (fg_Leave map_flights (obj_flight ?req) n None g)"
  have "sys_step ex_svc map_flights (ex_state ObjReopen v' (fg_Leave map_flights (obj_flight ?req) n None g)) ?\<sigma>"
    using sys_read [of "ex_state ObjReopen v' (fg_Leave map_flights (obj_flight ?req) n None g)" ?fs]
    by (simp add: same_store_def same_env_def ex_state_def)
  with run have reach: "(sys_step ex_svc map_flights)\<^sup>*\<^sup>* ex_sys ?\<sigma>" by (rule rtranclp.rtrancl_into_rtrancl)
  have time: "fs_time (w_fs v') = int" "fault_free (w_fs v')"
    using env fault_free_env [OF env] ex_env by (simp_all add: same_env_def ex_fs_def ex_fs0_def)
  have th: "sys_threads ?\<sigma> 0 = ObjThread ?req ObjReopen" by simp
  have ff: "fault_free (w_fs (sys_world ?\<sigma>))" using time(2) by (simp add: fault_free_def)
  obtain x w' where ev: "Evict (svc_cache ex_svc) 3600 (sys_world ?\<sigma>) = (x, w')" by fastforce
  have old: "stale (time_Now (w_fs (sys_world ?\<sigma>)) - 3600) (w_fs (sys_world ?\<sigma>)) ?e"
    using i time(1) by (simp add: stale_iff time_Now_def)
  have fresh: "\<not> stale (time_Now (w_fs (sys_world ?\<sigma>)) - 3600) (w_fs (sys_world ?\<sigma>)) p" if "p \<in> owned (sys_threads ?\<sigma> u)" for u p
    using that by (auto split: if_splits)
  have "sys_step ex_svc map_flights ?\<sigma> (?\<sigma>\<lparr>sys_world := w'\<rparr>)
    \<and> (\<exists>w1. thread_step ex_svc map_flights (sys_threads ?\<sigma> 0) w' (sys_group ?\<sigma>)
          = Some (ObjThread ?req (ObjDone (Inr None)), w1, sys_group ?\<sigma>)
        \<and> svc_ready ex_svc w1 \<and> (\<forall>lib p. fst (source_of lib p (Inr None) w1) = Inl (GoPanic ''nil pointer dereference'')))"
    by (rule SourceFile_can_panic [OF ex_flights ex_svc_simps(2) ex_sys_start reach th ff ev]) (use fresh old in blast)+
  then obtain w1 where "thread_step ex_svc map_flights (sys_threads ?\<sigma> 0) w' (sys_group ?\<sigma>)
       = Some (ObjThread ?req (ObjDone (Inr None)), w1, sys_group ?\<sigma>)"
    "fst (source_of ex_lib ''/a/b.c'' (Inr None) w1) = Inl (GoPanic ''nil pointer dereference'')" by blast
  with reach th ev show ?thesis by (intro exI [of _ ?\<sigma>] exI [of _ w1] exI [of _ "sys_group ?\<sigma>"]) simp
qed

lemma commit_race_witness:
  "\<exists>\<sigma> n tmp delta existed maxUnused w2 g2 e. (sys_step ex_svc map_flights)\<^sup>*\<^sup>* ex_sys \<sigma>
     \<and> sys_threads \<sigma> 0 = ObjThread (ex_req ''a'') (DlRename n tmp delta existed) \<and> fault_free (w_fs (sys_world \<sigma>))
     \<and> runs (thread_step ex_svc map_flights) (sys_threads \<sigma> 0, snd (Evict ex_cache maxUnused (sys_world \<sigma>)), sys_group \<sigma>)
         (ObjThread (ex_req ''a'') (ObjDone (Inl e)), w2, g2)"
proof -
  from ex_before_rename obtain n tmp delta existed v g where r: "ex_runs (DlRename n tmp delta existed) v g"
    and none: "svc_entries ex_svc v = (\<lambda>_. None)" and ff: "fault_free (w_fs v)" by metis
  let ?\<sigma> = "ex_state (DlRename n tmp delta existed) v g"
  let ?m = "time_Now (w_fs v) - the (mtime_at (w_fs v) (segs (f_Name tmp)))"
  obtain x w' where ev: "Evict (svc_cache ex_svc) ?m (sys_world ?\<sigma>) = (x, w')" by fastforce
  have th: "sys_threads ?\<sigma> 0 = ObjThread (ex_req ''a'') (DlRename n tmp delta existed)" by simp
  have ff': "fault_free (w_fs (sys_world ?\<sigma>))" using ff by simp
  have fresh: "\<not> stale (time_Now (w_fs (sys_world ?\<sigma>)) - ?m) (w_fs (sys_world ?\<sigma>)) p" if "p \<in> owned (sys_threads ?\<sigma> u)" for u p
    using that by (auto simp: stale_def split: if_splits option.splits)
  have old: "stale (time_Now (w_fs (sys_world ?\<sigma>)) - ?m) (w_fs (sys_world ?\<sigma>)) p"
    if "svc_entries ex_svc (sys_world ?\<sigma>) p \<noteq> None" for p using that none by simp
  let ?err = "Wrap ''producing cache entry'' (Wrap ''committing object to cache'' (Wrap ''committing cache entry'' ErrNotExist))"
  have "sys_step ex_svc map_flights ?\<sigma> (?\<sigma>\<lparr>sys_world := w'\<rparr>) \<and> staged (svc_cache ex_svc) (w_fs w') tmp
    \<and> (\<exists>w2 g2. runs (thread_step ex_svc map_flights) (sys_threads ?\<sigma> 0, w', sys_group ?\<sigma>)
          (ObjThread (ex_req ''a'') (ObjDone (Inl ?err)), w2, g2)
        \<and> svc_entries ex_svc w2 (req_entry ex_svc roleObjects (ex_req ''a'')) = None \<and> file_at (w_fs w2) (segs (f_Name tmp)) = None)"
    by (rule commit_race [OF ex_flights ex_svc_simps(2) ex_sys_start ex_state_reached [OF r] th ff' ev]) (use fresh old in blast)+
  then obtain w2 g2 where "runs (thread_step ex_svc map_flights) (sys_threads ?\<sigma> 0, w', sys_group ?\<sigma>)
      (ObjThread (ex_req ''a'') (ObjDone (Inl ?err)), w2, g2)" by blast
  with ex_state_reached [OF r] th ff' ev show ?thesis
    by (intro exI [of _ ?\<sigma>] exI [of _ n] exI [of _ tmp] exI [of _ delta] exI [of _ existed] exI [of _ ?m] exI [of _ w2]
        exI [of _ g2] exI [of _ ?err]) simp
qed

end
