(* ===== verification/Serving.thy ===== *)
theory Serving
  imports HttpApi
begin

text \<open>
  \<open>Server.Run\<close> with its goroutines: each listener reports on a channel with room for two when its
  \<open>ListenAndServe\<close> returns, the main goroutine takes the first report or the cancelled context and then shuts
  both down. \<open>Server_Run\<close> of \<open>HttpApi\<close> is what this comes to.
\<close>

section \<open>The goroutines\<close>

definition ErrServerClosed :: goerr where
  "ErrServerClosed = EnvError ''http: Server closed''"

datatype listener = Listening | Reporting goerr | Reported goerr

datatype run_pc = RunSelect | RunShutPublic "goerr option" | RunShutAdmin "goerr option" | RunReturned "goerr option"

record run_state =
  rs_public :: listener
  rs_admin :: listener
  rs_errc :: "goerr list"
  rs_cancelled :: bool
  rs_main :: run_pc

definition run_started :: run_state where
  "run_started = \<lparr>rs_public = Listening, rs_admin = Listening, rs_errc = [], rs_cancelled = False, rs_main = RunSelect\<rparr>"

definition runErr :: "goerr \<Rightarrow> goerr option" where
  "runErr e = (if \<not> errors_is e ErrServerClosed then Some e else None)"

text \<open>\<open>Shutdown\<close> makes a listener that still listens return \<open>ErrServerClosed\<close>.\<close>

definition Shutdown :: "listener \<Rightarrow> listener" where
  "Shutdown l = (case l of Listening \<Rightarrow> Reporting ErrServerClosed | _ \<Rightarrow> l)"

text \<open>The listeners may fail and the context may be cancelled at any time.\<close>

inductive run_step :: "run_state \<Rightarrow> run_state \<Rightarrow> bool" where
  run_cancel: "run_step rs (rs\<lparr>rs_cancelled := True\<rparr>)"
| run_public_fails: "rs_public rs = Listening \<Longrightarrow> run_step rs (rs\<lparr>rs_public := Reporting e\<rparr>)"
| run_admin_fails: "rs_admin rs = Listening \<Longrightarrow> run_step rs (rs\<lparr>rs_admin := Reporting e\<rparr>)"
| run_public_sends: "rs_public rs = Reporting e \<Longrightarrow> length (rs_errc rs) < 2 \<Longrightarrow>
     run_step rs (rs\<lparr>rs_public := Reported e, rs_errc := rs_errc rs @ [e]\<rparr>)"
| run_admin_sends: "rs_admin rs = Reporting e \<Longrightarrow> length (rs_errc rs) < 2 \<Longrightarrow>
     run_step rs (rs\<lparr>rs_admin := Reported e, rs_errc := rs_errc rs @ [e]\<rparr>)"
| run_ctx_done: "rs_main rs = RunSelect \<Longrightarrow> rs_cancelled rs \<Longrightarrow> run_step rs (rs\<lparr>rs_main := RunShutPublic None\<rparr>)"
| run_receives: "rs_main rs = RunSelect \<Longrightarrow> rs_errc rs = e # es \<Longrightarrow>
     run_step rs (rs\<lparr>rs_main := RunShutPublic (runErr e), rs_errc := es\<rparr>)"
| run_shut_public: "rs_main rs = RunShutPublic r \<Longrightarrow>
     run_step rs (rs\<lparr>rs_public := Shutdown (rs_public rs), rs_main := RunShutAdmin r\<rparr>)"
| run_shut_admin: "rs_main rs = RunShutAdmin r \<Longrightarrow>
     run_step rs (rs\<lparr>rs_admin := Shutdown (rs_admin rs), rs_main := RunReturned r\<rparr>)"

section \<open>Invariant\<close>

text \<open>What the main goroutine has decided, if it has.\<close>

fun decided :: "run_pc \<Rightarrow> goerr option option" where
  "decided RunSelect = None"
| "decided (RunShutPublic r) = Some r"
| "decided (RunShutAdmin r) = Some r"
| "decided (RunReturned r) = Some r"

definition reports :: "listener \<Rightarrow> nat" where
  "reports l = (case l of Reported e \<Rightarrow> 1 | _ \<Rightarrow> 0)"

definition reported :: "run_state \<Rightarrow> goerr \<Rightarrow> bool" where
  "reported rs e \<longleftrightarrow> rs_public rs = Reported e \<or> rs_admin rs = Reported e"

definition run_ok :: "run_state \<Rightarrow> bool" where
  "run_ok rs \<longleftrightarrow> length (rs_errc rs) \<le> reports (rs_public rs) + reports (rs_admin rs)
     \<and> (\<forall>e \<in> set (rs_errc rs). reported rs e)
     \<and> (\<forall>r. decided (rs_main rs) = Some r \<longrightarrow> rs_cancelled rs \<and> r = None \<or> (\<exists>e. reported rs e \<and> r = runErr e))
     \<and> (\<forall>r. rs_main rs = RunShutAdmin r \<or> rs_main rs = RunReturned r \<longrightarrow> rs_public rs \<noteq> Listening)
     \<and> (\<forall>r. rs_main rs = RunReturned r \<longrightarrow> rs_admin rs \<noteq> Listening)"

lemma Shutdown_simps [simp]: "Shutdown l \<noteq> Listening" "Shutdown l = Reported e \<longleftrightarrow> l = Reported e"
    "reports (Shutdown l) = reports l"
  by (simp_all add: Shutdown_def reports_def split: listener.splits)

lemma run_step_ok: "run_step rs rs' \<Longrightarrow> run_ok rs \<Longrightarrow> run_ok rs'"
  by (induction rule: run_step.induct) (auto simp: run_ok_def reported_def, auto simp: reports_def)

lemma run_reach_ok: "run_step\<^sup>*\<^sup>* run_started rs \<Longrightarrow> run_ok rs"
proof (induction rule: rtranclp_induct)
  case base
  show ?case by (simp add: run_ok_def run_started_def)
qed (rule run_step_ok)

lemma run_room:
  assumes "run_ok rs" and "rs_public rs = Reporting e \<or> rs_admin rs = Reporting e"
  shows "length (rs_errc rs) < 2"
  using assms by (auto simp: run_ok_def reports_def split: listener.splits)

section \<open>To the end\<close>

text \<open>Each goroutine can go on by itself: the main one to its return, a listener to its report.\<close>

lemma run_main_returns:
  assumes "decided (rs_main rs) \<noteq> None \<or> rs_cancelled rs \<or> rs_errc rs \<noteq> []"
  shows "\<exists>rs' r. run_step\<^sup>*\<^sup>* rs rs' \<and> rs_main rs' = RunReturned r"
proof -
  have admin: "\<exists>rs' r. run_step\<^sup>*\<^sup>* rs rs' \<and> rs_main rs' = RunReturned r" if "rs_main rs = RunShutAdmin q" for rs q
    using r_into_rtranclp [of run_step, OF run_shut_admin [OF that]]
    by (intro exI [of _ "rs\<lparr>rs_admin := Shutdown (rs_admin rs), rs_main := RunReturned q\<rparr>"] exI [of _ q]) simp
  have public: "\<exists>rs' r. run_step\<^sup>*\<^sup>* rs rs' \<and> rs_main rs' = RunReturned r" if "rs_main rs = RunShutPublic q" for rs q
    using admin [of "rs\<lparr>rs_public := Shutdown (rs_public rs), rs_main := RunShutAdmin q\<rparr>" q] run_shut_public [OF that]
    by (auto intro: converse_rtranclp_into_rtranclp)
  show ?thesis
  proof (cases "rs_main rs")
    case RunSelect
    then obtain q rs1 where "run_step rs rs1" "rs_main rs1 = RunShutPublic q"
      using assms run_ctx_done [OF RunSelect] run_receives [OF RunSelect] by (cases "rs_errc rs") fastforce+
    with public [of rs1 q] show ?thesis by (meson converse_rtranclp_into_rtranclp)
  qed (use admin public in auto)
qed

lemma run_listeners_report:
  assumes "run_ok rs" and "rs_main rs = RunReturned r"
  shows "\<exists>rs' e e'. run_step\<^sup>*\<^sup>* rs rs' \<and> rs_main rs' = RunReturned r \<and> rs_public rs' = Reported e \<and> rs_admin rs' = Reported e'"
proof -
  have public: "\<exists>rs' e. run_step\<^sup>*\<^sup>* rs rs' \<and> rs_main rs' = rs_main rs \<and> rs_public rs' = Reported e \<and> rs_admin rs' = rs_admin rs"
  proof (cases "rs_public rs")
    case (Reporting e)
    with run_room [OF assms(1)] have "run_step rs (rs\<lparr>rs_public := Reported e, rs_errc := rs_errc rs @ [e]\<rparr>)"
      by (blast intro: run_public_sends)
    then show ?thesis by (intro exI [of _ "rs\<lparr>rs_public := Reported e, rs_errc := rs_errc rs @ [e]\<rparr>"] exI [of _ e]) auto
  qed (use assms in \<open>auto simp: run_ok_def\<close>)
  then obtain rs1 e where 1: "run_step\<^sup>*\<^sup>* rs rs1" "rs_main rs1 = RunReturned r" "rs_public rs1 = Reported e" "rs_admin rs1 = rs_admin rs"
    using assms(2) by auto
  have ok1: "run_ok rs1" using 1(1) by (induction rule: rtranclp_induct) (use assms(1) run_step_ok in auto)
  show ?thesis
  proof (cases "rs_admin rs1")
    case (Reporting e')
    with run_room [OF ok1] have "run_step rs1 (rs1\<lparr>rs_admin := Reported e', rs_errc := rs_errc rs1 @ [e']\<rparr>)"
      by (blast intro: run_admin_sends)
    with 1 show ?thesis
      by (intro exI [of _ "rs1\<lparr>rs_admin := Reported e', rs_errc := rs_errc rs1 @ [e']\<rparr>"]) (auto intro: rtranclp.rtrancl_into_rtrancl)
  qed (use 1 ok1 in \<open>auto simp: run_ok_def\<close>)
qed

section \<open>Property\<close>

text \<open>C15: \<open>Run\<close> returns only when it was cancelled or a listener ended, with the result of \<open>Server_Run\<close> for that event and
  after both listeners were told to stop; a listener never waits to report, so no goroutine is left behind; and once
  there is an event \<open>Run\<close> can always come to its return and both listeners to their end.\<close>

theorem run_returns:
  assumes "run_step\<^sup>*\<^sup>* run_started rs"
  shows "(\<forall>r. rs_main rs = RunReturned r \<longrightarrow> rs_public rs \<noteq> Listening \<and> rs_admin rs \<noteq> Listening
      \<and> (\<exists>ev. r = snd (Server_Run ev) \<and> (case ev of Cancelled \<Rightarrow> rs_cancelled rs
            | ListenerClosed \<Rightarrow> \<exists>e. reported rs e \<and> errors_is e ErrServerClosed
            | ListenerFailed e \<Rightarrow> reported rs e \<and> \<not> errors_is e ErrServerClosed)))
    \<and> (\<forall>e. rs_public rs = Reporting e \<or> rs_admin rs = Reporting e \<longrightarrow> length (rs_errc rs) < 2)
    \<and> (rs_cancelled rs \<or> rs_errc rs \<noteq> [] \<or> rs_main rs \<noteq> RunSelect \<longrightarrow>
        (\<exists>rs' r e e'. run_step\<^sup>*\<^sup>* rs rs' \<and> rs_main rs' = RunReturned r \<and> rs_public rs' = Reported e \<and> rs_admin rs' = Reported e'))"
proof (intro conjI allI impI)
  note ok = run_reach_ok [OF assms]
  show "length (rs_errc rs) < 2" if "rs_public rs = Reporting e \<or> rs_admin rs = Reporting e" for e
    by (rule run_room [OF ok that])
  fix r assume r: "rs_main rs = RunReturned r"
  with ok show "rs_public rs \<noteq> Listening" "rs_admin rs \<noteq> Listening" by (simp_all add: run_ok_def)
  from ok r consider "rs_cancelled rs" "r = None" | e where "reported rs e" "r = runErr e" by (auto simp: run_ok_def)
  then show "\<exists>ev. r = snd (Server_Run ev) \<and> (case ev of Cancelled \<Rightarrow> rs_cancelled rs
            | ListenerClosed \<Rightarrow> \<exists>e. reported rs e \<and> errors_is e ErrServerClosed
            | ListenerFailed e \<Rightarrow> reported rs e \<and> \<not> errors_is e ErrServerClosed)"
  proof cases
    case 1
    then show ?thesis by (intro exI [of _ Cancelled]) (simp add: Server_Run_def)
  next
    case (2 e)
    then show ?thesis
      by (intro exI [of _ "if errors_is e ErrServerClosed then ListenerClosed else ListenerFailed e"])
        (auto simp: Server_Run_def runErr_def)
  qed
next
  assume "rs_cancelled rs \<or> rs_errc rs \<noteq> [] \<or> rs_main rs \<noteq> RunSelect"
  then have "decided (rs_main rs) \<noteq> None \<or> rs_cancelled rs \<or> rs_errc rs \<noteq> []" by (cases "rs_main rs") auto
  from run_main_returns [OF this] obtain rs1 r where 1: "run_step\<^sup>*\<^sup>* rs rs1" "rs_main rs1 = RunReturned r" by blast
  from run_listeners_report [OF run_reach_ok [OF rtranclp_trans [OF assms 1(1)]] 1(2)] 1(1)
  show "\<exists>rs' r e e'. run_step\<^sup>*\<^sup>* rs rs' \<and> rs_main rs' = RunReturned r \<and> rs_public rs' = Reported e \<and> rs_admin rs' = Reported e'"
    by (meson rtranclp_trans)
qed

lemma run_returns_witness:
  "\<exists>rs' r e e'. run_step\<^sup>*\<^sup>* (run_started\<lparr>rs_cancelled := True\<rparr>) rs' \<and> rs_main rs' = RunReturned r
     \<and> rs_public rs' = Reported e \<and> rs_admin rs' = Reported e'"
proof -
  have "run_step\<^sup>*\<^sup>* run_started (run_started\<lparr>rs_cancelled := True\<rparr>)" by (rule r_into_rtranclp) (rule run_cancel)
  from run_returns [OF this] show ?thesis by (simp add: run_started_def)
qed

end
