(* ===== verification/Spec2Isabelle.thy ===== *)
theory Spec2Isabelle
  imports Process Mszip SweepRuns Races Serving
begin

text \<open>
  debugsymd: a proxy that serves debug symbols over HTTP. It answers Microsoft symbol-server
  paths and debuginfod build-id paths, finds the object with Sentry, fetches its bytes from an
  S3 bucket, keeps them in a cache on disk, and on request wraps them in a cabinet (or mirrors an
  object that already is one).

  \<^bold>\<open>How the parts interact.\<close> \<open>main.go\<close> loads the configuration, lays out the cache, seeds its gauges
  and starts the server, with a periodic sweep beside it. A request path is parsed
  (\<open>symstore\<close>) to a \<open>resolver.Request\<close> and a serving decision; the object service (\<open>objects\<close>) looks
  the entry up in the cache (\<open>diskcache\<close>) or has it produced once for all concurrent callers:
  \<open>resolver\<close> says where the blob is, \<open>storage\<close> streams it into a staging file, \<open>cab\<close> writes the
  cabinet, and \<open>diskcache\<close> commits the staging file by a rename. \<open>httpapi\<close> maps the outcome to a
  response and counts it in \<open>metrics\<close>.

  \<^bold>\<open>Theories and what they model.\<close>
  \<^item> \<open>Prelude\<close>, \<open>GoStrings\<close>, \<open>GoIO\<close>, \<open>GoPath\<close>, \<open>OsFs\<close>: what the program uses of Go's standard library:
    errors with wrapping and \<open>errors.Is\<close>, little-endian integers, \<open>slices.SortFunc\<close> (locale
    \<open>sort_cmp\<close>), UTF-8 case operations, writers and readers, paths, and the file system of package
    \<open>os\<close>. A fault function says which calls of the environment fail; the theorems hold for all.
  \<^item> \<open>Cab\<close>: \<open>src/cab\<close>. \<open>cab_Write\<close> is \<open>Write\<close>, \<open>streamBody\<close> its loop (\<open>emitBlock\<close> is the loop's body),
    \<open>mszip_block\<close> the method \<open>block\<close> with its stored fallback. \<open>cab_image\<close> is the specification, \<open>extractCAB\<close>
    the reference extractor. Lemmas: success leaves the image, the image extracts, rejected
    arguments write nothing, and a bound on the calls made.
  \<^item> \<open>Resolver\<close>: \<open>src/resolver\<close>. \<open>Sentry_Lookup\<close>, \<open>pick\<close>, \<open>quality\<close>, \<open>storageKey\<close>. Lemmas: \<open>pick\<close> is the least
    candidate whatever the list order and the (unstable) sort, when a lookup finds nothing.
  \<^item> \<open>Symstore\<close>: \<open>src/symstore\<close>. \<open>Parse\<close> and the normalisation of identifiers. Lemmas: which inputs are
    accepted, canonical forms, when two identifiers are one.
  \<^item> \<open>Mszip\<close>: \<open>src/cab/mszip.go\<close> with its state, one compressor and two buffers for all blocks of a cabinet.
    Lemma: every block is the one \<open>mszip_block\<close> makes, whatever the writer was used for before.
  \<^item> \<open>Metrics\<close>: \<open>src/metrics\<close>. The values are a record of counters and gauges, the collectors a list of options
    (\<open>own_collectors\<close>) that \<open>newRegistry\<close> registers with the Prometheus client (\<open>prom_lib\<close>); \<open>ReadBuild\<close> and the
    build series. Lemma: no registration is refused.
  \<^item> \<open>DiskCache\<close>, \<open>CacheProps\<close>: \<open>src/diskcache\<close>. The state \<open>world\<close> is the file system and the collectors;
    \<open>cache_New\<close>, \<open>cache_Lookup\<close>, \<open>NewTemp\<close>, \<open>Commit\<close>, \<open>Probe\<close>, \<open>SeedMetrics\<close>, \<open>Evict\<close> and \<open>RunEviction\<close> follow the code
    call by call. \<open>cache_step\<close> is the step relation of the cache; \<open>cache_ok\<close> (layout) and
    \<open>gauges_exact\<close> are its invariants; locale \<open>entry_store\<close> is its contract as a map of entries.
  \<^item> \<open>Storage\<close>: \<open>src/storage\<close>. Locale \<open>fetcher\<close> is the interface \<open>Fetcher\<close>, interpreted on \<open>S3_Fetch\<close>.
  \<^item> \<open>Staging\<close>, \<open>Service\<close>, \<open>Synthesis\<close>, \<open>ServiceProps\<close>: \<open>src/objects/service.go\<close> and \<open>synth.go\<close>. \<open>Fetch\<close>, \<open>object\<close>,
    \<open>produceOnce\<close>, \<open>download\<close>, \<open>FetchCompressed\<close>, \<open>synthesize\<close> (split where the object is open,
    \<open>synthesize_from\<close>, where the staging file is made, \<open>synth_staged\<close>, and at its filling,
    \<open>synth_fill\<close>). The contract of a producer of an entry is \<open>produced\<close>. \<open>source_bytes\<close>
    and \<open>compressed_bytes\<close> say what an answer must be, in terms of the cache's entries and of
    the store. Every run of the service is a run of cache steps (\<open>service_refines_cache\<close>).
  \<^item> \<open>Threads\<close>: the same two files at the grain of calls. \<open>obj_step\<close> and \<open>cmp_step\<close> are \<open>object\<close> and \<open>FetchCompressed\<close> with
    their closures, cut at every call that other requests can see (\<open>obj_pc\<close>, \<open>cmp_pc\<close>); \<open>Commit\<close> is cut before its
    rename (\<open>Commit_prepare\<close>, \<open>Commit_rename\<close>). Locale \<open>singleflight\<close> is the contract of the group of calls. A thread
    alone computes what the functions of \<open>Service\<close> do (\<open>alone_equivalent\<close>).
  \<^item> \<open>Frames\<close>, \<open>Actions\<close>, \<open>Concurrent\<close>, \<open>Flights\<close>, \<open>ConcurrentProps\<close>: the service with any number of requests at once.
    \<open>sys_step\<close> interleaves threads, sweeps, single removals of a sweep in progress, probes and reads.
    \<open>Frames\<close> says what an operation leaves alone (\<open>touches\<close>), \<open>Actions\<close> proves that of every step of a thread,
    \<open>Concurrent\<close> and \<open>Flights\<close> have the invariants of the files and of the flights, with the measure \<open>left\<close> under which no
    request is stuck. An entry is always \<open>explained\<close>: it is from the start, stored, or made of such bytes.
  \<^item> \<open>Sweeping\<close>, \<open>SweepRuns\<close>: \<open>Evict\<close> at the grain of calls. \<open>sweep_step\<close> is \<open>filepath.WalkDir\<close> with the callbacks of \<open>Evict\<close>,
    reading each directory when it comes to it, then \<open>pruneEmptyDirs\<close>. Alone it is \<open>Evict\<close> (\<open>sweep_alone\<close>);
    \<open>swept_step\<close> puts requests between any two of its calls, and its runs are runs of \<open>sys_step\<close>
    (\<open>sweep_interleaved\<close>); the multiset \<open>sweep_work\<close> falls with every call, so that sweeps end.
  \<^item> \<open>SourceBundle\<close>: \<open>src/objects/sourcebundle.go\<close>. \<open>SourceFile\<close> is the call of \<open>object\<close> and what follows it, \<open>source_of\<close>.
  \<^item> \<open>Races\<close>: two ways in which a sweep overtakes a request, in any state that \<open>sys_step\<close> reaches: an entry that is
    swept before its request opens it makes \<open>SourceFile\<close> panic (\<open>SourceFile_can_panic\<close>), and a directory that is pruned
    between the halves of a commit makes the rename fail (\<open>commit_race\<close>).
  \<^item> \<open>HttpApi\<close>, \<open>HttpProps\<close>, \<open>HttpRuns\<close>: \<open>src/httpapi\<close>. A handler takes a status recorder and the world and returns
    whether it panicked, the recorder and the world. Locale \<open>objects_api\<close> is the interface \<open>Objects\<close>,
    interpreted on the service for every bundle library. \<open>http_step\<close> is the server at work: requests
    and sweeps in any order, each a run of cache steps (locale \<open>objects_runs\<close>).
  \<^item> \<open>Serving\<close>: \<open>Server.Run\<close> with the goroutines of the two listeners and the channel they report on (\<open>run_step\<close>);
    it comes to \<open>Server_Run\<close>, which the models of \<open>main.go\<close> use.
  \<^item> \<open>Config\<close>, \<open>Daemon\<close>, \<open>Process\<close>: \<open>src/config\<close> and \<open>src/main.go\<close>. \<open>run_start\<close> is \<open>run\<close> up to the server's start,
    \<open>run_exit\<close> how it ends; \<open>process\<close> is the program from the initialisation of its packages to its exit
    status, with what \<open>main.go\<close> logs. \<open>restart_after_kill\<close> starts a second process on what a killed one left.

  \<^bold>\<open>Parameters.\<close> SHA-256 (any function to 32 bytes, \<open>sha_ok\<close>), \<open>compress/flate\<close> (\<open>flate_lib\<close>), the
  case tables of \<open>unicode\<close>, the HTTP client and JSON decoders, the AWS SDK (the configuration
  loader and the outcome of \<open>GetObject\<close>), \<open>archive/zip\<close>, \<open>http.ServeContent\<close>, the Prometheus client (its
  registry and exposition), \<open>time.ParseDuration\<close>, environment variables. \<open>singleflight\<close> has two views. For a request
  as one operation it is \<open>svc_join\<close>: either this caller runs the closure or it gets another caller's outcome and the
  world it left (\<open>joins_ok\<close>: a run of cache steps; \<open>solo\<close>: no such caller). For threads it is a \<open>flight_group\<close>
  with the documented contract: the first caller of a key runs the closure, later ones wait for its
  outcome, and the key is free when it returns (\<open>map_flights\<close> is an implementation).

  \<^bold>\<open>Termination.\<close> No fuel is used. Recursive functions are structural or have a measure
  (\<open>streamBody\<close> and the rune loops consume input); \<open>RunEviction\<close>, the loop that runs until its
  context is cancelled, recurses over the list of ticks it sees. A request takes at most 28 steps of its own
  (\<open>left\<close>), and some thread can always take one (\<open>requests_finish\<close>). A sweep beside requests has no bound on its
  calls, since they may add entries, but it ends (\<open>sweep_ends\<close>).

  \<^bold>\<open>What a step is.\<close> In \<open>sys_step\<close> the filling of a staging file is one step, since nobody else reads
  or writes that file; so is a whole sweep, and a sweep in progress is seen as single removals of files and
  empty directories (\<open>sys_unlink\<close>); \<open>swept_step\<close> has the calls of the sweep itself and shows that to be enough. A sweep does not take a staging file in use: it would have had to
  stay unwritten for the time an entry may stay unused. That layout and entries hold between any two steps is
  proved; that the gauges are exact is claimed for whole operations only, since the two halves of a commit
  and a sweep in progress adjust them later than the files. In \<open>http_step\<close> requests and sweeps are whole
  operations.

  \<^bold>\<open>Not modelled.\<close> Log output outside \<open>main.go\<close>; measured durations (a histogram counts its observations);
  TLS, timeouts, redirects of uncleaned paths and the connection handling of \<open>net/http\<close>; the delivery of signals
  (they are the event that cancels the context) and a client that disconnects; SDK retries
  and credentials; file permissions, symbolic links and \<open>.\<close> or \<open>..\<close> below the cache root; a crash of the machine.
\<close>

end
